(* ===== verification/Match_Prelude.thy ===== *)
theory Match_Prelude
  imports Main "HOL-Library.Word" "HOL-Library.Multiset" "HOL-Library.Signed_Division"
begin

text \<open>
  Shared vocabulary of the development: machine types, the error values of the Go code, the
  result type with its loop combinator, Go slice operations, the byte orders of
  \<open>encoding/binary\<close>, and the generic lemmas on lists and words that the component theories
  use.
\<close>

unbundle bit_operations_syntax

section \<open>Machine types\<close>

type_synonym byte = "8 word"
type_synonym u32 = "32 word"
type_synonym u64 = "64 word"
type_synonym bytes = "byte list"

named_theorems go_simps \<open>unfolding of the slice and result primitives\<close>
named_theorems codec_simps \<open>byte order conversions\<close>

section \<open>Errors, panics and results\<close>

text \<open>
  Every error value that the modelled code returns and every value it panics with. A panic that
  is not recovered ends the program; none of the modelled code recovers.
\<close>

datatype error =
    IndexOutOfRange          \<comment> \<open>runtime panic of an index expression\<close>
  | SliceOutOfRange          \<comment> \<open>runtime panic of a slice expression\<close>
  | DivideByZero             \<comment> \<open>runtime panic of integer division\<close>
  | NilDeref                 \<comment> \<open>runtime panic of a call on a nil interface\<close>
  | ErrByteLengthMissMatch   \<comment> \<open>panic value of the bit operations, bits.go\<close>
  | RowsNotMultipleOf512     \<comment> \<open>panic value of ConcurrentTransposeTall\<close>
  | ColsNotMultipleOf64      \<comment> \<open>panic value of ConcurrentTransposeWide\<close>
  | RandIntBadMax            \<comment> \<open>panic of crypto/rand.Int on a maximum that is not positive\<close>
  | RandFailure              \<comment> \<open>error of the entropy source\<close>
  | ErrKenslerTooLarge       \<comment> \<open>error of NewKensler\<close>
  | ErrSaltLengthMismatch    \<comment> \<open>hash.go\<close>
  | ErrCuckooFull            \<comment> \<open>first error of Cuckoo.Insert\<close>
  | ErrCuckooHomeless nat    \<comment> \<open>second error of Cuckoo.Insert, with the homeless index\<close>
  | BadBucket                \<comment> \<open>panic of Cuckoo.GetBucket\<close>
  | BadItem                  \<comment> \<open>panic of Cuckoo.GetItemWithHash\<close>
  | EOF                      \<comment> \<open>io.EOF\<close>
  | ErrUnexpectedEOF         \<comment> \<open>io.ErrUnexpectedEOF\<close>
  | IOError                  \<comment> \<open>any other error of a reader or writer\<close>
  | ErrUnexpectedPoint       \<comment> \<open>dhpsi.go\<close>
  | ContextDone              \<comment> \<open>ctx.Err() of a context that is done\<close>
  | LogFatal                 \<comment> \<open>log.Fatalf: the process exits\<close>
  | ErrUnsupportedRistretto int \<comment> \<open>NewRistretto\<close>
  | ErrUnmarshalPoint        \<comment> \<open>Point.Unmarshal, point.go\<close>
  | ErrBaseCountMissMatch    \<comment> \<open>ot.go\<close>
  | ErrKeySize nat           \<comment> \<open>crypto/aes.KeySizeError\<close>
  | ErrRetrieveItem u64      \<comment> \<open>stage 3 of the kkrtpsi receiver\<close>
  | ErrUnsupportedBloomfilter int \<comment> \<open>NewBloomfilter\<close>
  | ErrInvalidPAIRMode       \<comment> \<open>pair.go\<close>
  | ErrInvalidSaltSize       \<comment> \<open>pair.go\<close>
  | ErrDecodeText            \<comment> \<open>UnmarshalText of a scalar or an element\<close>
  | ErrUnsupportedPSIProtocol \<comment> \<open>psi.go\<close>
  | Wrapped string error     \<comment> \<open>fmt.Errorf with a prefix\<close>
  | PanicValue error         \<comment> \<open>panic(err)\<close>

fun is_panic :: "error \<Rightarrow> bool" where
  "is_panic IndexOutOfRange = True"
| "is_panic SliceOutOfRange = True"
| "is_panic DivideByZero = True"
| "is_panic NilDeref = True"
| "is_panic ErrByteLengthMissMatch = True"
| "is_panic RowsNotMultipleOf512 = True"
| "is_panic ColsNotMultipleOf64 = True"
| "is_panic RandIntBadMax = True"
| "is_panic BadBucket = True"
| "is_panic BadItem = True"
| "is_panic (PanicValue _) = True"
| "is_panic _ = False"

type_synonym 'a result = "error + 'a"

definition bind_res :: "'a result \<Rightarrow> ('a \<Rightarrow> 'b result) \<Rightarrow> 'b result" where
  "bind_res m f = (case m of Inl e \<Rightarrow> Inl e | Inr x \<Rightarrow> f x)"

lemma bind_res_simps [simp]:
  "bind_res (Inl e) f = Inl e" "bind_res (Inr x) f = f x"
  by (simp_all add: bind_res_def)

lemma bind_res_Inr_iff: "bind_res m f = Inr y \<longleftrightarrow> (\<exists>x. m = Inr x \<and> f x = Inr y)"
  by (cases m) auto

text \<open>A loop \<open>for i := range xs { s = body(i, s) }\<close> whose body may fail.\<close>

fun fold_res :: "('a \<Rightarrow> 's \<Rightarrow> 's result) \<Rightarrow> 'a list \<Rightarrow> 's \<Rightarrow> 's result" where
  "fold_res f [] s = Inr s"
| "fold_res f (x # xs) s = bind_res (f x s) (fold_res f xs)"

lemma fold_res_append: "fold_res f (xs @ ys) s = bind_res (fold_res f xs s) (fold_res f ys)"
  by (induction xs arbitrary: s) (auto simp: bind_res_def split: sum.splits)

text \<open>A loop whose body never fails on the states it meets is the pure fold.\<close>

lemma fold_res_pure:
  assumes "\<And>x s. x \<in> set xs \<Longrightarrow> P s \<Longrightarrow> f x s = Inr (g x s) \<and> P (g x s)" and "P s"
  shows "fold_res f xs s = Inr (fold g xs s) \<and> P (fold g xs s)"
  using assms by (induction xs arbitrary: s) auto

lemma fold_res_map: "fold_res f (map h xs) s = fold_res (\<lambda>x. f (h x)) xs s"
  by (induction xs arbitrary: s) (auto simp: bind_res_def split: sum.splits)

lemma fold_res_cong: "(\<And>x. x \<in> set xs \<Longrightarrow> f x = g x) \<Longrightarrow> fold_res f xs s = fold_res g xs s"
  by (induction xs arbitrary: s) (auto simp: bind_res_def split: sum.splits)

lemma fold_invariant:
  assumes "\<And>x s. x \<in> set xs \<Longrightarrow> P s \<Longrightarrow> P (g x s)" and "P s"
  shows "P (fold g xs s)"
  using assms by (induction xs arbitrary: s) auto

section \<open>Go slices\<close>

definition go_nth :: "'a list \<Rightarrow> nat \<Rightarrow> 'a result" where
  "go_nth xs i = (if i < length xs then Inr (xs ! i) else Inl IndexOutOfRange)"

definition go_set :: "'a list \<Rightarrow> nat \<Rightarrow> 'a \<Rightarrow> 'a list result" where
  "go_set xs i v = (if i < length xs then Inr (xs[i := v]) else Inl IndexOutOfRange)"

text \<open>The slice expression \<open>xs[lo:hi]\<close>, for a slice whose capacity is its length.\<close>

definition go_slice :: "'a list \<Rightarrow> nat \<Rightarrow> nat \<Rightarrow> 'a list result" where
  "go_slice xs lo hi =
     (if lo \<le> hi \<and> hi \<le> length xs then Inr (take (hi - lo) (drop lo xs)) else Inl SliceOutOfRange)"

text \<open>The elements \<open>xs[k], ..., xs[k+n-1]\<close> of a slice.\<close>

text \<open>Go's \<open>copy(dst, src)\<close>.\<close>

definition go_copy :: "'a list \<Rightarrow> 'a list \<Rightarrow> 'a list" where
  "go_copy dst src = take (length dst) src @ drop (length src) dst"

lemma go_copy_same [simp]: "length src = length dst \<Longrightarrow> go_copy dst src = src"
  by (simp add: go_copy_def)

definition sub_list :: "'a list \<Rightarrow> nat \<Rightarrow> nat \<Rightarrow> 'a list" where
  "sub_list xs k n = take n (drop k xs)"

text \<open>\<open>copy(xs[k:k+len(ys)], ys)\<close>: overwrite a range of \<open>xs\<close>.\<close>

definition write_at :: "'a list \<Rightarrow> nat \<Rightarrow> 'a list \<Rightarrow> 'a list" where
  "write_at xs k ys = take k xs @ ys @ drop (k + length ys) xs"

lemma length_sub_list [simp]: "length (sub_list xs k n) = min n (length xs - k)"
  by (simp add: sub_list_def)

lemma nth_sub_list [simp]: "i < n \<Longrightarrow> k + i < length xs \<Longrightarrow> sub_list xs k n ! i = xs ! (k + i)"
  by (simp add: sub_list_def)

lemma length_write_at [simp]:
  "k + length ys \<le> length xs \<Longrightarrow> length (write_at xs k ys) = length xs"
  by (simp add: write_at_def)

lemma nth_write_at:
  assumes "k + length ys \<le> length xs" and "i < length xs"
  shows "write_at xs k ys ! i = (if k \<le> i \<and> i < k + length ys then ys ! (i - k) else xs ! i)"
  using assms by (auto simp: write_at_def nth_append)

lemma go_slice_sub_list: "lo \<le> hi \<Longrightarrow> hi \<le> length xs \<Longrightarrow> go_slice xs lo hi = Inr (sub_list xs lo (hi - lo))"
  by (simp add: go_slice_def sub_list_def)

lemma go_nth_in [simp]: "i < length xs \<Longrightarrow> go_nth xs i = Inr (xs ! i)"
  by (simp add: go_nth_def)

lemma go_set_in [simp]: "i < length xs \<Longrightarrow> go_set xs i v = Inr (xs[i := v])"
  by (simp add: go_set_def)

lemmas [go_simps] = go_nth_def go_set_def go_slice_def sub_list_def write_at_def bind_res_def

section \<open>Byte orders\<close>

text \<open>
  \<open>binary.LittleEndian.Uint64\<close> and \<open>PutUint64\<close>: byte \<open>i\<close> of the slice holds bits
  \<open>8*i .. 8*i+7\<close>.
\<close>

definition le_get64 :: "bytes \<Rightarrow> u64" where
  "le_get64 bs = foldr (\<lambda>b w. ucast b OR push_bit 8 w) bs 0"

definition le_put64 :: "u64 \<Rightarrow> bytes" where
  "le_put64 w = map (\<lambda>i. ucast (drop_bit (8 * i) w)) [0..<8]"

text \<open>\<open>binary.BigEndian\<close> is the same with the bytes in the other order.\<close>

definition be_get64 :: "bytes \<Rightarrow> u64" where
  "be_get64 bs = le_get64 (rev bs)"

definition be_put64 :: "u64 \<Rightarrow> bytes" where
  "be_put64 w = rev (le_put64 w)"

lemma length_le_put64 [simp]: "length (le_put64 w) = 8"
  by (simp add: le_put64_def)

lemma length_be_put64 [simp]: "length (be_put64 w) = 8"
  by (simp add: be_put64_def)

lemma bit_le_get64 [codec_simps]:
  "bit (le_get64 bs) n \<longleftrightarrow> n < 64 \<and> n div 8 < length bs \<and> bit (bs ! (n div 8)) (n mod 8)"
proof (induction bs arbitrary: n)
  case Nil
  then show ?case by (simp add: le_get64_def)
next
  case (Cons b bs)
  have step: "le_get64 (b # bs) = ucast b OR push_bit 8 (le_get64 bs)"
    by (simp add: le_get64_def)
  show ?case
  proof (cases "n < 8")
    case True
    then show ?thesis by (simp add: step bit_simps)
  next
    case False
    then have d: "n div 8 = Suc ((n - 8) div 8)" and m: "n mod 8 = (n - 8) mod 8"
      by (simp_all add: le_div_geq le_mod_geq)
    have nb: "\<not> bit b n" using False bit_imp_le_length [of b n] by auto
    show ?thesis using False by (auto simp: step bit_simps Cons.IH d m nb)
  qed
qed

lemma bit_le_put64 [codec_simps]:
  "i < 8 \<Longrightarrow> bit (le_put64 w ! i) n \<longleftrightarrow> n < 8 \<and> bit w (8 * i + n)"
  by (auto simp: le_put64_def bit_simps dest: bit_imp_le_length)

lemma le_get_put64 [simp]: "le_get64 (le_put64 w) = w"
proof (rule bit_eqI)
  fix n assume "possible_bit TYPE(u64) n"
  then have "n < 64" by (simp add: possible_bit_word)
  then have "n div 8 < 8" by simp
  with \<open>n < 64\<close> show "bit (le_get64 (le_put64 w)) n = bit w n"
    by (simp add: codec_simps)
qed

lemma le_put_get64 [simp]: "length bs = 8 \<Longrightarrow> le_put64 (le_get64 bs) = bs"
proof (rule nth_equalityI, simp)
  fix i assume bs: "length bs = 8" and "i < length (le_put64 (le_get64 bs))"
  then have i: "i < 8" by simp
  show "le_put64 (le_get64 bs) ! i = bs ! i"
  proof (rule bit_eqI)
    fix n assume "possible_bit TYPE(byte) n"
    then have "n < 8" by (simp add: possible_bit_word)
    then show "bit (le_put64 (le_get64 bs) ! i) n = bit (bs ! i) n"
      using i bs by (simp add: codec_simps)
  qed
qed

lemma be_get_put64 [simp]: "be_get64 (be_put64 w) = w"
  by (simp add: be_get64_def be_put64_def)

lemma be_put_get64 [simp]: "length bs = 8 \<Longrightarrow> be_put64 (be_get64 bs) = bs"
  by (simp add: be_get64_def be_put64_def)

section \<open>Lists\<close>

lemma map2_nth_eqI:
  assumes "length r = length xs" and "length ys = length xs"
    and "\<And>i. i < length xs \<Longrightarrow> r ! i = f (xs ! i) (ys ! i)"
  shows "r = map2 f xs ys"
  using assms by (intro nth_equalityI) auto

lemma length_fold_update [simp]: "length (fold (\<lambda>i s. s[f i s := g i s]) is xs) = length xs"
  by (induction "is" arbitrary: xs) auto

lemma nth_fold_update_upt:
  assumes "n \<le> length w" and "k < length w"
  shows "fold (\<lambda>i w. w[i := F i (w ! i)]) [0..<n] w ! k = (if k < n then F k (w ! k) else w ! k)"
  using assms by (induction n arbitrary: k) (auto simp: nth_list_update less_Suc_eq)

lemma nth_fold_update_base:
  assumes "base + n \<le> length w" and "k < length w"
  shows "fold (\<lambda>i w. w[base + i := F i (w ! (base + i))]) [0..<n] w ! k =
    (if base \<le> k \<and> k < base + n then F (k - base) (w ! k) else w ! k)"
  using assms by (induction n arbitrary: k) (auto simp: nth_list_update)

lemma length_concat_uniform: "(\<And>x. x \<in> set xss \<Longrightarrow> length x = b) \<Longrightarrow> length (concat xss) = b * length xss"
  by (induction xss) auto

lemma nth_concat_uniform:
  assumes "\<And>x. x \<in> set xss \<Longrightarrow> length x = b" and "0 < b" and "k < b * length xss"
  shows "concat xss ! k = xss ! (k div b) ! (k mod b)"
  using assms
proof (induction xss arbitrary: k)
  case (Cons x xss)
  then have x: "length x = b" by simp
  show ?case
  proof (cases "k < b")
    case True
    then show ?thesis by (simp add: x nth_append)
  next
    case False
    then have "k div b = Suc ((k - b) div b)" and "k mod b = (k - b) mod b"
      using Cons.prems(2) by (simp_all add: le_div_geq le_mod_geq)
    moreover have "concat xss ! (k - b) = xss ! ((k - b) div b) ! ((k - b) mod b)"
      using Cons.prems False by (intro Cons.IH) auto
    ultimately show ?thesis using False by (simp add: x nth_append)
  qed
qed simp

lemma mset_eq_upt_distinct:
  assumes "mset ord = mset [0..<n]"
  shows "distinct ord" and "set ord = {0..<n}"
  using assms by (metis distinct_upt mset_eq_imp_distinct_iff)
    (metis assms mset_eq_setD set_upt)

section \<open>Disjoint blocks\<close>

text \<open>
  Many loops of the code, and all its worker pools, rewrite disjoint ranges of one slice. The
  range of index \<open>i\<close> starts at \<open>lo i\<close>, has \<open>sz i\<close> elements, and its new contents
  \<open>H i\<close> depend on its own old contents only. The order in which the ranges are processed is
  then immaterial, which is what makes the goroutines of the worker pools independent.
\<close>

definition write_block :: "(nat \<Rightarrow> nat) \<Rightarrow> (nat \<Rightarrow> nat) \<Rightarrow> (nat \<Rightarrow> 'a list \<Rightarrow> 'a list) \<Rightarrow> nat \<Rightarrow> 'a list \<Rightarrow> 'a list"
  where "write_block lo sz H i xs = write_at xs (lo i) (H i (sub_list xs (lo i) (sz i)))"

definition blocks_ok :: "(nat \<Rightarrow> nat) \<Rightarrow> (nat \<Rightarrow> nat) \<Rightarrow> (nat \<Rightarrow> 'a list \<Rightarrow> 'a list) \<Rightarrow> nat list \<Rightarrow> nat \<Rightarrow> bool"
  where "blocks_ok lo sz H ord n \<longleftrightarrow>
     distinct ord \<and>
     (\<forall>i\<in>set ord. lo i + sz i \<le> n \<and> (\<forall>ys. length ys = sz i \<longrightarrow> length (H i ys) = sz i)) \<and>
     (\<forall>i\<in>set ord. \<forall>j\<in>set ord. i \<noteq> j \<longrightarrow> lo i + sz i \<le> lo j \<or> lo j + sz j \<le> lo i)"

lemma block_length:
  assumes "blocks_ok lo sz H ord (length xs)" and "i \<in> set ord"
  shows "lo i + sz i \<le> length xs" and "length (H i (sub_list xs (lo i) (sz i))) = sz i"
proof -
  show "lo i + sz i \<le> length xs" using assms by (simp add: blocks_ok_def)
  then have "length (sub_list xs (lo i) (sz i)) = sz i" by simp
  then show "length (H i (sub_list xs (lo i) (sz i))) = sz i"
    using assms by (simp add: blocks_ok_def)
qed

lemma length_write_block:
  assumes "blocks_ok lo sz H ord (length xs)" and "i \<in> set ord"
  shows "length (write_block lo sz H i xs) = length xs"
  using block_length [OF assms] by (simp add: write_block_def)

lemma nth_write_block:
  assumes "blocks_ok lo sz H ord (length xs)" and "i \<in> set ord" and "k < length xs"
  shows "write_block lo sz H i xs ! k =
    (if lo i \<le> k \<and> k < lo i + sz i then H i (sub_list xs (lo i) (sz i)) ! (k - lo i) else xs ! k)"
  using block_length [OF assms(1,2)] assms(3) by (simp add: write_block_def nth_write_at)

lemma sub_list_eqI:
  assumes "length xs = length ys" and "\<And>k. lo \<le> k \<Longrightarrow> k < lo + n \<Longrightarrow> k < length xs \<Longrightarrow> xs ! k = ys ! k"
  shows "sub_list xs lo n = sub_list ys lo n"
  using assms by (intro nth_equalityI) auto

lemma sub_list_write_other:
  assumes "blocks_ok lo sz H ord (length xs)" and "i \<in> set ord" and "j \<in> set ord" and "i \<noteq> j"
  shows "sub_list (write_block lo sz H i xs) (lo j) (sz j) = sub_list xs (lo j) (sz j)"
proof (rule sub_list_eqI)
  show "length (write_block lo sz H i xs) = length xs"
    using assms(1,2) by (rule length_write_block)
  fix k assume k: "lo j \<le> k" "k < lo j + sz j" "k < length (write_block lo sz H i xs)"
  from assms have "lo i + sz i \<le> lo j \<or> lo j + sz j \<le> lo i"
    by (simp add: blocks_ok_def)
  with k show "write_block lo sz H i xs ! k = xs ! k"
    using assms(1,2) by (auto simp: nth_write_block length_write_block)
qed

lemma blocks_ok_Cons: "blocks_ok lo sz H (i # ord) n \<Longrightarrow> blocks_ok lo sz H ord n"
  by (simp add: blocks_ok_def)

lemma length_fold_blocks:
  "blocks_ok lo sz H ord (length xs) \<Longrightarrow> length (fold (write_block lo sz H) ord xs) = length xs"
proof (induction ord arbitrary: xs)
  case (Cons i ord)
  then show ?case
    by (simp add: length_write_block [OF Cons.prems] blocks_ok_Cons [OF Cons.prems])
qed simp

lemma nth_fold_blocks_out:
  assumes "blocks_ok lo sz H ord (length xs)" and "k < length xs"
    and "\<And>i. i \<in> set ord \<Longrightarrow> \<not> (lo i \<le> k \<and> k < lo i + sz i)"
  shows "fold (write_block lo sz H) ord xs ! k = xs ! k"
  using assms
proof (induction ord arbitrary: xs)
  case (Cons j ord)
  let ?xs = "write_block lo sz H j xs"
  have len: "length ?xs = length xs" by (rule length_write_block [OF Cons.prems(1)]) simp
  have "?xs ! k = xs ! k"
    using Cons.prems(3) [of j] by (subst nth_write_block [OF Cons.prems(1)]) (auto simp: Cons.prems(2))
  moreover have "fold (write_block lo sz H) ord ?xs ! k = ?xs ! k"
    using Cons.prems blocks_ok_Cons [OF Cons.prems(1)] by (intro Cons.IH) (auto simp: len)
  ultimately show ?case by simp
qed simp

lemma nth_fold_blocks_in:
  assumes "blocks_ok lo sz H ord (length xs)" and "i \<in> set ord" and "lo i \<le> k" and "k < lo i + sz i"
  shows "fold (write_block lo sz H) ord xs ! k = H i (sub_list xs (lo i) (sz i)) ! (k - lo i)"
  using assms
proof (induction ord arbitrary: xs)
  case (Cons j ord)
  let ?xs = "write_block lo sz H j xs"
  have len: "length ?xs = length xs" by (rule length_write_block [OF Cons.prems(1)]) simp
  have ok: "blocks_ok lo sz H ord (length ?xs)"
    using blocks_ok_Cons [OF Cons.prems(1)] by (simp add: len)
  have klen: "k < length xs" using Cons.prems unfolding blocks_ok_def by fastforce
  show ?case
  proof (cases "i \<in> set ord")
    case True
    with Cons.prems(1) have "i \<noteq> j" by (auto simp: blocks_ok_def)
    then have "sub_list ?xs (lo i) (sz i) = sub_list xs (lo i) (sz i)"
      using Cons.prems by (intro sub_list_write_other [where ord = "j # ord"]) auto
    with Cons.IH [OF ok True] Cons.prems show ?thesis by simp
  next
    case False
    with Cons.prems have ij: "i = j" by simp
    have "\<not> (lo m \<le> k \<and> k < lo m + sz m)" if "m \<in> set ord" for m
    proof -
      have "m \<noteq> i" using that False by auto
      with Cons.prems(1) that ij have "lo m + sz m \<le> lo i \<or> lo i + sz i \<le> lo m"
        unfolding blocks_ok_def by auto
      with Cons.prems(3,4) show ?thesis by linarith
    qed
    then have "fold (write_block lo sz H) ord ?xs ! k = ?xs ! k"
      by (intro nth_fold_blocks_out [OF ok]) (auto simp: len klen)
    also have "\<dots> = H i (sub_list xs (lo i) (sz i)) ! (k - lo i)"
      using Cons.prems(3,4) by (subst nth_write_block [OF Cons.prems(1)]) (auto simp: klen ij)
    finally show ?thesis by simp
  qed
qed simp

text \<open>Blocks of one size, processed in index order: the shape of a plain loop.\<close>

lemma blocks_ok_uniform:
  assumes "n * b \<le> len" and "\<And>i ys. i < n \<Longrightarrow> length ys = b \<Longrightarrow> length (H i ys) = b"
  shows "blocks_ok (\<lambda>i. b * i) (\<lambda>_. b) H [0..<n] len"
proof -
  have "b * i + b \<le> len" if "i < n" for i
  proof -
    have "b * i + b = b * Suc i" by simp
    also have "\<dots> \<le> b * n" using that by (intro mult_le_mono2) simp
    finally show ?thesis using assms(1) by (simp add: mult.commute)
  qed
  moreover have "b * i + b \<le> b * j" if "i < j" for i j :: nat
    using mult_le_mono2 [of "Suc i" j b] that by simp
  ultimately show ?thesis
    using assms(2) by (auto simp: blocks_ok_def) (metis linorder_neqE_nat)
qed

lemma nth_fold_uniform:
  assumes "n * b \<le> length xs" and "0 < b" and "k < length xs"
    and "\<And>i ys. i < n \<Longrightarrow> length ys = b \<Longrightarrow> length (H i ys) = b"
  shows "fold (write_block (\<lambda>i. b * i) (\<lambda>_. b) H) [0..<n] xs ! k =
    (if k div b < n then H (k div b) (sub_list xs (b * (k div b)) b) ! (k mod b) else xs ! k)"
proof -
  have ok: "blocks_ok (\<lambda>i. b * i) (\<lambda>_. b) H [0..<n] (length xs)"
    using assms(1,4) by (rule blocks_ok_uniform)
  show ?thesis
  proof (cases "k div b < n")
    case True
    have "b * (k div b) \<le> k" "k < b * (k div b) + b" "k - b * (k div b) = k mod b"
      using dividend_less_times_div [OF \<open>0 < b\<close>, of k]
      by (auto simp: minus_mult_div_eq_mod add.commute)
    with True show ?thesis
      using nth_fold_blocks_in [OF ok, of "k div b" k] by simp
  next
    case False
    have "\<not> (b * i \<le> k \<and> k < b * i + b)" if "i < n" for i
    proof
      assume "b * i \<le> k \<and> k < b * i + b"
      then have "k div b = i" using \<open>0 < b\<close> by (intro div_nat_eqI) (auto simp: mult.commute)
      with that False show False by simp
    qed
    with False show ?thesis
      using nth_fold_blocks_out [OF ok assms(3)] by simp
  qed
qed

lemma mset_concat_update:
  "k < length bs \<Longrightarrow> mset (concat (bs[k := xs])) + mset (bs ! k) = mset (concat bs) + mset xs"
proof (induction bs arbitrary: k)
  case (Cons b bs)
  then show ?case by (cases k) (auto simp: union_commute union_assoc union_lcomm)
qed simp

end
