(* ===== verification/Conn.thy ===== *)
theory Conn
  imports Match_Prelude
begin

text \<open>
  The two directions of a connection, as the protocols use them: an \<open>io.Writer\<close> that may fail and an
  \<open>io.Reader\<close> that delivers its bytes in pieces, with \<open>io.ReadFull\<close> on top of it.
\<close>

section \<open>The connection\<close>

text \<open>
  An \<open>io.Writer\<close> keeps what was written; it fails once the number \<open>budget\<close> of calls it still
  accepts is used up. An \<open>io.Reader\<close> is the list of the pieces in which the bytes arrive: one call
  returns at most one piece, and the end of the list is the end of the stream.
\<close>

record io_writer =
  wrote :: bytes
  budget :: nat

definition io_write :: "bytes \<Rightarrow> io_writer \<Rightarrow> error option \<times> io_writer" where
  "io_write bs w =
     (if budget w = 0 then (Some IOError, w) else (None, \<lparr>wrote = wrote w @ bs, budget = budget w - 1\<rparr>))"

type_synonym io_reader = "bytes list"

fun io_read :: "nat \<Rightarrow> io_reader \<Rightarrow> bytes result \<times> io_reader" where
  "io_read n [] = (Inl EOF, [])"
| "io_read n (c # cs) = (Inr (take n c), if length c \<le> n then cs else drop n c # cs)"

lemma io_read_decreases:
  "io_read n r = (Inr bs, r') \<Longrightarrow> 0 < n \<Longrightarrow> length r' + length (concat r') < length r + length (concat r)"
  by (cases r) (auto split: if_splits)

text \<open>\<open>io.ReadFull\<close>, which \<open>binary.Read\<close> uses, reads until it has \<open>n\<close> bytes.\<close>

function read_full :: "nat \<Rightarrow> bytes \<Rightarrow> io_reader \<Rightarrow> bytes result \<times> io_reader" where
  "read_full n got r =
     (if n \<le> length got then (Inr got, r)
      else case io_read (n - length got) r of
        (Inl e, r') \<Rightarrow> (Inl (if got = [] then e else ErrUnexpectedEOF), r')
      | (Inr bs, r') \<Rightarrow> read_full n (got @ bs) r')"
  by auto
termination
  by (relation "measure (\<lambda>(n, got, r). length r + length (concat r))")
    (auto dest!: sym [of "(Inr _, _)"] dest: io_read_decreases)

declare read_full.simps [simp del]

lemma read_full_spec:
  "length got \<le> n \<Longrightarrow> n \<le> length got + length (concat r) \<Longrightarrow>
   \<exists>r'. read_full n got r = (Inr (got @ take (n - length got) (concat r)), r') \<and> concat r' = drop (n - length got) (concat r)"
proof (induction r arbitrary: got)
  case Nil
  then show ?case by (subst read_full.simps) simp
next
  case (Cons c cs)
  let ?m = "n - length got"
  have step: "read_full n got (c # cs) = read_full n (got @ take ?m c) (if length c \<le> ?m then cs else drop ?m c # cs)"
    if "length got < n" using that by (subst read_full.simps) simp
  consider "length got = n" | "length got < n" "length c \<le> ?m" | "length got < n" "?m < length c"
    using Cons.prems(1) by linarith
  then show ?case
  proof cases
    case 1
    then show ?thesis by (subst read_full.simps) simp
  next
    case 2
    with Cons.IH [of "got @ c"] Cons.prems step show ?thesis by auto
  next
    case 3
    then have "read_full n (got @ take ?m c) (drop ?m c # cs) = (Inr (got @ take ?m c), drop ?m c # cs)"
      by (subst read_full.simps) simp
    with 3 step show ?thesis by simp
  qed
qed

section \<open>Reads and writes as results\<close>

definition ReadFull :: "nat \<Rightarrow> io_reader \<Rightarrow> (bytes \<times> io_reader) result" where
  "ReadFull n r = (case read_full n [] r of (Inl e, _) \<Rightarrow> Inl e | (Inr bs, r) \<Rightarrow> Inr (bs, r))"

definition write_conn :: "bytes \<Rightarrow> io_writer \<Rightarrow> io_writer result" where
  "write_conn bs w = (case io_write bs w of (Some e, _) \<Rightarrow> Inl e | (None, w) \<Rightarrow> Inr w)"

text \<open>\<open>fmt.Errorf(prefix + ": %w", err)\<close> around a failing call.\<close>

definition wrap_err :: "string \<Rightarrow> 'a result \<Rightarrow> 'a result" where
  "wrap_err p m = (case m of Inl e \<Rightarrow> Inl (if is_panic e then e else Wrapped p e) | Inr x \<Rightarrow> Inr x)"

lemma wrap_err_simps [simp]: "wrap_err p (Inr x) = Inr x"
  by (simp add: wrap_err_def)

lemma ReadFull_spec:
  assumes "concat r = bs @ rest" and "length bs = n"
  shows "\<exists>r'. ReadFull n r = Inr (bs, r') \<and> concat r' = rest"
proof -
  have "n \<le> length [] + length (concat r)" using assms by simp
  with read_full_spec [of "[]" n r] assms show ?thesis by (auto simp: ReadFull_def)
qed

text \<open>A stream that ends too early is an error.\<close>

lemma read_full_short: "length got + length (concat r) < n \<Longrightarrow> \<exists>e r'. read_full n got r = (Inl e, r')"
proof (induction r arbitrary: got)
  case Nil
  then show ?case by (subst read_full.simps) simp
next
  case (Cons c cs)
  then have "length c \<le> n - length got" "length got < n" by simp_all
  then have "read_full n got (c # cs) = read_full n (got @ c) cs" by (subst read_full.simps) simp
  with Cons show ?case by simp
qed

lemma ReadFull_short: "length (concat r) < n \<Longrightarrow> \<exists>e. ReadFull n r = Inl e"
  using read_full_short [of "[]" r n] by (auto simp: ReadFull_def)

lemma write_conn_ok: "0 < budget w \<Longrightarrow> write_conn bs w = Inr \<lparr>wrote = wrote w @ bs, budget = budget w - 1\<rparr>"
  by (simp add: write_conn_def io_write_def)

section \<open>Integers on the connection\<close>

text \<open>\<open>binary.Read\<close> of an int64 in big endian; \<open>be_put64\<close> gives the bytes of \<open>binary.Write\<close>.\<close>

definition read_int64 :: "io_reader \<Rightarrow> (u64 \<times> io_reader) result" where
  "read_int64 r = bind_res (ReadFull 8 r) (\<lambda>(bs, r). Inr (be_get64 bs, r))"

lemma read_int64_put:
  assumes "concat r = be_put64 x @ rest"
  shows "\<exists>r'. read_int64 r = Inr (x, r') \<and> concat r' = rest"
  using ReadFull_spec [OF assms, of 8] by (auto simp: read_int64_def be_get_put64)

lemma int64_size: "n < 2 ^ 63 \<Longrightarrow> unat (of_nat n :: u64) = n \<and> nat (sint (of_nat n :: u64)) = n"
proof -
  assume n: "n < 2 ^ 63"
  then have "unat (of_nat n :: u64) = n" by (simp add: unat_of_nat take_bit_nat_eq_self)
  moreover have "sint (of_nat n :: u64) = int n"
    using n by (simp add: signed_of_nat signed_take_bit_int_eq_self)
  ultimately show ?thesis by simp
qed

section \<open>Buffered writers\<close>

text \<open>
  A \<open>bufio.Writer\<close> of size \<open>sz\<close>: what does not fit fills up the buffer, which is written then; a write
  larger than an empty buffer goes directly to the connection. The
  callers of \<open>Flush\<close> drop its error.
\<close>

type_synonym buf_writer = "bytes \<times> io_writer"

definition buf_write :: "nat \<Rightarrow> bytes \<Rightarrow> buf_writer \<Rightarrow> buf_writer result" where
  "buf_write sz p = (\<lambda>(buf, w).
     let direct = (\<lambda>p w. bind_res (write_conn p w) (\<lambda>w. Inr ([], w))); avail = sz - length buf in
     if length p \<le> avail then Inr (buf @ p, w)
     else if buf = [] then direct p w
     else bind_res (write_conn (buf @ take avail p) w) (\<lambda>w.
       if length (drop avail p) \<le> sz then Inr (drop avail p, w) else direct (drop avail p) w))"

definition Flush :: "buf_writer \<Rightarrow> io_writer" where
  "Flush = (\<lambda>(buf, w). if buf = [] then w else snd (io_write buf w))"

lemma buf_write_spec:
  assumes "0 < budget w" and "length p \<le> sz" and "length buf \<le> sz"
  shows "\<exists>buf' w'. buf_write sz p (buf, w) = Inr (buf', w') \<and> length buf' \<le> sz \<and> wrote w' @ buf' = wrote w @ buf @ p \<and>
    budget w \<le> budget w' + 1"
  using assms by (auto simp: buf_write_def Let_def write_conn_ok)

lemma Flush_spec: "0 < budget w \<Longrightarrow> wrote (Flush (buf, w)) = wrote w @ buf"
  by (simp add: Flush_def io_write_def)

lemma buf_write_all:
  assumes "length ks \<le> budget w" and "\<And>k. k \<in> set ks \<Longrightarrow> length (f k) \<le> sz" and "length buf \<le> sz"
  shows "\<exists>buf' w'. fold_res (\<lambda>k bw. wrap_err p (buf_write sz (f k) bw)) ks (buf, w) = Inr (buf', w') \<and>
    wrote w' @ buf' = wrote w @ buf @ concat (map f ks) \<and> budget w \<le> budget w' + length ks"
  using assms
proof (induction ks arbitrary: buf w)
  case (Cons k ks)
  then obtain buf1 w1 where w1: "buf_write sz (f k) (buf, w) = Inr (buf1, w1)" "length buf1 \<le> sz"
    "wrote w1 @ buf1 = wrote w @ buf @ f k" "budget w \<le> budget w1 + 1"
    using buf_write_spec [of w "f k" sz buf] by auto
  moreover from Cons.prems(1) w1(4) have "length ks \<le> budget w1" by simp
  ultimately obtain buf2 w2 where
    "fold_res (\<lambda>k bw. wrap_err p (buf_write sz (f k) bw)) ks (buf1, w1) = Inr (buf2, w2)"
    "wrote w2 @ buf2 = wrote w1 @ buf1 @ concat (map f ks)" "budget w1 \<le> budget w2 + length ks"
    using Cons.IH [of w1 buf1] Cons.prems(2) by auto
  with w1 show ?case by (intro exI [of _ buf2] exI [of _ w2]) (auto simp flip: append_assoc)
qed simp

end
