(* ===== verification/Permutations.thy ===== *)
theory Permutations
  imports Match_Prelude
begin

text \<open>
  The permutations of \<open>internal/permutations\<close>: Kensler's hashed permutation, the table of random
  swaps and the identity. The interface \<open>Permutations\<close> is the locale \<open>permutation\<close>; it is
  interpreted on all three implementations.
\<close>

unbundle bit_operations_syntax

section \<open>Random integers\<close>

text \<open>
  \<open>crypto/rand.Int(rand.Reader, max)\<close> panics when \<open>max\<close> is not positive and otherwise returns a
  value in \<open>[0, max)\<close> or the error of the reader. The draw \<open>src\<close> stands for what the reader
  delivered.
\<close>

definition rand_Int :: "nat result \<Rightarrow> int \<Rightarrow> int result" where
  "rand_Int src m = (if m \<le> 0 then Inl RandIntBadMax else bind_res src (\<lambda>x. Inr (int x mod m)))"

section \<open>Kensler\<close>

record kensler =
  ken_l :: u32
  ken_p :: u32

definition NewKensler :: "nat result \<Rightarrow> int \<Rightarrow> kensler result" where
  "NewKensler src l =
     (if l > 4294967295 then Inl ErrKenslerTooLarge
      else let l = max l 2 in
        bind_res (rand_Int src (l - 1)) (\<lambda>i. Inr \<lparr>ken_l = word_of_int l, ken_p = word_of_int i\<rparr>))"

text \<open>The value returned beside an error.\<close>

definition zero_kensler :: kensler where
  "zero_kensler = \<lparr>ken_l = 0, ken_p = 0\<rparr>"

definition kensler_mask :: "u32 \<Rightarrow> u32" where
  "kensler_mask l =
     (let w = l - 1;
          w = w OR drop_bit 1 w;
          w = w OR drop_bit 2 w;
          w = w OR drop_bit 4 w;
          w = w OR drop_bit 8 w
      in w OR drop_bit 16 w)"

definition kensler_round :: "u32 \<Rightarrow> u32 \<Rightarrow> u32 \<Rightarrow> u32" where
  "kensler_round p w i =
     (let i = i XOR p;
          i = i * 0xe170893d;
          i = i XOR drop_bit 16 p;
          i = i XOR drop_bit 4 (i AND w);
          i = i XOR drop_bit 8 p;
          i = i * 0x0929eb3f;
          i = i XOR drop_bit 23 p;
          i = i XOR drop_bit 1 (i AND w);
          i = i * (1 OR drop_bit 27 p);
          i = i * 0x6935fa69;
          i = i XOR drop_bit 11 (i AND w);
          i = i * 0x74dcb303;
          i = i XOR drop_bit 2 (i AND w);
          i = i * 0x9e501cc3;
          i = i XOR drop_bit 2 (i AND w);
          i = i * 0xc860a3df;
          i = i AND w
      in i XOR drop_bit 5 i)"

text \<open>The loop has no bound of its own; not returning is \<open>None\<close>.\<close>

partial_function (option) kensler_loop :: "u32 \<Rightarrow> u32 \<Rightarrow> u32 \<Rightarrow> u32 \<Rightarrow> u32 option" where
  "kensler_loop l p w i =
     (let i = kensler_round p w i in if i < l then Some i else kensler_loop l p w i)"

declare kensler_loop.simps [code]

definition Shuffle_kensler :: "kensler \<Rightarrow> int \<Rightarrow> int option" where
  "Shuffle_kensler k n =
     map_option (\<lambda>i. uint ((i + ken_p k) mod ken_l k))
       (kensler_loop (ken_l k) (ken_p k) (kensler_mask (ken_l k)) (word_of_int n))"

section \<open>Naive\<close>

record naive =
  naive_p :: "int list"

text \<open>Draw \<open>i\<close> of the source is the one of iteration \<open>i\<close>; \<open>make\<close> panics on a negative length.\<close>

definition naive_step :: "(nat \<Rightarrow> nat result) \<Rightarrow> int \<Rightarrow> nat \<Rightarrow> int list \<Rightarrow> int list result" where
  "naive_step src n i p =
     bind_res (rand_Int (src i) (n - 1)) (\<lambda>j.
       if j \<noteq> int i
       then bind_res (go_nth p i) (\<lambda>pi.
            bind_res (go_nth p (nat j)) (\<lambda>pj.
            bind_res (go_set p (nat j) pi) (\<lambda>p. go_set p i pj)))
       else Inr p)"

definition NewNaive :: "(nat \<Rightarrow> nat result) \<Rightarrow> int \<Rightarrow> naive result" where
  "NewNaive src n =
     (if n < 0 then Inl SliceOutOfRange
      else bind_res (fold_res (naive_step src n) [0..<nat n] (map int [0..<nat n])) (\<lambda>p. Inr \<lparr>naive_p = p\<rparr>))"

definition Shuffle_naive :: "naive \<Rightarrow> int \<Rightarrow> int result" where
  "Shuffle_naive k n = (if n < 0 then Inl IndexOutOfRange else go_nth (naive_p k) (nat n))"

section \<open>Nil\<close>

definition Shuffle_null :: "int \<Rightarrow> int \<Rightarrow> int" where
  "Shuffle_null k n = n"

section \<open>The interface\<close>

text \<open>
  What the shufflers of the protocols rely on. \<open>valid s n\<close> says that \<open>s\<close> was made for \<open>n\<close>
  elements; \<open>shuffle\<close> is \<open>None\<close> where the method does not return normally.
\<close>

locale permutation =
  fixes valid :: "'s \<Rightarrow> nat \<Rightarrow> bool"
    and shuffle :: "'s \<Rightarrow> int \<Rightarrow> int option"
  assumes shuffle_ex: "valid s n \<Longrightarrow> i < n \<Longrightarrow> \<exists>j < n. shuffle s (int i) = Some (int j)"
    and shuffle_inj: "valid s n \<Longrightarrow> i < n \<Longrightarrow> j < n \<Longrightarrow> shuffle s (int i) = shuffle s (int j) \<Longrightarrow> i = j"
begin

definition pos :: "'s \<Rightarrow> nat \<Rightarrow> nat" where
  "pos s i = nat (the (shuffle s (int i)))"

lemma shuffle_pos: "valid s n \<Longrightarrow> i < n \<Longrightarrow> shuffle s (int i) = Some (int (pos s i))"
  using shuffle_ex [of s n i] by (auto simp: pos_def)

lemma pos_less: "valid s n \<Longrightarrow> i < n \<Longrightarrow> pos s i < n"
  using shuffle_ex [of s n i] by (auto simp: pos_def)

lemma inj_on_pos: "valid s n \<Longrightarrow> inj_on (pos s) {..<n}"
  using shuffle_inj shuffle_pos by (auto intro!: inj_onI)

lemma bij_betw_pos: "valid s n \<Longrightarrow> bij_betw (pos s) {..<n} {..<n}"
  using inj_on_pos [of s n] pos_less [of s n] endo_inj_surj [of "{..<n}" "pos s"]
  by (simp add: bij_betw_def image_subset_iff)

lemma mset_map_pos:
  assumes "valid s n"
  shows "mset (map (pos s) [0..<n]) = mset [0..<n]"
proof -
  have "image_mset (pos s) (mset_set {..<n}) = mset_set {..<n}"
    using bij_betw_pos [OF assms] by (simp add: bij_betw_def image_mset_mset_set)
  then show ?thesis by (simp add: mset_upt atLeast0LessThan)
qed

end

section \<open>Kensler permutes\<close>

text \<open>
  Every step of the round is reversible on the low \<open>k\<close> bits: whether two values agree there is
  neither created nor lost.
\<close>

definition low_inj :: "nat \<Rightarrow> (u32 \<Rightarrow> u32) \<Rightarrow> bool" where
  "low_inj k f \<longleftrightarrow> (\<forall>x y. take_bit k (f x) = take_bit k (f y) \<longleftrightarrow> take_bit k x = take_bit k y)"

lemma low_inj_comp: "low_inj k f \<Longrightarrow> low_inj k g \<Longrightarrow> low_inj k (\<lambda>x. g (f x))"
  by (simp add: low_inj_def)

lemma take_bit_eq_iff_bits: "take_bit k (x :: u32) = take_bit k y \<longleftrightarrow> (\<forall>j<k. bit x j = bit y j)"
proof -
  have "bit z j \<Longrightarrow> j < 32" for z :: u32 and j using bit_imp_le_length [of z j] by simp
  then show ?thesis by (auto simp: bit_eq_iff bit_simps)
qed

lemma low_inj_xor: "low_inj k (\<lambda>x. x XOR c)"
  unfolding low_inj_def take_bit_eq_iff_bits by (auto simp: bit_xor_iff)

lemma take_bit_eq_iff_dvd: "take_bit k (x :: u32) = take_bit k y \<longleftrightarrow> 2 ^ k dvd uint x - uint y"
proof -
  have "take_bit k x = take_bit k y \<longleftrightarrow> uint (take_bit k x) = uint (take_bit k y)"
    by (simp only: word_uint_eq_iff)
  moreover have "uint (take_bit k z) = uint z mod 2 ^ k" for z :: u32
    by (subst unsigned_take_bit_eq) (rule take_bit_eq_mod)
  ultimately show ?thesis by (simp only: mod_eq_dvd_iff)
qed

lemma low_inj_mult:
  assumes "odd (uint c)" and "k \<le> 32"
  shows "low_inj k (\<lambda>x. x * c)"
proof -
  have co: "coprime ((2 :: int) ^ k) (uint c)" using assms by (simp add: coprime_power_left_iff)
  have "2 ^ k dvd uint (x * c) - uint (y * c) \<longleftrightarrow> 2 ^ k dvd uint x - uint y" for x y :: u32
  proof -
    have "(2 :: int) ^ k dvd 2 ^ 32" using assms(2) by (rule le_imp_power_dvd)
    then have "2 ^ k dvd uint (x * c) - uint (y * c) \<longleftrightarrow> 2 ^ k dvd uint x * uint c - uint y * uint c"
      by (simp add: uint_word_ariths mod_mod_cancel flip: mod_eq_dvd_iff)
    also have "\<dots> \<longleftrightarrow> 2 ^ k dvd (uint x - uint y) * uint c" by (simp add: left_diff_distrib)
    finally show ?thesis using co by (simp add: coprime_dvd_mult_left_iff)
  qed
  then show ?thesis by (simp add: low_inj_def take_bit_eq_iff_dvd)
qed

lemma low_inj_xorshift:
  assumes "0 < s" and "k \<le> 32"
  shows "low_inj k (\<lambda>x. x XOR drop_bit s (x AND mask k))"
proof -
  have b: "bit (x XOR drop_bit s (x AND mask k)) j \<longleftrightarrow> (bit x j \<noteq> (j + s < k \<and> bit x (j + s)))" if "j < k" for x :: u32 and j
    using that assms by (auto simp: bit_simps add.commute)
  have "bit x j = bit y j"
    if eq: "\<forall>j<k. bit (x XOR drop_bit s (x AND mask k)) j = bit (y XOR drop_bit s (y AND mask k)) j" and "j < k"
    for x y :: u32 and j
    using \<open>j < k\<close>
  proof (induction "k - j" arbitrary: j rule: less_induct)
    case less
    then have "j + s < k \<Longrightarrow> bit x (j + s) = bit y (j + s)" using assms(1) by auto
    with eq less.prems b [OF less.prems, of x] b [OF less.prems, of y] show ?case by auto
  qed
  moreover have "\<forall>j<k. bit (x XOR drop_bit s (x AND mask k)) j = bit (y XOR drop_bit s (y AND mask k)) j"
    if "\<forall>j<k. bit x j = bit y j" for x y :: u32
    using that b [of _ x] b [of _ y] by simp
  ultimately show ?thesis unfolding low_inj_def take_bit_eq_iff_bits by blast
qed

lemma odd_or_1: "odd (uint (1 OR x :: u32))"
  unfolding bit_0 [symmetric] by (simp add: bit_uint_iff bit_or_iff bit_1_iff del: bit_0)

lemma kensler_round_take_bit:
  assumes "k \<le> 32"
  shows "\<exists>g. low_inj k g \<and> (\<forall>i. kensler_round p (mask k) i = take_bit k (g i))"
proof -
  note x = low_inj_xorshift [OF _ assms] and m = low_inj_mult [OF _ assms] and c = low_inj_comp
  let ?x = "\<lambda>s i :: u32. i XOR drop_bit s (i AND mask k)"
  have "low_inj k (\<lambda>i. ?x 4 ((i XOR p) * 0xe170893d XOR drop_bit 16 p))" (is "low_inj k ?g1")
    by (intro c [OF _ x] c [OF _ low_inj_xor] c [OF _ m] low_inj_xor) simp_all
  moreover have "low_inj k (\<lambda>i. ?x 1 ((i XOR drop_bit 8 p) * 0x0929eb3f XOR drop_bit 23 p))" (is "low_inj k ?g2")
    by (intro c [OF _ x] c [OF _ low_inj_xor] c [OF _ m] low_inj_xor) simp_all
  moreover have "low_inj k (\<lambda>i. ?x 11 (i * (1 OR drop_bit 27 p) * 0x6935fa69))" (is "low_inj k ?g3")
    by (intro c [OF _ x] c [OF m m] odd_or_1) simp_all
  moreover have "low_inj k (\<lambda>i. ?x 2 (?x 2 (i * 0x74dcb303) * 0x9e501cc3))" (is "low_inj k ?g4")
    by (intro c [OF _ x] c [OF _ m] m) simp_all
  moreover have "low_inj k (\<lambda>i. ?x 5 (i * 0xc860a3df))" (is "low_inj k ?g5")
    by (intro c [OF m x]) simp_all
  ultimately have "low_inj k (\<lambda>i. ?g5 (?g4 (?g3 (?g2 (?g1 i)))))"
    by (simp add: low_inj_def)
  moreover have "take_bit k (?x 5 y) = (y AND mask k) XOR drop_bit 5 (y AND mask k)" for y :: u32
    by (rule bit_eqI) (auto simp: bit_simps)
  then have "kensler_round p (mask k) i = take_bit k (?g5 (?g4 (?g3 (?g2 (?g1 i)))))" for i
    by (simp add: kensler_round_def Let_def)
  ultimately show ?thesis by blast
qed

text \<open>The smearing of \<open>l - 1\<close> gives the least mask that covers it.\<close>

lemma bit_smear:
  fixes w :: u32
  assumes "\<And>j. bit w j \<longleftrightarrow> (\<exists>i<n. bit v (j + i))" and "m = n"
  shows "bit (w OR drop_bit m w) j \<longleftrightarrow> (\<exists>i<2 * n. bit v (j + i))"
proof -
  have "(\<exists>i<2 * n. bit v (j + i)) \<longleftrightarrow> (\<exists>i<n. bit v (j + i)) \<or> (\<exists>i<n. bit v (m + j + i))"
  proof (intro iffI)
    assume "\<exists>i<2 * n. bit v (j + i)"
    then obtain i where i: "i < 2 * n" "bit v (j + i)" by blast
    show "(\<exists>i<n. bit v (j + i)) \<or> (\<exists>i<n. bit v (m + j + i))"
    proof (cases "i < n")
      case False
      with i assms(2) have "i - n < n \<and> bit v (m + j + (i - n))" by (simp add: ac_simps)
      then show ?thesis by blast
    qed (use i in blast)
  next
    assume "(\<exists>i<n. bit v (j + i)) \<or> (\<exists>i<n. bit v (m + j + i))"
    then show "\<exists>i<2 * n. bit v (j + i)"
    proof
      assume "\<exists>i<n. bit v (m + j + i)"
      then obtain i where "i < n" "bit v (j + (n + i))" using assms(2) by (auto simp: ac_simps)
      then show ?thesis by (intro exI [of _ "n + i"]) simp
    next
      assume "\<exists>i<n. bit v (j + i)"
      then obtain i where "i < n" "bit v (j + i)" by blast
      then show ?thesis by (intro exI [of _ i]) simp
    qed
  qed
  then show ?thesis by (simp add: bit_or_iff bit_drop_bit_eq assms(1))
qed

lemma kensler_mask_bit: "bit (kensler_mask l) j \<longleftrightarrow> (\<exists>i\<ge>j. bit (l - 1) i)"
proof -
  define w where "w = l - 1"
  define w1 where "w1 = w OR drop_bit 1 w"
  define w2 where "w2 = w1 OR drop_bit 2 w1"
  define w3 where "w3 = w2 OR drop_bit 4 w2"
  define w4 where "w4 = w3 OR drop_bit 8 w3"
  have "bit w1 j \<longleftrightarrow> (\<exists>i<2. bit w (j + i))" for j
    unfolding w1_def using bit_smear [of w 1 w 1 j] by simp
  then have "bit w2 j \<longleftrightarrow> (\<exists>i<4. bit w (j + i))" for j
    unfolding w2_def using bit_smear [of w1 2 w 2 j] by simp
  then have "bit w3 j \<longleftrightarrow> (\<exists>i<8. bit w (j + i))" for j
    unfolding w3_def using bit_smear [of w2 4 w 4 j] by simp
  then have "bit w4 j \<longleftrightarrow> (\<exists>i<16. bit w (j + i))" for j
    unfolding w4_def using bit_smear [of w3 8 w 8 j] by simp
  then have "bit (w4 OR drop_bit 16 w4) j \<longleftrightarrow> (\<exists>i<32. bit w (j + i))"
    using bit_smear [of w4 16 w 16 j] by simp
  also have "\<dots> \<longleftrightarrow> (\<exists>i\<ge>j. bit w i)"
  proof
    assume "\<exists>i\<ge>j. bit w i"
    then obtain i where i: "j \<le> i" "bit w i" by blast
    then have "i < 32" using bit_imp_le_length [of w i] by simp
    with i show "\<exists>i<32. bit w (j + i)" by (intro exI [of _ "i - j"]) auto
  qed (auto intro: le_add1)
  finally show ?thesis
    by (simp add: kensler_mask_def Let_def w_def w1_def w2_def w3_def w4_def)
qed

text \<open>Bit length of \<open>l - 1\<close>.\<close>

lemma top_bit:
  fixes w :: u32
  assumes "w \<noteq> 0"
  shows "\<exists>m<32. bit w m \<and> (\<forall>i. bit w i \<longrightarrow> i \<le> m)"
proof -
  have "\<exists>i. bit w i" using assms bit_eq_iff [of w 0] by fastforce
  then obtain i0 where i0: "bit w i0" ..
  have lt: "i < 32" if "bit w i" for i using bit_imp_le_length [OF that] by simp
  then have "{i. bit w i} \<subseteq> {..<32}" by blast
  then have fin: "finite {i. bit w i}" by (rule finite_subset) simp
  have "Max {i. bit w i} \<in> {i. bit w i}" using i0 by (intro Max_in [OF fin]) blast
  then have m: "bit w (Max {i. bit w i})" by (rule CollectD)
  have "i \<le> Max {i. bit w i}" if "bit w i" for i using that by (intro Max_ge [OF fin]) (rule CollectI)
  with m lt [OF m] show ?thesis by blast
qed

lemma uint_mask:
  assumes "k \<le> 32"
  shows "uint (mask k :: u32) = 2 ^ k - 1"
proof -
  have "uint (mask k :: u32) = take_bit k (uint (- 1 :: u32))"
    by (simp only: unsigned_take_bit_eq flip: take_bit_minus_one_eq_mask)
  also have "\<dots> = mask k"
    using assms by (simp only: unsigned_minus_1_eq_mask take_bit_of_mask min_def) simp
  finally show ?thesis by (simp only: mask_eq_exp_minus_1)
qed

lemma le_mask_iff:
  fixes w :: u32
  assumes "k \<le> 32"
  shows "w \<le> mask k \<longleftrightarrow> take_bit k w = w"
proof -
  have "take_bit k w = w \<longleftrightarrow> uint w mod 2 ^ k = uint w"
    by (subst word_uint_eq_iff, subst unsigned_take_bit_eq) (simp add: take_bit_eq_mod)
  also have "\<dots> \<longleftrightarrow> uint w < 2 ^ k" by (metis mod_pos_pos_trivial pos_mod_bound unsigned_greater_eq zero_less_numeral zero_less_power)
  finally show ?thesis by (simp add: word_le_def uint_mask [OF assms])
qed

lemma kensler_mask_eq:
  assumes "1 < l"
  obtains k where "0 < k" and "k \<le> 32" and "kensler_mask l = mask k" and "l - 1 \<le> mask k"
proof -
  define w where "w = l - 1"
  have "w \<noteq> 0" using assms by (auto simp: w_def)
  then obtain m where m: "m < 32" "bit w m" and le: "\<And>i. bit w i \<Longrightarrow> i \<le> m" using top_bit by metis
  have "kensler_mask l = mask (Suc m)"
  proof (rule bit_eqI)
    fix j assume "possible_bit TYPE(u32) j"
    then have "bit (mask (Suc m) :: u32) j \<longleftrightarrow> j \<le> m" by (simp add: bit_mask_iff less_Suc_eq_le)
    moreover have "(\<exists>i\<ge>j. bit w i) \<longleftrightarrow> j \<le> m" using le m order_trans by blast
    ultimately show "bit (kensler_mask l) j = bit (mask (Suc m) :: u32) j" by (simp only: kensler_mask_bit w_def)
  qed
  moreover have "w = take_bit (Suc m) w"
    using le by (intro bit_eqI) (auto simp: bit_take_bit_iff less_Suc_eq_le)
  then have "w \<le> mask (Suc m)" using le_mask_iff [of "Suc m" w] m(1) by simp
  ultimately show ?thesis using that [of "Suc m"] m(1) by (simp add: w_def)
qed

section \<open>Cycle walking\<close>

text \<open>
  The loop follows the cycle of a permutation of \<open>{0..w}\<close> until it meets a value below \<open>l\<close>:
  it returns for every start below \<open>l\<close>, and different starts end in different values.
\<close>

locale cycle_walk =
  fixes ok :: "'k \<Rightarrow> bool" and f :: "'k \<Rightarrow> u32 \<Rightarrow> u32" and S :: "'k \<Rightarrow> u32 \<Rightarrow> bool" and l :: "'k \<Rightarrow> u32"
  assumes closed: "ok k \<Longrightarrow> S k x \<Longrightarrow> S k (f k x)"
    and inj: "ok k \<Longrightarrow> S k x \<Longrightarrow> S k y \<Longrightarrow> f k x = f k y \<Longrightarrow> x = y"
    and below: "ok k \<Longrightarrow> x < l k \<Longrightarrow> S k x"
begin

lemma iter_closed: "ok k \<Longrightarrow> S k x \<Longrightarrow> S k ((f k ^^ n) x)"
  by (induction n) (auto intro: closed)

lemma iter_inj: "ok k \<Longrightarrow> S k x \<Longrightarrow> S k y \<Longrightarrow> (f k ^^ n) x = (f k ^^ n) y \<Longrightarrow> x = y"
proof (induction n)
  case (Suc n)
  then have "(f k ^^ n) x = (f k ^^ n) y" using inj [OF _ iter_closed iter_closed] by simp
  with Suc show ?case by simp
qed simp

lemma iter_diff: "a \<le> b \<Longrightarrow> (f k ^^ b) x = (f k ^^ a) ((f k ^^ (b - a)) x)"
  using funpow_add [of a "b - a" "f k"] by simp

lemma iter_returns:
  assumes "ok k" and "S k x"
  shows "\<exists>n>0. (f k ^^ n) x = x"
proof -
  have "\<not> inj (\<lambda>n. (f k ^^ n) x)"
    using finite_imageD [of "\<lambda>n. (f k ^^ n) x" UNIV] by auto
  then obtain a b where ab: "(f k ^^ a) x = (f k ^^ b) x" "a \<noteq> b" unfolding inj_def by blast
  then obtain a b where "(f k ^^ a) x = (f k ^^ b) x" "a < b"
    by (cases "a < b") (auto simp: linorder_neq_iff dest: sym)
  then have "(f k ^^ a) x = (f k ^^ a) ((f k ^^ (b - a)) x)" using iter_diff [of a b k x] by simp
  from iter_inj [OF assms iter_closed [OF assms] this] have "x = (f k ^^ (b - a)) x" .
  with \<open>a < b\<close> show ?thesis by (metis zero_less_diff)
qed

definition steps :: "'k \<Rightarrow> u32 \<Rightarrow> nat" where
  "steps k x = (LEAST n. 0 < n \<and> (f k ^^ n) x < l k)"

lemma steps:
  assumes "ok k" and "x < l k"
  shows "0 < steps k x" and "(f k ^^ steps k x) x < l k" and "0 < n \<Longrightarrow> n < steps k x \<Longrightarrow> \<not> (f k ^^ n) x < l k"
proof -
  obtain n where "0 < n" "(f k ^^ n) x = x" using iter_returns [OF assms(1) below [OF assms]] by blast
  then have "0 < n \<and> (f k ^^ n) x < l k" using assms by simp
  then have "0 < steps k x \<and> (f k ^^ steps k x) x < l k" unfolding steps_def by (rule LeastI)
  then show "0 < steps k x" and "(f k ^^ steps k x) x < l k" by simp_all
  show "0 < n \<Longrightarrow> n < steps k x \<Longrightarrow> \<not> (f k ^^ n) x < l k" for n
    unfolding steps_def by (drule not_less_Least) simp
qed

lemma first_return_inj_le:
  assumes "ok k" and "x < l k" and "y < l k" and "(f k ^^ steps k x) x = (f k ^^ steps k y) y"
    and le: "steps k x \<le> steps k y"
  shows "x = y"
proof -
  have "(f k ^^ steps k x) x = (f k ^^ steps k x) ((f k ^^ (steps k y - steps k x)) y)"
    using assms(4) iter_diff [OF le, of k y] by simp
  from iter_inj [OF assms(1) below [OF assms(1,2)] iter_closed [OF assms(1) below [OF assms(1,3)]] this]
  have x: "x = (f k ^^ (steps k y - steps k x)) y" .
  show ?thesis
  proof (cases "steps k x = steps k y")
    case False
    then have "0 < steps k y - steps k x" "steps k y - steps k x < steps k y" using le steps(1) assms by auto
    with steps(3) [OF assms(1,3)] x assms(2) show ?thesis by metis
  qed (use x in simp)
qed

lemma first_return_inj:
  assumes "ok k" and "x < l k" and "y < l k" and "(f k ^^ steps k x) x = (f k ^^ steps k y) y"
  shows "x = y"
  using first_return_inj_le [of k x y] first_return_inj_le [of k y x] assms by (metis nle_le)

lemma loop_returns:
  assumes loop: "\<And>i. loop i = (if f k i < l k then Some (f k i) else loop (f k i))" and x: "ok k" "x < l k"
  shows "loop x = Some ((f k ^^ steps k x) x)"
proof -
  have "loop ((f k ^^ m) x) = Some ((f k ^^ steps k x) x)" if "m < steps k x" for m
    using that
  proof (induction "steps k x - m" arbitrary: m rule: less_induct)
    case less
    have s: "loop ((f k ^^ m) x) =
        (if (f k ^^ Suc m) x < l k then Some ((f k ^^ Suc m) x) else loop ((f k ^^ Suc m) x))"
      by (subst loop) simp
    show ?case
    proof (cases "Suc m = steps k x")
      case True
      with s steps(2) [OF x] show ?thesis by simp
    next
      case False
      with less.prems have m: "Suc m < steps k x" by simp
      with steps(3) [OF x, of "Suc m"] s have "loop ((f k ^^ m) x) = loop ((f k ^^ Suc m) x)" by simp
      also have "\<dots> = Some ((f k ^^ steps k x) x)" using m by (intro less.hyps) simp_all
      finally show ?thesis .
    qed
  qed
  from this [of 0] steps(1) [OF x] show ?thesis by simp
qed

end

text \<open>The round on the values up to the mask of a size.\<close>

lemma kensler_round_mask:
  assumes "1 < l"
  shows "kensler_round p (kensler_mask l) x \<le> kensler_mask l"
    and "x \<le> kensler_mask l \<Longrightarrow> y \<le> kensler_mask l \<Longrightarrow>
      kensler_round p (kensler_mask l) x = kensler_round p (kensler_mask l) y \<Longrightarrow> x = y"
    and "x < l \<Longrightarrow> x \<le> kensler_mask l"
proof -
  obtain n where n: "n \<le> 32" "kensler_mask l = mask n" "l - 1 \<le> mask n" using assms by (rule kensler_mask_eq)
  from kensler_round_take_bit [OF n(1), of p]
  obtain g where g: "low_inj n g" "\<And>i. kensler_round p (mask n) i = take_bit n (g i)" by blast
  show "kensler_round p (kensler_mask l) x \<le> kensler_mask l"
    by (simp add: n(2) g(2) le_mask_iff [OF n(1)])
  show "x = y" if "x \<le> kensler_mask l" "y \<le> kensler_mask l"
    "kensler_round p (kensler_mask l) x = kensler_round p (kensler_mask l) y"
    using that g(1) by (simp add: n(2) g(2) low_inj_def le_mask_iff [OF n(1)])
  show "x \<le> kensler_mask l" if "x < l"
  proof -
    have "uint (l - 1) = uint l - 1" using assms by (subst uint_minus_simple_alt [THEN iffD1]) (auto simp: word_le_def word_less_def)
    then have "x \<le> l - 1" using that by (simp add: word_le_def word_less_def)
    with n show ?thesis by simp
  qed
qed

interpretation kensler_walk: cycle_walk "\<lambda>k. 1 < ken_l k" "\<lambda>k. kensler_round (ken_p k) (kensler_mask (ken_l k))"
    "\<lambda>k x. x \<le> kensler_mask (ken_l k)" ken_l
  by unfold_locales (blast intro: kensler_round_mask)+

definition kensler_first :: "kensler \<Rightarrow> u32 \<Rightarrow> u32" where
  "kensler_first k x = (kensler_round (ken_p k) (kensler_mask (ken_l k)) ^^ kensler_walk.steps k x) x"

lemma kensler_loop_first:
  assumes "1 < ken_l k" and "x < ken_l k"
  shows "kensler_loop (ken_l k) (ken_p k) (kensler_mask (ken_l k)) x = Some (kensler_first k x)"
  unfolding kensler_first_def
  by (rule kensler_walk.loop_returns [OF _ assms]) (subst kensler_loop.simps, simp add: Let_def)

lemma kensler_first_bij:
  assumes "1 < ken_l k"
  shows "bij_betw (kensler_first k) {x. x < ken_l k} {x. x < ken_l k}"
proof -
  have "inj_on (kensler_first k) {x. x < ken_l k}"
    using kensler_walk.first_return_inj [OF assms] by (auto simp: kensler_first_def intro!: inj_onI)
  moreover have "kensler_first k ` {x. x < ken_l k} \<subseteq> {x. x < ken_l k}"
    using kensler_walk.steps(2) [OF assms] by (auto simp: kensler_first_def)
  ultimately show ?thesis by (simp add: bij_betw_def endo_inj_surj)
qed

lemma Shuffle_kensler_eq:
  assumes "1 < ken_l k" and "0 \<le> n" and "n < uint (ken_l k)"
  shows "Shuffle_kensler k n = Some (uint ((kensler_first k (word_of_int n) + ken_p k) mod ken_l k))"
proof -
  have "n < 2 ^ 32" using assms(3) unsigned_less [of "ken_l k", where ?'a = int] by simp
  then have "uint (word_of_int n :: u32) = n" using assms(2) by (simp add: uint_word_of_int)
  then have "word_of_int n < ken_l k" using assms(3) by (simp add: word_less_def)
  from kensler_loop_first [OF assms(1) this] show ?thesis by (simp add: Shuffle_kensler_def)
qed

definition kensler_valid :: "kensler \<Rightarrow> nat \<Rightarrow> bool" where
  "kensler_valid k n \<longleftrightarrow> n \<le> 2147483649 \<and> uint (ken_l k) = int (max n 2) \<and> uint (ken_p k) < int (max n 2) - 1"

lemma u32_of_int: "0 \<le> x \<Longrightarrow> x < 4294967296 \<Longrightarrow> uint (word_of_int x :: u32) = x"
  by (subst uint_word_of_int) simp

lemma NewKensler_valid:
  assumes "NewKensler src (int n) = Inr k" and "n \<le> 2147483649"
  shows "kensler_valid k n"
proof -
  let ?l = "max (int n) 2"
  obtain x where k: "k = \<lparr>ken_l = word_of_int ?l, ken_p = word_of_int (int x mod (?l - 1))\<rparr>"
    using assms(1) by (auto simp: NewKensler_def rand_Int_def Let_def bind_res_Inr_iff split: if_splits)
  have "uint (word_of_int ?l :: u32) = ?l" using assms(2) by (simp add: uint_word_of_int)
  moreover have x: "0 \<le> int x mod (?l - 1)" "int x mod (?l - 1) < ?l - 1" by simp_all
  have ml: "int (max n 2) = ?l" by (simp add: max_def)
  have "?l \<le> 2147483649" using assms(2) by simp
  with x have "uint (word_of_int (int x mod (?l - 1)) :: u32) = int x mod (?l - 1)"
    by (intro u32_of_int) linarith+
  ultimately show ?thesis using assms(2) x(2) by (simp add: kensler_valid_def k ml)
qed

lemma kensler_add:
  assumes "kensler_valid k n" and "v < ken_l k"
  shows "uint ((v + ken_p k) mod ken_l k) = (uint v + uint (ken_p k)) mod int (max n 2)"
proof -
  have "uint v + uint (ken_p k) < 2 ^ 32" using assms by (auto simp: kensler_valid_def word_less_def)
  then have "uint (v + ken_p k) = uint v + uint (ken_p k)" by (simp add: uint_word_ariths)
  moreover have "uint ((v + ken_p k) mod ken_l k) = uint (v + ken_p k) mod uint (ken_l k)" by (rule uint_mod)
  ultimately show ?thesis using assms by (simp add: kensler_valid_def)
qed

lemma mod_add_right_inj:
  fixes a b c m :: int
  assumes "0 \<le> a" "a < m" "0 \<le> b" "b < m" "(a + c) mod m = (b + c) mod m"
  shows "a = b"
proof -
  have "m dvd a - b" using assms(5) by (simp add: mod_eq_dvd_iff)
  then show ?thesis using assms(1-4) zdvd_imp_le [of m "a - b"] zdvd_imp_le [of m "b - a"]
    by (cases a b rule: linorder_cases) (auto simp: dvd_diff_commute)
qed

lemma kensler_zero: "Shuffle_kensler \<lparr>ken_l = l, ken_p = 0\<rparr> 0 = Some 0" if "0 < l"
proof -
  have "kensler_round 0 w 0 = 0" for w by (simp only: kensler_round_def Let_def xor.right_neutral and_zero_eq zero_and_eq mult_zero_left drop_bit_of_0 xor_self_eq)
  then show ?thesis using that by (simp add: Shuffle_kensler_def kensler_loop.simps [of l])
qed

lemma uint_numeral_2: "uint (2 :: u32) = 2"
  by simp

interpretation kensler: permutation kensler_valid Shuffle_kensler
proof
  fix k n i j assume v: "kensler_valid k n" and i: "i < n"
  let ?f = "\<lambda>i. kensler_first k (word_of_int (int i))" and ?m = "int (max n 2)"
  have l: "1 < ken_l k" using v by (auto simp: kensler_valid_def word_less_def)
  have sh: "Shuffle_kensler k (int i) = Some ((uint (?f i) + uint (ken_p k)) mod ?m) \<and>
      uint (?f i) < ?m \<and> uint (word_of_int (int i) :: u32) = int i" if "i < n" for i
  proof -
    have il: "int i < uint (ken_l k)" using that v by (simp add: kensler_valid_def)
    have w: "uint (word_of_int (int i) :: u32) = int i" 
      using that v unfolding kensler_valid_def by (intro u32_of_int) linarith+
    then have "word_of_int (int i) < ken_l k" using il by (simp add: word_less_def)
    then have f: "?f i < ken_l k" using kensler_first_bij [OF l] by (auto dest: bij_betwE)
    then have "uint (?f i) < ?m" using v by (simp add: word_less_def kensler_valid_def)
    with w Shuffle_kensler_eq [OF l _ il] kensler_add [OF v f] show ?thesis by simp
  qed
  show "\<exists>j<n. Shuffle_kensler k (int i) = Some (int j)"
  proof (cases "n = 1")
    case True
    with v have "uint (ken_l k) = 2" "uint (ken_p k) < 1" by (auto simp: kensler_valid_def)
    moreover have "0 \<le> uint (ken_p k)" by simp
    ultimately have "ken_l k = 2" "ken_p k = 0" 
      by (simp_all only: word_uint_eq_iff unsigned_0 uint_numeral_2)
    then have "k = \<lparr>ken_l = 2, ken_p = 0\<rparr>" by simp
    with True i show ?thesis by (simp add: kensler_zero)
  next
    case False
    with i have "?m = int n" by simp
    with sh [OF i] i show ?thesis
      by (intro exI [of _ "nat ((uint (?f i) + uint (ken_p k)) mod ?m)"]) (simp add: nat_less_iff)
  qed
  show "i = j" if j: "j < n" and eq: "Shuffle_kensler k (int i) = Shuffle_kensler k (int j)"
  proof -
    from eq sh [OF i] sh [OF j] have "(uint (?f i) + uint (ken_p k)) mod ?m = (uint (?f j) + uint (ken_p k)) mod ?m"
      by (simp only: option.inject)
    then have "uint (?f i) = uint (?f j)"
      by (rule mod_add_right_inj [OF unsigned_greater_eq sh [OF i, THEN conjunct2, THEN conjunct1]
            unsigned_greater_eq sh [OF j, THEN conjunct2, THEN conjunct1]])
    then have "?f i = ?f j" by (simp only: word_uint_eq_iff)
    moreover have "word_of_int (int i) < ken_l k" if "i < n" for i
      unfolding word_less_def using sh [OF that] that v by (simp only: kensler_valid_def)
    ultimately have "word_of_int (int i) = (word_of_int (int j) :: u32)"
      using kensler_first_bij [OF l] i j by (blast dest: bij_betw_imp_inj_on inj_onD)
    then show ?thesis using sh [OF i] sh [OF j] by (metis of_nat_eq_iff)
  qed
qed

section \<open>Naive and nil permute\<close>

definition returned :: "'a result \<Rightarrow> 'a option" where
  "returned r = (case r of Inl e \<Rightarrow> None | Inr x \<Rightarrow> Some x)"

definition naive_valid :: "naive \<Rightarrow> nat \<Rightarrow> bool" where
  "naive_valid k n \<longleftrightarrow> mset (naive_p k) = mset (map int [0..<n])"

lemma naive_step_mset:
  assumes "naive_step src n i p = Inr p'"
  shows "mset p' = mset p"
proof -
  obtain j where "rand_Int (src i) (n - 1) = Inr j" using assms by (auto simp: naive_step_def bind_res_Inr_iff)
  with assms show ?thesis
    by (auto simp: naive_step_def bind_res_Inr_iff go_nth_def go_set_def mset_swap split: if_splits)
qed

lemma NewNaive_valid:
  assumes "NewNaive src (int n) = Inr k"
  shows "naive_valid k n"
proof -
  have "mset p' = mset p" if "fold_res (naive_step src (int n)) is p = Inr p'" for "is" p p'
    using that by (induction "is" arbitrary: p) (auto simp: bind_res_Inr_iff naive_step_mset)
  with assms show ?thesis by (auto simp: NewNaive_def bind_res_Inr_iff naive_valid_def)
qed

interpretation naive: permutation naive_valid "\<lambda>k n. returned (Shuffle_naive k n)"
proof
  fix k n i j assume v: "naive_valid k n" and i: "i < n"
  have len: "length (naive_p k) = n" using v by (metis naive_valid_def length_map length_upt mset_eq_length minus_nat.diff_0)
  have "distinct (naive_p k)" using v by (metis naive_valid_def distinct_map distinct_upt inj_on_of_nat mset_eq_imp_distinct_iff)
  moreover have sh: "returned (Shuffle_naive k (int i)) = Some (naive_p k ! i)" if "i < n" for i
    using that len by (simp add: returned_def Shuffle_naive_def)
  ultimately show "i = j" if "j < n" "returned (Shuffle_naive k (int i)) = returned (Shuffle_naive k (int j))"
    using that i len by (simp add: nth_eq_iff_index_eq)
  have "set (naive_p k) = int ` {..<n}" using v by (metis naive_valid_def mset_eq_setD set_map set_upt atLeast0LessThan)
  then have "naive_p k ! i \<in> int ` {..<n}" using i len by (metis nth_mem)
  with sh [OF i] show "\<exists>j<n. returned (Shuffle_naive k (int i)) = Some (int j)" by auto
qed

interpretation null: permutation "\<lambda>_ _. True" "\<lambda>k n. Some (Shuffle_null k n)"
  by unfold_locales (auto simp: Shuffle_null_def)

section \<open>Properties\<close>

text \<open>
  Property C17. For up to \<open>2^31+1\<close> elements, whatever seed NewKensler draws, Shuffle returns for
  every index (its cycle walk ends) and maps the indices \<open>0..n-1\<close> one to one onto \<open>0..n-1\<close>.
\<close>
theorem kensler_permutes:
  assumes "NewKensler src (int n) = Inr k" and "n \<le> 2147483649"
  shows "mset (map (\<lambda>i. Shuffle_kensler k (int i)) [0..<n]) = mset (map (\<lambda>i. Some (int i)) [0..<n])"
proof -
  note v = NewKensler_valid [OF assms]
  have "map (\<lambda>i. Shuffle_kensler k (int i)) [0..<n] = map (\<lambda>i. Some (int i)) (map (kensler.pos k) [0..<n])"
    using kensler.shuffle_pos [OF v] by simp
  then show ?thesis using kensler.mset_map_pos [OF v] by (metis mset_map)
qed

theorem kensler_permutes_witness:
  "\<exists>k. NewKensler (Inr 3) 7 = Inr k \<and> ken_p k = 3 \<and>
     mset (map (\<lambda>i. Shuffle_kensler k (int i)) [0..<7]) = mset (map (\<lambda>i. Some (int i)) [0..<7])"
proof -
  have k: "NewKensler (Inr 3) (int 7) = Inr \<lparr>ken_l = 7, ken_p = 3\<rparr>"
    by (simp add: NewKensler_def rand_Int_def)
  from kensler_permutes [OF k] have
    "mset (map (\<lambda>i. Shuffle_kensler \<lparr>ken_l = 7, ken_p = 3\<rparr> (int i)) [0..<7]) = mset (map (\<lambda>i. Some (int i)) [0..<7])"
    by simp
  with k show ?thesis by (intro exI [of _ "\<lparr>ken_l = 7, ken_p = 3\<rparr>"]) (simp del: upt_Suc)
qed

text \<open>
  Property C30. Beyond \<open>2^31+1\<close> elements the final \<open>(i + p) % l\<close> wraps around in uint32: there
  is a seed in the range NewKensler draws from for which two indices below \<open>l\<close> are shuffled to
  the same place, although sizes up to \<open>2^32-1\<close> are accepted.
\<close>
theorem kensler_collides_when_large:
  assumes "2147483649 < l" and "l \<le> 4294967295"
  shows "\<exists>src k i j. NewKensler src l = Inr k \<and> 0 \<le> i \<and> i < j \<and> j < l \<and> Shuffle_kensler k i = Shuffle_kensler k j"
proof -
  let ?l = "word_of_int l :: u32"
  let ?k = "\<lparr>ken_l = ?l, ken_p = ?l - 2\<rparr>"
  have ul: "uint ?l = l" using assms by (intro u32_of_int) auto
  have new: "NewKensler (Inr (nat (l - 2))) l = Inr ?k"
    using assms by (simp add: NewKensler_def rand_Int_def max_def)
  have l: "1 < ken_l ?k" using assms ul by (simp add: word_less_def)
  have "uint (2 - ?l) = (2 - l) mod 2 ^ 32" by (simp add: uint_word_ariths ul)
  also have "\<dots> = 4294967298 - l" using assms by (subst mod_add_self2 [symmetric]) (simp add: mod_pos_pos_trivial)
  finally have w: "2 - ?l < ?l" "(2 :: u32) < ?l" "2 - ?l \<noteq> 2" using assms by (auto simp: word_less_def ul)
  have "kensler_first ?k ` {x. x < ?l} = {x. x < ?l}" using kensler_first_bij [OF l] by (simp add: bij_betw_def)
  then have "2 - ?l \<in> kensler_first ?k ` {x. x < ?l}" "2 \<in> kensler_first ?k ` {x. x < ?l}" using w(1,2) by blast+
  then obtain x y where xy: "x < ?l" "y < ?l" "kensler_first ?k x = 2 - ?l" "kensler_first ?k y = 2"
    by (elim imageE CollectE) (rule that, simp_all)
  then have "x \<noteq> y" using w(3) by metis
  then have ne: "uint x \<noteq> uint y" by (simp only: word_uint_eq_iff simp_thms)
  have b: "0 \<le> uint x" "0 \<le> uint y" "uint x < l" "uint y < l" using xy(1,2) by (auto simp: word_less_def ul)
  have "Shuffle_kensler ?k (uint x) = Some 0" "Shuffle_kensler ?k (uint y) = Some 0"
    using b ul xy(3,4) by (simp_all add: Shuffle_kensler_eq [OF l])
  with ne b new show ?thesis by (metis linorder_neqE_linordered_idom)
qed

theorem kensler_collides_when_large_witness:
  "\<exists>src k i j. NewKensler src 4000000000 = Inr k \<and> 0 \<le> i \<and> i < j \<and> j < 4000000000 \<and>
     Shuffle_kensler k i = Shuffle_kensler k j"
  by (rule kensler_collides_when_large) simp_all

text \<open>
  Property C31. The zero value that NewKensler returns beside an error must not be used: Shuffle on it
  never returns, for any index.
\<close>
theorem zero_kensler_diverges: "Shuffle_kensler zero_kensler n = None"
proof -
  have "y < l" if "kensler_loop l p w i = Some y" for l p w i y
    by (rule kensler_loop.raw_induct [where P = "\<lambda>l p w i y. y < l", OF _ that]) (auto simp: Let_def split: if_splits)
  from this [of 0 0 "kensler_mask 0" "word_of_int n"] show ?thesis
    by (cases "kensler_loop 0 0 (kensler_mask 0) (word_of_int n)") (auto simp: Shuffle_kensler_def zero_kensler_def)
qed

text \<open>
  A table made by NewNaive is a permutation of \<open>0..n-1\<close> for every sequence of draws, and
  Shuffle reads it without panicking.
\<close>
theorem naive_permutes:
  assumes "NewNaive src (int n) = Inr k"
  shows "mset (map (\<lambda>i. Shuffle_naive k (int i)) [0..<n]) = mset (map (\<lambda>i. Inr (int i)) [0..<n])"
proof -
  note v = NewNaive_valid [OF assms]
  have "Shuffle_naive k (int i) = Inr (int (naive.pos k i))" if "i < n" for i
    using naive.shuffle_pos [OF v that] by (auto simp: returned_def split: sum.splits)
  then have "map (\<lambda>i. Shuffle_naive k (int i)) [0..<n] = map (\<lambda>i. Inr (int i)) (map (naive.pos k) [0..<n])" by simp
  then show ?thesis using naive.mset_map_pos [OF v] by (metis mset_map)
qed

theorem naive_permutes_witness:
  "\<exists>k. NewNaive (\<lambda>i. Inr i) 3 = Inr k \<and>
     mset (map (\<lambda>i. Shuffle_naive k (int i)) [0..<3]) = mset (map (\<lambda>i. Inr (int i)) [0..<3])"
proof -
  have k: "NewNaive (\<lambda>i. Inr i) (int 3) = Inr \<lparr>naive_p = [2, 1, 0]\<rparr>"
    by (simp add: NewNaive_def naive_step_def rand_Int_def upt_rec go_nth_def go_set_def)
  from naive_permutes [OF k] have
    "mset (map (\<lambda>i. Shuffle_naive \<lparr>naive_p = [2, 1, 0]\<rparr> (int i)) [0..<3]) = mset (map (\<lambda>i. Inr (int i)) [0..<3])"
    by simp
  with k show ?thesis by (intro exI [of _ "\<lparr>naive_p = [2, 1, 0]\<rparr>"]) (simp del: upt_Suc)
qed

end
