(* ===== verification/DH_Stream.thy ===== *)
theory DH_Stream
  imports Conn Permutations
begin

text \<open>
  The sequential writers and readers of \<open>pkg/dhpsi/dhpsi.go\<close>, over a model of the connection. A
  point of the curve is seen as its 32 byte encoding; an implementation of the interface Ristretto is
  the pair of its two methods.
\<close>

section \<open>Points\<close>

abbreviation EncodedLen :: nat where
  "EncodedLen \<equiv> 32"

type_synonym point = bytes

record Ristretto =
  DeriveMultiply :: "bytes \<Rightarrow> point"
  Multiply :: "point \<Rightarrow> point"

section \<open>DeriveMultiplyShuffler\<close>

text \<open>
  The permutation is kept as its method Shuffle, which may not return. The buffer is the map from
  sequence numbers to points.
\<close>

record DeriveMultiplyShuffler =
  dms_w :: io_writer
  dms_max :: nat
  dms_seq :: nat
  dms_sent :: nat
  dms_gr :: Ristretto
  dms_p :: "int \<Rightarrow> int option"
  dms_b :: "int \<rightharpoonup> point"

text \<open>
  The error of NewKensler is dropped, so its zero value is used then; a panic of NewKensler ends the
  program.
\<close>

definition kensler_or_zero :: "nat result \<Rightarrow> nat \<Rightarrow> kensler result" where
  "kensler_or_zero src n =
     (case NewKensler src (int n) of
        Inr k \<Rightarrow> Inr k
      | Inl e \<Rightarrow> if is_panic e then Inl e else Inr zero_kensler)"

definition NewDeriveMultiplyShuffler ::
  "nat result \<Rightarrow> io_writer \<Rightarrow> nat \<Rightarrow> Ristretto \<Rightarrow> DeriveMultiplyShuffler result" where
  "NewDeriveMultiplyShuffler src w n gr =
     (case io_write (be_put64 (of_nat n)) w of
        (Some e, w) \<Rightarrow> Inl e
      | (None, w) \<Rightarrow>
          bind_res (kensler_or_zero src n) (\<lambda>k.
            Inr \<lparr>dms_w = w, dms_max = n, dms_seq = 0, dms_sent = 0, dms_gr = gr,
                 dms_p = Shuffle_kensler k, dms_b = (\<lambda>_. None)\<rparr>))"

text \<open>A lookup in a Go map of arrays gives the zero array for a missing key.\<close>

definition buffered :: "(int \<rightharpoonup> point) \<Rightarrow> int \<Rightarrow> point" where
  "buffered b i = (case b i of Some p \<Rightarrow> p | None \<Rightarrow> replicate EncodedLen 0)"

fun dms_flush :: "nat list \<Rightarrow> DeriveMultiplyShuffler \<Rightarrow> (error option \<times> DeriveMultiplyShuffler) option" where
  "dms_flush [] enc = Some (None, enc)"
| "dms_flush (i # is) enc =
     Option.bind (dms_p enc (int i)) (\<lambda>pos.
       case io_write (buffered (dms_b enc) pos) (dms_w enc) of
         (Some e, w) \<Rightarrow> Some (Some e, enc\<lparr>dms_w := w\<rparr>)
       | (None, w) \<Rightarrow> dms_flush is (enc\<lparr>dms_w := w\<rparr>))"

text \<open>
  The flush loop overwrites the error of the last write; when there is nothing to flush that error is
  returned.
\<close>

definition Shuffle_dms :: "bytes \<Rightarrow> DeriveMultiplyShuffler \<Rightarrow> (error option \<times> DeriveMultiplyShuffler) option" where
  "Shuffle_dms identifier enc =
     (if dms_seq enc = dms_max enc then Some (Some ErrUnexpectedPoint, enc)
      else
        let point = DeriveMultiply (dms_gr enc) identifier in
        Option.bind (dms_p enc (int (dms_sent enc))) (\<lambda>next.
          let (err, enc) =
            (if next = int (dms_seq enc)
             then let (err, w) = io_write point (dms_w enc) in (err, enc\<lparr>dms_w := w, dms_sent := dms_sent enc + 1\<rparr>)
             else (None, enc\<lparr>dms_b := (dms_b enc)(int (dms_seq enc) \<mapsto> point)\<rparr>));
              enc = enc\<lparr>dms_seq := dms_seq enc + 1\<rparr>
          in if dms_seq enc = dms_max enc \<and> dms_sent enc < dms_max enc
             then dms_flush [dms_sent enc..<dms_max enc] enc
             else Some (err, enc)))"

section \<open>Writer, Reader and MultiplyReader\<close>

record Writer =
  wr_w :: io_writer
  wr_max :: int
  wr_seq :: int

definition NewWriter :: "io_writer \<Rightarrow> int \<Rightarrow> Writer result" where
  "NewWriter w n =
     (case io_write (be_put64 (word_of_int n)) w of
        (Some e, w) \<Rightarrow> Inl e
      | (None, w) \<Rightarrow> Inr \<lparr>wr_w = w, wr_max = n, wr_seq = 0\<rparr>)"

definition Write :: "point \<Rightarrow> Writer \<Rightarrow> error option \<times> Writer" where
  "Write p w =
     (if wr_seq w = wr_max w then (Some ErrUnexpectedPoint, w)
      else case io_write p (wr_w w) of
        (Some e, u) \<Rightarrow> (Some e, w\<lparr>wr_w := u\<rparr>)
      | (None, u) \<Rightarrow> (None, w\<lparr>wr_w := u, wr_seq := wr_seq w + 1\<rparr>))"

record Reader =
  rd_r :: io_reader
  rd_seq :: int
  rd_max :: int

definition NewReader :: "io_reader \<Rightarrow> Reader result" where
  "NewReader r =
     (case read_full 8 [] r of
        (Inl e, r) \<Rightarrow> Inl e
      | (Inr bs, r) \<Rightarrow> Inr \<lparr>rd_r = r, rd_seq = 0, rd_max = sint (be_get64 bs)\<rparr>)"

text \<open>
  One call of the underlying Read: the bytes it delivers overwrite the front of the point, the rest
  of the point keeps its value.
\<close>

definition Read :: "point \<Rightarrow> Reader \<Rightarrow> error option \<times> point \<times> Reader" where
  "Read p r =
     (if rd_seq r = rd_max r then (Some EOF, p, r)
      else case io_read (length p) (rd_r r) of
        (Inl e, u) \<Rightarrow> (Some e, p, r\<lparr>rd_r := u\<rparr>)
      | (Inr bs, u) \<Rightarrow> (None, bs @ drop (length bs) p, r\<lparr>rd_r := u, rd_seq := rd_seq r + 1\<rparr>))"

definition zero_point :: point where
  "zero_point = replicate EncodedLen 0"

record MultiplyReader =
  mr_r :: Reader
  mr_gr :: Ristretto

definition NewMultiplyReader :: "io_reader \<Rightarrow> Ristretto \<Rightarrow> MultiplyReader result" where
  "NewMultiplyReader r gr = bind_res (NewReader r) (\<lambda>rr. Inr \<lparr>mr_r = rr, mr_gr = gr\<rparr>)"

definition Read_mr :: "point \<Rightarrow> MultiplyReader \<Rightarrow> error option \<times> point \<times> MultiplyReader" where
  "Read_mr p r =
     (case Read zero_point (mr_r r) of
        (Some e, _, rr) \<Rightarrow> (Some e, p, r\<lparr>mr_r := rr\<rparr>)
      | (None, b, rr) \<Rightarrow> (None, Multiply (mr_gr r) b, r\<lparr>mr_r := rr\<rparr>))"

definition Max_mr :: "MultiplyReader \<Rightarrow> int" where
  "Max_mr r = rd_max (mr_r r)"

section \<open>The shuffler sends the points in permuted order\<close>

text \<open>Feeding identifiers to the shuffler until one is refused, as the protocol does.\<close>

fun dms_run :: "bytes list \<Rightarrow> DeriveMultiplyShuffler \<Rightarrow> (error option \<times> DeriveMultiplyShuffler) option" where
  "dms_run [] enc = Some (None, enc)"
| "dms_run (x # xs) enc =
     Option.bind (Shuffle_dms x enc) (\<lambda>(err, enc).
       case err of Some e \<Rightarrow> Some (Some e, enc) | None \<Rightarrow> dms_run xs enc)"

text \<open>The first \<open>m\<close> points in the order \<open>perm\<close>.\<close>

definition permuted_points :: "(bytes \<Rightarrow> point) \<Rightarrow> (nat \<Rightarrow> nat) \<Rightarrow> bytes list \<Rightarrow> nat \<Rightarrow> bytes" where
  "permuted_points f perm ids m = concat (map (\<lambda>i. f (ids ! perm i)) [0..<m])"

lemma permuted_points_Suc: "permuted_points f perm ids (Suc m) = permuted_points f perm ids m @ f (ids ! perm m)"
  by (simp add: permuted_points_def)

definition dms_inv :: "(nat \<Rightarrow> nat) \<Rightarrow> bytes \<Rightarrow> bytes list \<Rightarrow> DeriveMultiplyShuffler \<Rightarrow> bool" where
  "dms_inv perm hdr ids enc \<longleftrightarrow>
     dms_max enc = length ids \<and> dms_seq enc \<le> dms_max enc \<and> dms_sent enc \<le> dms_seq enc \<and>
     wrote (dms_w enc) = hdr @ permuted_points (DeriveMultiply (dms_gr enc)) perm ids (dms_sent enc) \<and>
     dms_max enc \<le> budget (dms_w enc) + dms_sent enc \<and>
     (\<forall>j<dms_seq enc. (\<exists>i<dms_sent enc. perm i = j) \<or>
        dms_b enc (int j) = Some (DeriveMultiply (dms_gr enc) (ids ! j)))"

context permutation
begin

lemma dms_flush_spec:
  assumes "valid s n" and "dms_p enc = shuffle s" and "m \<le> n"
    and "\<forall>i. m \<le> i \<and> i < n \<longrightarrow> dms_b enc (int (pos s i)) = Some (f (ids ! pos s i))"
    and "wrote (dms_w enc) = hdr @ permuted_points f (pos s) ids m" and "n \<le> budget (dms_w enc) + m"
  shows "\<exists>w. dms_flush [m..<n] enc = Some (None, enc\<lparr>dms_w := w\<rparr>) \<and> wrote w = hdr @ permuted_points f (pos s) ids n"
  using assms(2-)
proof (induction "n - m" arbitrary: m enc)
  case 0
  then have "m = n" by simp
  with 0 show ?case by (intro exI [of _ "dms_w enc"]) simp
next
  case (Suc k)
  then have m: "m < n" by simp
  let ?w = "\<lparr>wrote = wrote (dms_w enc) @ f (ids ! pos s m), budget = budget (dms_w enc) - 1\<rparr>"
  have "buffered (dms_b enc) (int (pos s m)) = f (ids ! pos s m)" using Suc.prems(3) m by (simp add: buffered_def)
  then have step: "dms_flush [m..<n] enc = dms_flush [Suc m..<n] (enc\<lparr>dms_w := ?w\<rparr>)"
    using m Suc.prems by (simp add: upt_conv_Cons shuffle_pos [OF assms(1)] io_write_def)
  have "\<exists>w. dms_flush [Suc m..<n] (enc\<lparr>dms_w := ?w\<rparr>) = Some (None, enc\<lparr>dms_w := ?w\<rparr>\<lparr>dms_w := w\<rparr>) \<and>
      wrote w = hdr @ permuted_points f (pos s) ids n"
    using Suc.prems Suc.hyps(2) m by (intro Suc.hyps(1)) (simp_all add: permuted_points_Suc)
  with step show ?case by simp
qed

lemma Shuffle_dms_spec:
  assumes v: "valid s (length ids)" and p: "dms_p enc = shuffle s" and inv: "dms_inv (pos s) hdr ids enc"
    and seq: "dms_seq enc < length ids"
  shows "\<exists>enc'. Shuffle_dms (ids ! dms_seq enc) enc = Some (None, enc') \<and> dms_p enc' = dms_p enc \<and>
    dms_gr enc' = dms_gr enc \<and> dms_seq enc' = dms_seq enc + 1 \<and> dms_max enc' = dms_max enc \<and>
    (if dms_seq enc' = length ids
     then wrote (dms_w enc') = hdr @ permuted_points (DeriveMultiply (dms_gr enc)) (pos s) ids (length ids)
     else dms_inv (pos s) hdr ids enc')"
proof -
  let ?n = "length ids" and ?f = "DeriveMultiply (dms_gr enc)" and ?k = "dms_seq enc" and ?m = "dms_sent enc"
  have m: "?m < ?n" "dms_max enc = ?n" using inv seq by (auto simp: dms_inv_def)
  define enc1 where "enc1 = (if pos s ?m = ?k
      then enc\<lparr>dms_w := \<lparr>wrote = wrote (dms_w enc) @ ?f (ids ! ?k), budget = budget (dms_w enc) - 1\<rparr>, dms_sent := ?m + 1\<rparr>
      else enc\<lparr>dms_b := (dms_b enc)(int ?k \<mapsto> ?f (ids ! ?k))\<rparr>)\<lparr>dms_seq := ?k + 1\<rparr>"
  have step: "Shuffle_dms (ids ! ?k) enc =
      (if ?k + 1 = ?n \<and> dms_sent enc1 < ?n then dms_flush [dms_sent enc1..<?n] enc1 else Some (None, enc1))"
    using m seq inv by (simp add: Shuffle_dms_def p shuffle_pos [OF v] io_write_def Let_def dms_inv_def enc1_def)
  have enc1: "dms_p enc1 = shuffle s" "dms_gr enc1 = dms_gr enc" "dms_seq enc1 = ?k + 1" "dms_max enc1 = ?n"
    using m(2) p by (simp_all add: enc1_def)
  have inv1: "dms_inv (pos s) hdr ids enc1"
    using inv m seq by (auto simp: dms_inv_def enc1_def permuted_points_Suc less_Suc_eq)
  show ?thesis
  proof (cases "?k + 1 = ?n")
    case True
    have b: "dms_b enc1 (int (pos s i)) = Some (?f (ids ! pos s i))" if "dms_sent enc1 \<le> i" "i < ?n" for i
    proof -
      have "pos s i < dms_seq enc1" using pos_less [OF v that(2)] True enc1 by simp
      moreover have "pos s i' \<noteq> pos s i" if "i' < dms_sent enc1" for i'
        using inj_onD [OF inj_on_pos [OF v], of i' i] that \<open>dms_sent enc1 \<le> i\<close> \<open>i < ?n\<close> by auto
      ultimately show ?thesis using inv1 enc1 by (auto simp: dms_inv_def)
    qed
    have "\<exists>w. dms_flush [dms_sent enc1..<?n] enc1 = Some (None, enc1\<lparr>dms_w := w\<rparr>) \<and>
        wrote w = hdr @ permuted_points ?f (pos s) ids ?n"
      using inv1 enc1 b by (intro dms_flush_spec [OF v]) (auto simp: dms_inv_def)
    then obtain w where w: "dms_flush [dms_sent enc1..<?n] enc1 = Some (None, enc1\<lparr>dms_w := w\<rparr>)"
        "wrote w = hdr @ permuted_points ?f (pos s) ids ?n" by blast
    show ?thesis
    proof (cases "dms_sent enc1 < ?n")
      case True
      with w step enc1 \<open>?k + 1 = ?n\<close> p m show ?thesis by simp
    next
      case False
      then have "dms_sent enc1 = ?n" using inv1 enc1 True by (simp add: dms_inv_def)
      with step enc1 inv1 True p m show ?thesis by (simp add: dms_inv_def)
    qed
  next
    case False
    with step enc1 inv1 p m show ?thesis by simp
  qed
qed

lemma dms_run_spec:
  assumes v: "valid s (length ids)" and "dms_p enc = shuffle s" and "dms_inv (pos s) hdr ids enc"
    and "dms_seq enc < length ids"
  shows "\<exists>enc'. dms_run (drop (dms_seq enc) ids) enc = Some (None, enc') \<and> dms_seq enc' = dms_max enc' \<and>
    wrote (dms_w enc') = hdr @ permuted_points (DeriveMultiply (dms_gr enc)) (pos s) ids (length ids)"
  using assms(2-)
proof (induction "length ids - dms_seq enc" arbitrary: enc rule: less_induct)
  case less
  let ?k = "dms_seq enc"
  from Shuffle_dms_spec [OF v less.prems] obtain enc' where
    e: "Shuffle_dms (ids ! ?k) enc = Some (None, enc')" "dms_p enc' = dms_p enc" "dms_gr enc' = dms_gr enc"
      "dms_seq enc' = ?k + 1" "dms_max enc' = dms_max enc"
      "if dms_seq enc' = length ids
       then wrote (dms_w enc') = hdr @ permuted_points (DeriveMultiply (dms_gr enc)) (pos s) ids (length ids)
       else dms_inv (pos s) hdr ids enc'" by blast
  have split: "dms_run (drop ?k ids) enc = dms_run (drop (?k + 1) ids) enc'"
    using less.prems(3) e(1) by (simp flip: Cons_nth_drop_Suc)
  show ?case
  proof (cases "?k + 1 = length ids")
    case True
    with e split less.prems(2) show ?thesis by (simp add: dms_inv_def)
  next
    case False
    then have k: "dms_seq enc' < length ids" using less.prems(3) e(4) by simp
    then have "\<exists>enc''. dms_run (drop (dms_seq enc') ids) enc' = Some (None, enc'') \<and> dms_seq enc'' = dms_max enc'' \<and>
      wrote (dms_w enc'') = hdr @ permuted_points (DeriveMultiply (dms_gr enc')) (pos s) ids (length ids)"
      using e less.prems by (intro less.hyps) auto
    with split e(3,4) show ?thesis by simp
  qed
qed

end

lemma kensler_or_zero_valid:
  "kensler_or_zero (Inr x) n = Inr k \<Longrightarrow> n \<le> 2147483649 \<Longrightarrow> kensler_valid k n"
  using NewKensler_valid [of "Inr x" n k]
  by (auto simp: kensler_or_zero_def NewKensler_def rand_Int_def Let_def split: sum.splits if_splits)

lemma kensler_or_zero_ex: "n \<le> 2147483649 \<Longrightarrow> \<exists>k. kensler_or_zero (Inr x) n = Inr k"
  by (simp add: kensler_or_zero_def NewKensler_def rand_Int_def Let_def)

section \<open>Readers on whole points\<close>

text \<open>No piece of the stream ends inside a point.\<close>

definition aligned :: "io_reader \<Rightarrow> bool" where
  "aligned r \<longleftrightarrow> (\<forall>c\<in>set r. c \<noteq> [] \<and> EncodedLen dvd length c)"

text \<open>The points that follow the header arrive whole.\<close>

definition points_aligned :: "io_reader \<Rightarrow> bool" where
  "points_aligned r \<longleftrightarrow> aligned (snd (read_full 8 [] r))"

lemma io_read_aligned:
  assumes "aligned r" and "r \<noteq> []"
  shows "\<exists>r'. io_read EncodedLen r = (Inr (take EncodedLen (concat r)), r') \<and> aligned r' \<and> concat r' = drop EncodedLen (concat r)"
proof -
  obtain c cs where r: "r = c # cs" using assms(2) by (cases r) auto
  with assms(1) have c: "c \<noteq> []" "EncodedLen dvd length c" and cs: "aligned cs" by (auto simp: aligned_def)
  then have len: "EncodedLen \<le> length c" by (metis dvd_imp_le length_greater_0_conv)
  show ?thesis
  proof (cases "length c = EncodedLen")
    case True
    with r cs show ?thesis by simp
  next
    case False
    with len have "EncodedLen dvd length (drop EncodedLen c)" "drop EncodedLen c \<noteq> []" using c(2) by (simp_all add: dvd_diff_nat)
    with False len r cs show ?thesis by (auto simp: aligned_def)
  qed
qed

fun read_points :: "nat \<Rightarrow> Reader \<Rightarrow> point list \<times> error option \<times> Reader" where
  "read_points 0 r = ([], None, r)"
| "read_points (Suc n) r =
     (case Read zero_point r of
        (Some e, _, r) \<Rightarrow> ([], Some e, r)
      | (None, p, r) \<Rightarrow> (let (ps, e, r) = read_points n r in (p # ps, e, r)))"

lemma Read_aligned:
  assumes "aligned (rd_r r)" and "concat (rd_r r) = p @ rest" and "length p = EncodedLen" and "rd_seq r \<noteq> rd_max r"
  shows "\<exists>r'. Read zero_point r = (None, p, r') \<and> aligned (rd_r r') \<and> concat (rd_r r') = rest \<and>
    rd_seq r' = rd_seq r + 1 \<and> rd_max r' = rd_max r"
proof -
  have "rd_r r \<noteq> []" using assms(2,3) by auto
  from io_read_aligned [OF assms(1) this] assms(2-) show ?thesis
    by (auto simp: Read_def zero_point_def)
qed

lemma read_points_aligned:
  assumes "aligned (rd_r r)" and "concat (rd_r r) = concat ps @ rest" and "\<forall>p\<in>set ps. length p = EncodedLen"
    and "rd_seq r + int (length ps) \<le> rd_max r"
  shows "\<exists>r'. read_points (length ps) r = (ps, None, r') \<and> rd_seq r' = rd_seq r + int (length ps) \<and>
    rd_max r' = rd_max r \<and> concat (rd_r r') = rest"
  using assms
proof (induction ps arbitrary: r)
  case (Cons p ps)
  have "concat (rd_r r) = p @ (concat ps @ rest)" "length p = EncodedLen" "rd_seq r \<noteq> rd_max r" using Cons.prems by auto
  from Read_aligned [OF Cons.prems(1) this] obtain r' where
    r': "Read zero_point r = (None, p, r')" "aligned (rd_r r')" "concat (rd_r r') = concat ps @ rest"
      "rd_seq r' = rd_seq r + 1" "rd_max r' = rd_max r" by blast
  from Cons.IH [OF r'(2,3)] Cons.prems r' show ?case by auto
qed simp

lemma read_points_seq:
  "read_points n r = (ps, None, r') \<Longrightarrow> length ps = n \<and> rd_seq r' = rd_seq r + int n \<and> rd_max r' = rd_max r"
proof (induction n arbitrary: r ps)
  case (Suc n)
  then obtain p qs r1 where r1: "Read zero_point r = (None, p, r1)" "read_points n r1 = (qs, None, r')" "ps = p # qs"
    by (auto split: prod.splits option.splits)
  have "rd_seq r1 = rd_seq r + 1" "rd_max r1 = rd_max r"
    using r1(1) by (auto simp: Read_def split: if_splits prod.splits sum.splits)
  with Suc.IH [OF r1(2)] r1(3) show ?case by simp
qed simp

lemma read_points_split:
  "read_points (length ps + length qs) r = (ps @ qs, None, r') \<Longrightarrow>
   \<exists>r1. read_points (length ps) r = (ps, None, r1) \<and> read_points (length qs) r1 = (qs, None, r')"
proof (induction ps arbitrary: r)
  case (Cons p ps)
  then obtain r1 where r1: "Read zero_point r = (None, p, r1)" "read_points (length ps + length qs) r1 = (ps @ qs, None, r')"
    by (auto split: prod.splits option.splits)
  from Cons.IH [OF r1(2)] r1(1) show ?case by auto
qed simp

lemma NewReader_spec:
  assumes "concat r = be_put64 (word_of_int n) @ body" and "0 \<le> n" and "n < 2 ^ 63"
  shows "\<exists>r'. NewReader r = Inr \<lparr>rd_r = r', rd_seq = 0, rd_max = n\<rparr> \<and> concat r' = body \<and>
    r' = snd (read_full 8 [] r)"
proof -
  have "8 \<le> length (concat r)" using assms(1) by simp
  with read_full_spec [of "[]" 8 r] obtain r' where
    "read_full 8 [] r = (Inr (take 8 (concat r)), r')" "concat r' = drop 8 (concat r)" by auto
  moreover have "take 8 (concat r) = be_put64 (word_of_int n)" "drop 8 (concat r) = body" using assms(1) by simp_all
  moreover have "sint (word_of_int n :: u64) = n" using assms(2,3) by (subst sint_sbintrunc') (simp add: signed_take_bit_int_eq_self)
  ultimately show ?thesis by (simp add: NewReader_def)
qed

fun write_points :: "point list \<Rightarrow> Writer \<Rightarrow> error option \<times> Writer" where
  "write_points [] w = (None, w)"
| "write_points (p # ps) w =
     (case Write p w of (Some e, w) \<Rightarrow> (Some e, w) | (None, w) \<Rightarrow> write_points ps w)"

lemma write_points_spec:
  assumes "wr_seq w + int (length ps) \<le> wr_max w" and "length ps \<le> budget (wr_w w)"
  shows "\<exists>w'. write_points ps w = (None, w') \<and> wrote (wr_w w') = wrote (wr_w w) @ concat ps"
  using assms
proof (induction ps arbitrary: w)
  case (Cons p ps)
  let ?w = "w\<lparr>wr_w := \<lparr>wrote = wrote (wr_w w) @ p, budget = budget (wr_w w) - 1\<rparr>, wr_seq := wr_seq w + 1\<rparr>"
  have "Write p w = (None, ?w)" using Cons.prems by (simp add: Write_def io_write_def)
  moreover have "\<exists>w'. write_points ps ?w = (None, w') \<and> wrote (wr_w w') = wrote (wr_w ?w) @ concat ps"
    using Cons.prems by (intro Cons.IH) simp_all
  ultimately show ?case by simp
qed simp

section \<open>Properties\<close>

lemma NewDeriveMultiplyShuffler_spec:
  assumes "n \<le> 2147483649" and "n < budget w"
  shows "\<exists>k enc. kensler_valid k n \<and> NewDeriveMultiplyShuffler (Inr x) w n gr = Inr enc \<and> dms_p enc = Shuffle_kensler k \<and>
    dms_gr enc = gr \<and> dms_seq enc = 0 \<and> dms_max enc = n \<and> dms_sent enc = 0 \<and> dms_b enc = (\<lambda>_. None) \<and>
    wrote (dms_w enc) = wrote w @ be_put64 (of_nat n) \<and> n \<le> budget (dms_w enc)"
proof -
  obtain k where "kensler_or_zero (Inr x) n = Inr k" "kensler_valid k n"
    using kensler_or_zero_ex [OF assms(1)] kensler_or_zero_valid [OF _ assms(1)] by blast
  with assms(2) show ?thesis
    by (intro exI [of _ k]) (simp add: NewDeriveMultiplyShuffler_def io_write_def)
qed

text \<open>
  Property C21. The sequential shuffler, fed with the announced number of identifiers over a working
  connection, terminates and writes the count followed by the derived and multiplied points of all
  identifiers in the order of its permutation: the \<open>i\<close>th point written is the one of identifier
  \<open>Shuffle(i)\<close>, whether it went straight through or by way of the buffer.
\<close>
theorem shuffler_sends_permuted:
  assumes "0 < length ids" and "length ids \<le> 2147483649" and "length ids < budget w"
  shows "\<exists>k enc enc'. kensler_valid k (length ids) \<and>
    NewDeriveMultiplyShuffler (Inr x) w (length ids) gr = Inr enc \<and> dms_p enc = Shuffle_kensler k \<and>
    dms_run ids enc = Some (None, enc') \<and>
    wrote (dms_w enc') = wrote w @ be_put64 (of_nat (length ids)) @
      concat (map (\<lambda>i. DeriveMultiply gr (ids ! nat (the (Shuffle_kensler k (int i))))) [0..<length ids])"
proof -
  obtain k enc where k: "kensler_valid k (length ids)" "NewDeriveMultiplyShuffler (Inr x) w (length ids) gr = Inr enc"
      "dms_p enc = Shuffle_kensler k" "dms_gr enc = gr" "dms_seq enc = 0" "dms_max enc = length ids" "dms_sent enc = 0"
      "wrote (dms_w enc) = wrote w @ be_put64 (of_nat (length ids))" "length ids \<le> budget (dms_w enc)"
    using NewDeriveMultiplyShuffler_spec [OF assms(2,3)] by blast
  have inv: "dms_inv (kensler.pos k) (wrote w @ be_put64 (of_nat (length ids))) ids enc"
    using k by (simp add: dms_inv_def permuted_points_def)
  have "dms_seq enc < length ids" using k(5) assms(1) by simp
  from kensler.dms_run_spec [OF k(1,3) inv this] k obtain enc' where
    "dms_run ids enc = Some (None, enc')"
    "wrote (dms_w enc') = (wrote w @ be_put64 (of_nat (length ids))) @
      permuted_points (DeriveMultiply gr) (kensler.pos k) ids (length ids)" by auto
  then show ?thesis using k(1-3) unfolding permuted_points_def kensler.pos_def by (metis append.assoc)
qed

theorem shuffler_sends_permuted_witness:
  "\<exists>k enc enc'. kensler_valid k 3 \<and>
    NewDeriveMultiplyShuffler (Inr 0) \<lparr>wrote = [], budget = 5\<rparr> 3 \<lparr>DeriveMultiply = rev, Multiply = rev\<rparr> = Inr enc \<and>
    dms_p enc = Shuffle_kensler k \<and> dms_run (replicate 3 [1, 2]) enc = Some (None, enc') \<and>
    wrote (dms_w enc') = be_put64 3 @
      concat (map (\<lambda>i. rev (replicate 3 [1, 2] ! nat (the (Shuffle_kensler k (int i))))) [0..<3])"
  using shuffler_sends_permuted [of "replicate 3 [1, 2]" "\<lparr>wrote = [], budget = 5\<rparr>" 0 "\<lparr>DeriveMultiply = rev, Multiply = rev\<rparr>"]
  by (simp del: upt_Suc replicate.simps)

text \<open>
  Points sent by a Writer over a working connection are read back unchanged and in order
  by a Reader, which then reports the end, provided the points arrive whole.
\<close>
theorem writer_reader_roundtrip:
  assumes "\<forall>p\<in>set ps. length p = EncodedLen" and "length ps < 2 ^ 63"
    and "concat r = be_put64 (word_of_int (int (length ps))) @ concat ps" and "points_aligned r"
  shows "\<exists>w r0 r1. NewWriter \<lparr>wrote = [], budget = length ps + 1\<rparr> (int (length ps)) = Inr w \<and>
    wrote (wr_w (snd (write_points ps w))) = concat r \<and> fst (write_points ps w) = None \<and>
    NewReader r = Inr r0 \<and> read_points (length ps) r0 = (ps, None, r1) \<and> Read zero_point r1 = (Some EOF, zero_point, r1)"
proof -
  let ?w = "\<lparr>wr_w = \<lparr>wrote = be_put64 (word_of_int (int (length ps))), budget = length ps\<rparr>, wr_max = int (length ps), wr_seq = 0\<rparr>"
  have "NewWriter \<lparr>wrote = [], budget = length ps + 1\<rparr> (int (length ps)) = Inr ?w"
    by (simp add: NewWriter_def io_write_def)
  moreover obtain w' where "write_points ps ?w = (None, w')" "wrote (wr_w w') = wrote (wr_w ?w) @ concat ps"
    using write_points_spec [of ?w ps] by auto
  moreover have "int (length ps) < 2 ^ 63" using assms(2) by (metis of_nat_less_iff of_nat_numeral of_nat_power)
  then obtain r0 where r0: "NewReader r = Inr \<lparr>rd_r = r0, rd_seq = 0, rd_max = int (length ps)\<rparr>"
      "concat r0 = concat ps" "r0 = snd (read_full 8 [] r)"
    using NewReader_spec [OF assms(3)] by auto
  moreover obtain r1 where "read_points (length ps) \<lparr>rd_r = r0, rd_seq = 0, rd_max = int (length ps)\<rparr> = (ps, None, r1)"
      "rd_seq r1 = rd_max r1"
    using read_points_aligned [of "\<lparr>rd_r = r0, rd_seq = 0, rd_max = int (length ps)\<rparr>" ps "[]"] assms(1,4) r0
    by (auto simp: points_aligned_def)
  ultimately show ?thesis using assms(3) by (simp add: Read_def)
qed

theorem writer_reader_roundtrip_witness:
  "\<exists>w r0 r1. NewWriter \<lparr>wrote = [], budget = Suc 1\<rparr> 1 = Inr w \<and>
    fst (write_points [replicate 32 7] w) = None \<and>
    NewReader [[0, 0, 0, 0, 0], [0, 0, 1], replicate 32 7] = Inr r0 \<and> read_points 1 r0 = ([replicate 32 7], None, r1)"
proof -
  have "be_put64 1 = [0, 0, 0, 0, 0, 0, 0, 1]" by (simp add: be_put64_def le_put64_def upt_rec)
  moreover have "points_aligned [[0, 0, 0, 0, 0], [0, 0, 1], replicate 32 7]"
    by (simp add: points_aligned_def aligned_def read_full.simps)
  ultimately show ?thesis
    using writer_reader_roundtrip [of "[replicate 32 7]" "[[0, 0, 0, 0, 0], [0, 0, 1], replicate 32 7]"]
    by (simp del: replicate.simps read_points.simps write_points.simps) blast
qed

text \<open>
  Property C27. Reader.Read calls Read on the connection once. When the connection delivers fewer than
  32 bytes, Read returns no error and a point made of those bytes and zeros, and the following bytes
  of the point are taken for the next one.
\<close>
theorem short_read_corrupts_point:
  assumes "rd_r r = piece # rest" and "length piece < EncodedLen" and "rd_seq r \<noteq> rd_max r"
  shows "Read zero_point r =
    (None, piece @ replicate (EncodedLen - length piece) 0, r\<lparr>rd_r := rest, rd_seq := rd_seq r + 1\<rparr>)"
  using assms by (simp add: Read_def zero_point_def)

theorem short_read_corrupts_point_witness:
  "Read zero_point \<lparr>rd_r = [replicate 20 7, replicate 12 7], rd_seq = 0, rd_max = 1\<rparr> =
    (None, replicate 20 7 @ replicate 12 0, \<lparr>rd_r = [replicate 12 7], rd_seq = 1, rd_max = 1\<rparr>)"
  using short_read_corrupts_point
    [of "\<lparr>rd_r = [replicate 20 7, replicate 12 7], rd_seq = 0, rd_max = 1\<rparr>" "replicate 20 7" "[replicate 12 7]"]
  by simp

end
