(* ===== verification/DH_Parallel.thy ===== *)
theory DH_Parallel
  imports DH_Stream
begin

text \<open>
  The parallel writer and reader of \<open>pkg/dhpsi/dhpsi_parallel.go\<close> and the worker pool of
  \<open>dhpsi_parallel_types.go\<close>. A batch handed to the pool is kept in the list of jobs until it is
  processed; the order in which the workers finish is the parameter \<open>ord\<close>.
\<close>

abbreviation batchSize :: nat where
  "batchSize \<equiv> 512"

section \<open>Batches and workers\<close>

record dmBatch =
  dmb_seq :: nat
  dmb_s :: nat
  dmb_batch :: "bytes list"
  dmb_points :: "point list"

record mBatch =
  mb_n :: nat
  mb_s :: nat
  mb_batch :: "point list"
  mb_points :: "point list"

definition makeDMBatch :: "nat \<Rightarrow> nat \<Rightarrow> dmBatch" where
  "makeDMBatch seq sz =
     \<lparr>dmb_seq = seq, dmb_s = sz, dmb_batch = replicate sz [], dmb_points = replicate sz zero_point\<rparr>"

definition makeMBatch :: "nat \<Rightarrow> nat \<Rightarrow> mBatch" where
  "makeMBatch n sz =
     \<lparr>mb_n = n, mb_s = sz, mb_batch = replicate sz zero_point, mb_points = replicate sz zero_point\<rparr>"

text \<open>The two cases of the worker loop parallelH, without the closure call.\<close>

definition parallelH_dm :: "Ristretto \<Rightarrow> dmBatch \<Rightarrow> dmBatch" where
  "parallelH_dm gr b =
     b\<lparr>dmb_points := fold (\<lambda>k ps. ps[k := DeriveMultiply gr (dmb_batch b ! k)]) [0..<length (dmb_batch b)] (dmb_points b)\<rparr>"

definition parallelH_m :: "Ristretto \<Rightarrow> mBatch \<Rightarrow> mBatch" where
  "parallelH_m gr b =
     b\<lparr>mb_points := fold (\<lambda>k ps. ps[k := Multiply gr (mb_batch b ! k)]) [0..<length (mb_batch b)] (mb_points b)\<rparr>"

section \<open>DeriveMultiplyParallelShuffler\<close>

record DeriveMultiplyParallelShuffler =
  ps_w :: io_writer
  ps_seq :: nat
  ps_max :: nat
  ps_gr :: Ristretto
  ps_p :: "int \<Rightarrow> int option"
  ps_b :: dmBatch
  ps_jobs :: "dmBatch list"
  ps_points :: "point list"

definition NewDeriveMultiplyParallelShuffler ::
  "nat result \<Rightarrow> io_writer \<Rightarrow> nat \<Rightarrow> Ristretto \<Rightarrow> DeriveMultiplyParallelShuffler result" where
  "NewDeriveMultiplyParallelShuffler src w n gr =
     (case io_write (be_put64 (of_nat n)) w of
        (Some e, w) \<Rightarrow> Inl e
      | (None, w) \<Rightarrow>
          let b = makeDMBatch 0 (min batchSize n) in
          bind_res (kensler_or_zero src n) (\<lambda>k.
            Inr \<lparr>ps_w = w, ps_seq = 0, ps_max = n, ps_gr = gr, ps_p = Shuffle_kensler k, ps_b = b,
                 ps_jobs = [], ps_points = replicate n zero_point\<rparr>))"

text \<open>The closure \<open>f\<close> of a finished batch copies its points to their place.\<close>

definition dm_closure :: "dmBatch \<Rightarrow> point list \<Rightarrow> point list result" where
  "dm_closure b points =
     fold_res (\<lambda>k ps. go_set ps (k + dmb_seq b) (dmb_points b ! k)) [0..<length (dmb_points b)] points"

text \<open>All jobs have finished, in the order \<open>ord\<close> of their positions in the list.\<close>

definition wait_jobs :: "nat list \<Rightarrow> DeriveMultiplyParallelShuffler \<Rightarrow> DeriveMultiplyParallelShuffler result" where
  "wait_jobs ord enc =
     bind_res (fold_res (\<lambda>j. dm_closure (parallelH_dm (ps_gr enc) (ps_jobs enc ! j))) ord (ps_points enc)) (\<lambda>pts.
       Inr (enc\<lparr>ps_points := pts, ps_jobs := []\<rparr>))"

fun ps_flush :: "nat list \<Rightarrow> DeriveMultiplyParallelShuffler \<Rightarrow>
    (error option \<times> DeriveMultiplyParallelShuffler) result option" where
  "ps_flush [] enc = Some (Inr (None, enc))"
| "ps_flush (i # is) enc =
     Option.bind (ps_p enc (int i)) (\<lambda>pos.
       case (if pos < 0 then Inl IndexOutOfRange else go_nth (ps_points enc) (nat pos)) of
         Inl e \<Rightarrow> Some (Inl e)
       | Inr p \<Rightarrow>
           (case io_write p (ps_w enc) of
              (Some e, w) \<Rightarrow> Some (Inr (Some e, enc\<lparr>ps_w := w\<rparr>))
            | (None, w) \<Rightarrow> ps_flush is (enc\<lparr>ps_w := w\<rparr>)))"

definition Shuffle_ps :: "nat list \<Rightarrow> bytes \<Rightarrow> DeriveMultiplyParallelShuffler \<Rightarrow>
    (error option \<times> DeriveMultiplyParallelShuffler) result option" where
  "Shuffle_ps ord identifier enc =
     (if ps_seq enc = ps_max enc then Some (Inr (Some ErrUnexpectedPoint, enc))
      else
        let next = ps_seq enc mod batchSize; b = ps_b enc in
        case go_set (dmb_batch b) next identifier of
          Inl e \<Rightarrow> Some (Inl e)
        | Inr batch \<Rightarrow>
            let b = b\<lparr>dmb_batch := batch\<rparr>;
                enc = enc\<lparr>ps_b := b, ps_seq := ps_seq enc + 1\<rparr>;
                enc = (if next + 1 = dmb_s b
                       then let enc = enc\<lparr>ps_jobs := ps_jobs enc @ [b]\<rparr>;
                                s = min batchSize (ps_max enc - ps_seq enc)
                            in if s \<noteq> 0 then enc\<lparr>ps_b := makeDMBatch (ps_seq enc) s\<rparr> else enc
                       else enc)
            in if ps_seq enc = ps_max enc
               then (case wait_jobs ord enc of
                       Inl e \<Rightarrow> Some (Inl e)
                     | Inr enc \<Rightarrow> ps_flush [0..<ps_max enc] enc)
               else Some (Inr (None, enc)))"

fun ps_run :: "nat list \<Rightarrow> bytes list \<Rightarrow> DeriveMultiplyParallelShuffler \<Rightarrow>
    (error option \<times> DeriveMultiplyParallelShuffler) result option" where
  "ps_run ord [] enc = Some (Inr (None, enc))"
| "ps_run ord (x # xs) enc =
     Option.bind (Shuffle_ps ord x enc) (\<lambda>r.
       case r of
         Inl e \<Rightarrow> Some (Inl e)
       | Inr (Some e, enc) \<Rightarrow> Some (Inr (Some e, enc))
       | Inr (None, enc) \<Rightarrow> ps_run ord xs enc)"

section \<open>The parallel reader\<close>

text \<open>The batches that the polling goroutine of \<open>fill\<close> makes out of the points it reads.\<close>

fun poll_batch :: "nat \<Rightarrow> nat \<Rightarrow> mBatch \<Rightarrow> Reader \<Rightarrow> error option \<times> mBatch \<times> Reader" where
  "poll_batch 0 j b r = (None, b, r)"
| "poll_batch (Suc m) j b r =
     (case Read (mb_batch b ! j) r of
        (Some e, _, r) \<Rightarrow> (Some e, b, r)
      | (None, p, r) \<Rightarrow> poll_batch m (Suc j) (b\<lparr>mb_batch := (mb_batch b)[j := p]\<rparr>) r)"

fun poll :: "nat \<Rightarrow> nat \<Rightarrow> Reader \<Rightarrow> error option \<times> mBatch list \<times> Reader" where
  "poll 0 i r = (None, [], r)"
| "poll (Suc m) i r =
     (let b = makeMBatch i (nat (min (int batchSize) (rd_max r - rd_seq r))) in
      case poll_batch (mb_s b) 0 b r of
        (Some e, _, r) \<Rightarrow> (Some e, [], r)
      | (None, b, r) \<Rightarrow> (let (e, bs, r) = poll m (Suc i) r in (e, b # bs, r)))"

definition totalBatches :: "int \<Rightarrow> int" where
  "totalBatches mx = (let t = mx sdiv int batchSize in if mx smod int batchSize \<noteq> 0 then t + 1 else t)"

text \<open>
  The consuming goroutine of \<open>fill\<close>: a finished batch is sent on when it is its turn and kept in the
  ring otherwise; after each batch at most one batch of the ring is sent.
\<close>

record consumer =
  ring :: "nat \<rightharpoonup> mBatch"
  sent :: nat
  out :: "point list"

definition copyOut :: "mBatch \<Rightarrow> consumer \<Rightarrow> consumer" where
  "copyOut b c = c\<lparr>out := out c @ mb_points b\<rparr>"

definition consume :: "mBatch \<Rightarrow> consumer \<Rightarrow> consumer" where
  "consume b c =
     (let c = (if sent c = mb_n b then (copyOut b c)\<lparr>sent := sent c + 1\<rparr> else c\<lparr>ring := (ring c)(mb_n b \<mapsto> b)\<rparr>)
      in case ring c (sent c) of
           Some b' \<Rightarrow> (copyOut b' c)\<lparr>ring := (ring c)(sent c := None), sent := sent c + 1\<rparr>
         | None \<Rightarrow> c)"

text \<open>A missing key of the ring would give the zero batch, without points.\<close>

definition flush_ring :: "consumer \<Rightarrow> consumer" where
  "flush_ring c =
     fold (\<lambda>i c. case ring c (sent c + i) of Some b \<Rightarrow> copyOut b c | None \<Rightarrow> c) [0..<card (dom (ring c))] c"

definition consume_all :: "mBatch list \<Rightarrow> consumer" where
  "consume_all bs = flush_ring (fold consume bs \<lparr>ring = (\<lambda>_. None), sent = 0, out = []\<rparr>)"

text \<open>
  The points that \<open>fill\<close> puts on the channel before it closes it; \<open>ord\<close> is the order in which the
  batches come back from the workers. When reading fails the polling goroutine closes the channel of
  batches, and which points have got through by then depends on the schedule: they are the parameter
  \<open>early\<close>. The interleavings themselves, panics included, are the subject of the theory DH_Fill.
\<close>

definition fill :: "nat list \<Rightarrow> point list \<Rightarrow> Reader \<Rightarrow> Ristretto \<Rightarrow> point list" where
  "fill ord early r gr =
     (case poll (nat (totalBatches (rd_max r))) 0 r of
        (Some e, _, _) \<Rightarrow> early
      | (None, bs, _) \<Rightarrow> out (consume_all (map (\<lambda>n. parallelH_m gr (bs ! n)) ord)))"

record MultiplyParallelReader =
  mpr_max :: int
  mpr_seq :: int
  mpr_bus :: "point list"

definition NewMultiplyParallelReader :: "nat list \<Rightarrow> point list \<Rightarrow> io_reader \<Rightarrow> Ristretto \<Rightarrow> MultiplyParallelReader result" where
  "NewMultiplyParallelReader ord early r gr =
     bind_res (NewReader r) (\<lambda>rr.
       Inr \<lparr>mpr_max = rd_max rr, mpr_seq = 0, mpr_bus = fill ord early rr gr\<rparr>)"

text \<open>Receiving from a closed channel that is drained reports that it is not open.\<close>

definition Read_mpr :: "point \<Rightarrow> MultiplyParallelReader \<Rightarrow> error option \<times> point \<times> MultiplyParallelReader" where
  "Read_mpr p dec =
     (if mpr_seq dec = mpr_max dec then (Some EOF, p, dec)
      else case mpr_bus dec of
        [] \<Rightarrow> (Some ErrUnexpectedEOF, p, dec)
      | q # bus \<Rightarrow> (None, q, dec\<lparr>mpr_seq := mpr_seq dec + 1, mpr_bus := bus\<rparr>))"

section \<open>Workers\<close>

lemma fold_fill_points:
  assumes "length ps = length xs"
  shows "fold (\<lambda>k ps. ps[k := f (xs ! k)]) [0..<length xs] ps = map f xs"
  using assms nth_fold_update_upt [of "length xs" ps _ "\<lambda>k _. f (xs ! k)"] by (intro nth_equalityI) auto

lemma parallelH_m_points: "length (mb_points b) = length (mb_batch b) \<Longrightarrow>
    mb_points (parallelH_m gr b) = map (Multiply gr) (mb_batch b) \<and> mb_n (parallelH_m gr b) = mb_n b"
  by (simp add: parallelH_m_def fold_fill_points)

lemma parallelH_dm_points: "length (dmb_points b) = length (dmb_batch b) \<Longrightarrow>
    parallelH_dm gr b = b\<lparr>dmb_points := map (DeriveMultiply gr) (dmb_batch b)\<rparr>"
  by (simp add: parallelH_dm_def fold_fill_points)

section \<open>The consumer restores the order\<close>

definition consumer_inv :: "(nat \<Rightarrow> mBatch) \<Rightarrow> nat set \<Rightarrow> consumer \<Rightarrow> bool" where
  "consumer_inv B R c \<longleftrightarrow> {..<sent c} \<subseteq> R \<and> out c = concat (map (\<lambda>n. mb_points (B n)) [0..<sent c]) \<and>
     ring c = (\<lambda>k. if k \<in> R \<and> sent c \<le> k then Some (B k) else None)"

lemma consume_inv:
  assumes inv: "consumer_inv B R c" and n: "mb_n (B n) = n" "n \<notin> R"
  shows "consumer_inv B (insert n R) (consume (B n) c)"
proof -
  have less: "sent c \<le> n" using inv n(2) by (auto simp: consumer_inv_def not_less [symmetric])
  define c1 where "c1 = (if sent c = n then (copyOut (B n) c)\<lparr>sent := sent c + 1\<rparr> else c\<lparr>ring := (ring c)(n \<mapsto> B n)\<rparr>)"
  have inv1: "consumer_inv B (insert n R) c1"
    using inv less n(2) by (auto simp: consumer_inv_def c1_def copyOut_def fun_eq_iff lessThan_Suc)
      (metis Suc_leI le_neq_implies_less)
  have "consume (B n) c = (case ring c1 (sent c1) of
      Some b' \<Rightarrow> (copyOut b' c1)\<lparr>ring := (ring c1)(sent c1 := None), sent := sent c1 + 1\<rparr> | None \<Rightarrow> c1)"
    unfolding consume_def Let_def n(1) c1_def [symmetric] ..
  moreover have "consumer_inv B R' ((copyOut (B (sent c1)) c1)\<lparr>ring := (ring c1)(sent c1 := None), sent := sent c1 + 1\<rparr>)"
    if "consumer_inv B R' c1" "sent c1 \<in> R'" for R'
    using that by (auto simp: consumer_inv_def copyOut_def fun_eq_iff lessThan_Suc)
  ultimately show ?thesis
    using inv1 by (auto simp: consumer_inv_def [of B "insert n R" c1] split: option.splits if_splits)
qed

lemma fold_consume_inv:
  assumes "consumer_inv B R c" and "distinct ns" and "set ns \<inter> R = {}" and "\<forall>n\<in>set ns. mb_n (B n) = n"
  shows "consumer_inv B (R \<union> set ns) (fold consume (map B ns) c)"
  using assms
proof (induction ns arbitrary: R c)
  case (Cons n ns)
  have "consumer_inv B (insert n R \<union> set ns) (fold consume (map B ns) (consume (B n) c))"
    using Cons.prems by (intro Cons.IH consume_inv) auto
  then show ?case by simp
qed simp

lemma flush_ring_inv:
  assumes "consumer_inv B {..<t} c"
  shows "out (flush_ring c) = concat (map (\<lambda>n. mb_points (B n)) [0..<t])"
proof -
  have s: "sent c \<le> t" and ring: "ring c = (\<lambda>k. if k < t \<and> sent c \<le> k then Some (B k) else None)"
    and out: "out c = concat (map (\<lambda>n. mb_points (B n)) [0..<sent c])"
    using assms by (auto simp: consumer_inv_def)
  have dom: "dom (ring c) = {sent c..<t}" by (auto simp: ring dom_def)
  have "fold (\<lambda>i c. case ring c (sent c + i) of Some b \<Rightarrow> copyOut b c | None \<Rightarrow> c) [0..<m] c =
      c\<lparr>out := concat (map (\<lambda>n. mb_points (B n)) [0..<sent c + m])\<rparr>" if "m \<le> t - sent c" for m
    using that by (induction m) (simp_all add: out ring copyOut_def)
  from this [of "t - sent c"] s show ?thesis by (simp add: flush_ring_def dom)
qed

lemma consume_all_in_order:
  assumes "mset ns = mset [0..<t]" and "\<forall>n<t. mb_n (B n) = n"
  shows "out (consume_all (map B ns)) = concat (map (\<lambda>n. mb_points (B n)) [0..<t])"
proof -
  have ns: "distinct ns" "set ns = {..<t}"
    using mset_eq_upt_distinct [OF assms(1)] by (auto simp: atLeast0LessThan)
  have "consumer_inv B {} \<lparr>ring = (\<lambda>_. None), sent = 0, out = []\<rparr>" by (simp add: consumer_inv_def)
  from fold_consume_inv [OF this ns(1)] ns assms(2) show ?thesis
    by (simp add: consume_all_def flush_ring_inv)
qed

section \<open>Polling\<close>

text \<open>What \<open>Reader\<close> delivers point by point is what ends up in the batches.\<close>

lemma poll_batch_spec:
  assumes "read_points (length ps) r = (ps, None, r')" and "length (mb_batch b) = j + length ps"
    and "\<forall>k. j \<le> k \<and> k < length (mb_batch b) \<longrightarrow> mb_batch b ! k = zero_point"
  shows "poll_batch (length ps) j b r = (None, b\<lparr>mb_batch := take j (mb_batch b) @ ps\<rparr>, r')"
  using assms
proof (induction ps arbitrary: r j b)
  case (Cons p ps)
  have z: "mb_batch b ! j = zero_point" using Cons.prems(2,3) by simp
  obtain r1 where r1: "Read zero_point r = (None, p, r1)" "read_points (length ps) r1 = (ps, None, r')"
    using Cons.prems(1) by (auto split: prod.splits option.splits)
  let ?b = "b\<lparr>mb_batch := (mb_batch b)[j := p]\<rparr>"
  have j: "j < length (mb_batch b)" using Cons.prems(2) by simp
  have "poll_batch (length ps) (Suc j) ?b r1 = (None, ?b\<lparr>mb_batch := take (Suc j) (mb_batch ?b) @ ps\<rparr>, r')"
    using Cons.prems(2,3) r1(2) by (intro Cons.IH) auto
  with z r1(1) j show ?case by (simp add: take_Suc_conv_app_nth)
qed simp

text \<open>The batches of a sequence of points.\<close>

definition batch_of :: "nat \<Rightarrow> point list \<Rightarrow> mBatch" where
  "batch_of i ps = \<lparr>mb_n = i, mb_s = length ps, mb_batch = ps, mb_points = replicate (length ps) zero_point\<rparr>"

fun batches :: "nat \<Rightarrow> nat \<Rightarrow> point list \<Rightarrow> mBatch list" where
  "batches 0 i ps = []"
| "batches (Suc m) i ps = batch_of i (take batchSize ps) # batches m (Suc i) (drop batchSize ps)"

lemma length_batches [simp]: "length (batches m i ps) = m"
  by (induction m arbitrary: i ps) auto

lemma batches_nth: "k < m \<Longrightarrow> \<exists>qs. batches m i ps ! k = batch_of (i + k) qs"
proof (induction m arbitrary: i ps k)
  case (Suc m)
  then show ?case using Suc.IH [of "k - 1" "Suc i" "drop batchSize ps"] by (cases k) auto
qed simp

lemma concat_batches:
  "length ps \<le> batchSize * m \<Longrightarrow> concat (map (\<lambda>b. map f (mb_batch b)) (batches m i ps)) = map f ps"
proof (induction m arbitrary: i ps)
  case (Suc m)
  then show ?case by (simp add: batch_of_def flip: map_append)
qed simp

lemma poll_spec:
  assumes "read_points (length ps) r = (ps, None, r')"
    and "rd_max r = rd_seq r + int (length ps)" and "length ps \<le> batchSize * m"
  shows "poll m i r = (None, batches m i ps, r')"
  using assms
proof (induction m arbitrary: i r ps)
  case (Suc m)
  let ?qs = "take batchSize ps"
  let ?b = "makeMBatch i (length ?qs)"
  have sz: "nat (min (int batchSize) (rd_max r - rd_seq r)) = length ?qs" using Suc.prems(2) by simp
  have "read_points (length ?qs + length (drop batchSize ps)) r = (?qs @ drop batchSize ps, None, r')"
    using Suc.prems(1) by (metis append_take_drop_id length_append)
  from read_points_split [OF this] obtain r1 where
    r1: "read_points (length ?qs) r = (?qs, None, r1)" "read_points (length (drop batchSize ps)) r1 = (drop batchSize ps, None, r')" by blast
  note seq = read_points_seq [OF r1(1)]
  have "poll_batch (length ?qs) 0 ?b r = (None, ?b\<lparr>mb_batch := take 0 (mb_batch ?b) @ ?qs\<rparr>, r1)"
    using r1(1) by (intro poll_batch_spec) (auto simp: makeMBatch_def)
  then have batch: "poll_batch (length ?qs) 0 ?b r = (None, batch_of i ?qs, r1)" by (simp add: makeMBatch_def batch_of_def)
  have "poll m (Suc i) r1 = (None, batches m (Suc i) (drop batchSize ps), r')"
    using Suc.prems r1(2) seq by (intro Suc.IH) auto
  moreover have "mb_s ?b = length ?qs" by (simp add: makeMBatch_def)
  ultimately show ?case unfolding poll.simps sz Let_def using batch by auto
qed simp

lemma totalBatches_eq:
  assumes "0 \<le> n"
  shows "totalBatches n = (n + 511) div 512"
proof -
  have "totalBatches n = (if n mod 512 \<noteq> 0 then n div 512 + 1 else n div 512)"
    using assms by (simp add: totalBatches_def signed_divide_int_def signed_modulo_int_def Let_def sgn_if)
  moreover have "(n + 511) div 512 = (if n mod 512 \<noteq> 0 then n div 512 + 1 else n div 512)"
  proof (cases "n mod 512 = 0")
    case True
    then show ?thesis using mult_div_mod_eq [of 512 n] by (intro int_div_pos_eq [where r = 511]) auto
  next
    case False
    have "0 \<le> n mod 512" "n mod 512 < 512" by simp_all
    with False show ?thesis using mult_div_mod_eq [of 512 n]
      by (intro int_div_pos_eq [where r = "n mod 512 - 1"]) auto
  qed
  ultimately show ?thesis by simp
qed

section \<open>The parallel shuffler\<close>

text \<open>
  The batches handed over cover the identifiers read so far; the current batch holds the rest. The
  batch number \<open>j\<close> of the jobs starts at \<open>512 * j\<close>.
\<close>

definition dm_batch_of :: "bytes list \<Rightarrow> nat \<Rightarrow> dmBatch" where
  "dm_batch_of ids j = (let qs = sub_list ids (batchSize * j) batchSize in
     \<lparr>dmb_seq = batchSize * j, dmb_s = length qs, dmb_batch = qs, dmb_points = replicate (length qs) zero_point\<rparr>)"

definition ps_inv :: "bytes list \<Rightarrow> DeriveMultiplyParallelShuffler \<Rightarrow> bool" where
  "ps_inv ids enc \<longleftrightarrow> ps_max enc = length ids \<and> ps_seq enc < ps_max enc \<and>
     length (ps_points enc) = length ids \<and>
     (let j = ps_seq enc div batchSize; k = ps_seq enc mod batchSize;
          s = min batchSize (length ids - batchSize * j) in
      ps_jobs enc = map (dm_batch_of ids) [0..<j] \<and>
      dmb_seq (ps_b enc) = batchSize * j \<and> dmb_s (ps_b enc) = s \<and>
      dmb_points (ps_b enc) = replicate s zero_point \<and>
      length (dmb_batch (ps_b enc)) = s \<and> take k (dmb_batch (ps_b enc)) = take k (drop (batchSize * j) ids))"

lemma dm_closure_eq:
  assumes "dmb_seq b + length (dmb_points b) \<le> length pts"
  shows "dm_closure b pts = Inr (write_at pts (dmb_seq b) (dmb_points b))"
proof -
  let ?g = "\<lambda>k ps. ps[dmb_seq b + k := dmb_points b ! k]"
  have "dm_closure b pts = Inr (fold ?g [0..<length (dmb_points b)] pts)"
    unfolding dm_closure_def using assms
    by (intro fold_res_pure [where P = "\<lambda>ps. length ps = length pts", THEN conjunct1]) (auto simp: add.commute)
  moreover have "fold ?g [0..<length (dmb_points b)] pts = write_at pts (dmb_seq b) (dmb_points b)"
    using assms nth_fold_update_base [OF assms, of _ "\<lambda>k _. dmb_points b ! k"]
    by (intro nth_equalityI) (auto simp: nth_write_at)
  ultimately show ?thesis by simp
qed

lemma job_eq:
  assumes "batchSize * j < length ids" and "length pts = length ids"
  shows "dm_closure (parallelH_dm gr (dm_batch_of ids j)) pts =
    Inr (write_at pts (batchSize * j) (map (DeriveMultiply gr) (sub_list ids (batchSize * j) batchSize)))"
proof -
  have "parallelH_dm gr (dm_batch_of ids j) =
      (dm_batch_of ids j)\<lparr>dmb_points := map (DeriveMultiply gr) (sub_list ids (batchSize * j) batchSize)\<rparr>"
    by (subst parallelH_dm_points) (simp_all add: dm_batch_of_def Let_def)
  then show ?thesis using assms by (subst dm_closure_eq) (simp_all add: dm_batch_of_def Let_def)
qed

lemma jobs_spec:
  assumes "length pts = length ids" and "\<forall>j\<in>set ord. batchSize * j < length ids"
  shows "\<exists>pts'. fold_res (\<lambda>j. dm_closure (parallelH_dm gr (dm_batch_of ids j))) ord pts = Inr pts' \<and>
    length pts' = length ids \<and>
    (\<forall>i<length ids. pts' ! i = (if i div batchSize \<in> set ord then DeriveMultiply gr (ids ! i) else pts ! i))"
  using assms
proof (induction ord arbitrary: pts)
  case (Cons j ord)
  let ?xs = "map (DeriveMultiply gr) (sub_list ids (batchSize * j) batchSize)"
  let ?pts = "write_at pts (batchSize * j) ?xs"
  have j: "batchSize * j < length ids" using Cons.prems(2) by simp
  then have fit: "batchSize * j + length ?xs \<le> length pts" using Cons.prems(1) by simp
  then have len: "length ?pts = length ids" using Cons.prems(1) by simp
  have nth: "?pts ! i = (if i div batchSize = j then DeriveMultiply gr (ids ! i) else pts ! i)" if "i < length ids" for i
  proof -
    have "i div batchSize = j \<longleftrightarrow> batchSize * j \<le> i \<and> i < batchSize * j + batchSize" by auto
    then have "i div batchSize = j \<longleftrightarrow> batchSize * j \<le> i \<and> i < batchSize * j + length ?xs" using that by auto
    moreover have "?xs ! (i - batchSize * j) = DeriveMultiply gr (ids ! i)"
      if "batchSize * j \<le> i" "i < batchSize * j + length ?xs"
    proof -
      from that have "i - batchSize * j < length (sub_list ids (batchSize * j) batchSize)" "i - batchSize * j < batchSize" by auto
      with that(1) \<open>i < length ids\<close> show ?thesis by simp
    qed
    ultimately show ?thesis using nth_write_at [OF fit, of i] that Cons.prems(1) by simp
  qed
  obtain pts' where "fold_res (\<lambda>j. dm_closure (parallelH_dm gr (dm_batch_of ids j))) ord ?pts = Inr pts'"
      "length pts' = length ids"
      "\<forall>i<length ids. pts' ! i = (if i div batchSize \<in> set ord then DeriveMultiply gr (ids ! i) else ?pts ! i)"
    using Cons.IH [OF len] Cons.prems(2) by auto
  with job_eq [OF j Cons.prems(1), of gr] nth show ?case by auto
qed simp

lemma wait_jobs_spec:
  assumes "ps_jobs enc = map (dm_batch_of ids) [0..<t]" and "mset ord = mset [0..<t]" and "length (ps_points enc) = length ids"
    and "length ids \<le> batchSize * t" and "\<forall>j<t. batchSize * j < length ids"
  shows "wait_jobs ord enc = Inr (enc\<lparr>ps_points := map (DeriveMultiply (ps_gr enc)) ids, ps_jobs := []\<rparr>)"
proof -
  have ord: "set ord = {..<t}" using mset_eq_upt_distinct [OF assms(2)] by (simp add: atLeast0LessThan)
  have "fold_res (\<lambda>j. dm_closure (parallelH_dm (ps_gr enc) (ps_jobs enc ! j))) ord (ps_points enc) =
      fold_res (\<lambda>j. dm_closure (parallelH_dm (ps_gr enc) (dm_batch_of ids j))) ord (ps_points enc)"
    using ord assms(1) by (intro fold_res_cong) (auto simp: fun_eq_iff)
  moreover obtain pts where "fold_res (\<lambda>j. dm_closure (parallelH_dm (ps_gr enc) (dm_batch_of ids j))) ord (ps_points enc) = Inr pts"
      "length pts = length ids"
      "\<forall>i<length ids. pts ! i = (if i div batchSize \<in> set ord then DeriveMultiply (ps_gr enc) (ids ! i) else ps_points enc ! i)"
    using jobs_spec [OF assms(3), of ord "ps_gr enc"] assms(5) ord by auto
  moreover have "i div batchSize \<in> set ord" if "i < length ids" for i
    using that assms(4) ord by (simp add: less_mult_imp_div_less mult.commute)
  moreover from calculation have "pts = map (DeriveMultiply (ps_gr enc)) ids" by (intro nth_equalityI) auto
  ultimately show ?thesis by (simp add: wait_jobs_def)
qed

context permutation
begin

lemma ps_flush_spec:
  assumes "valid s n" and "ps_p enc = shuffle s" and "m \<le> n" and "ps_points enc = map f ids" and "length ids = n"
    and "wrote (ps_w enc) = hdr @ permuted_points f (pos s) ids m" and "n \<le> budget (ps_w enc) + m"
  shows "\<exists>w. ps_flush [m..<n] enc = Some (Inr (None, enc\<lparr>ps_w := w\<rparr>)) \<and> wrote w = hdr @ permuted_points f (pos s) ids n"
  using assms(2-)
proof (induction "n - m" arbitrary: m enc)
  case 0
  then have "m = n" by simp
  with 0 show ?case by (intro exI [of _ "ps_w enc"]) simp
next
  case (Suc k)
  then have m: "m < n" by simp
  let ?w = "\<lparr>wrote = wrote (ps_w enc) @ f (ids ! pos s m), budget = budget (ps_w enc) - 1\<rparr>"
  have "go_nth (ps_points enc) (pos s m) = Inr (f (ids ! pos s m))"
    using Suc.prems(3,4) pos_less [OF assms(1) m] by simp
  then have step: "ps_flush [m..<n] enc = ps_flush [Suc m..<n] (enc\<lparr>ps_w := ?w\<rparr>)"
    using m Suc.prems by (simp add: upt_conv_Cons shuffle_pos [OF assms(1)] io_write_def)
  have "\<exists>w. ps_flush [Suc m..<n] (enc\<lparr>ps_w := ?w\<rparr>) = Some (Inr (None, enc\<lparr>ps_w := ?w\<rparr>\<lparr>ps_w := w\<rparr>)) \<and>
      wrote w = hdr @ permuted_points f (pos s) ids n"
    using Suc.prems Suc.hyps(2) m by (intro Suc.hyps(1)) (simp_all add: permuted_points_Suc)
  with step show ?case by simp
qed

end

text \<open>Reading one more identifier.\<close>

lemma batch_step:
  assumes inv: "ps_inv ids enc"
  defines "q \<equiv> ps_seq enc" and "b \<equiv> ps_b enc"
  defines "j \<equiv> q div batchSize" and "k \<equiv> q mod batchSize"
  defines "b' \<equiv> b\<lparr>dmb_batch := (dmb_batch b)[k := ids ! q]\<rparr>"
  shows "go_set (dmb_batch b) k (ids ! q) = Inr ((dmb_batch b)[k := ids ! q])"
    and "k + 1 = dmb_s b \<Longrightarrow> b' = dm_batch_of ids j"
    and "take (k + 1) (dmb_batch b') = take (k + 1) (drop (batchSize * j) ids)"
    and "k + 1 \<le> dmb_s b"
proof -
  have q: "q = batchSize * j + k" "k < batchSize" "q < length ids" using inv by (auto simp: q_def j_def k_def ps_inv_def)
  have b: "dmb_seq b = batchSize * j" "dmb_s b = min batchSize (length ids - batchSize * j)"
    "dmb_points b = replicate (dmb_s b) zero_point" "length (dmb_batch b) = dmb_s b"
    "take k (dmb_batch b) = take k (drop (batchSize * j) ids)"
    using inv by (simp_all add: ps_inv_def Let_def q_def j_def k_def b_def)
  have k: "k < dmb_s b" using q b(2) by simp
  then show "go_set (dmb_batch b) k (ids ! q) = Inr ((dmb_batch b)[k := ids ! q])" "k + 1 \<le> dmb_s b"
    using b(4) by simp_all
  have "drop (batchSize * j) ids ! k = ids ! q" using q by simp
  then show t: "take (k + 1) (dmb_batch b') = take (k + 1) (drop (batchSize * j) ids)"
    using k b(4,5) q by (simp add: b'_def take_Suc_conv_app_nth)
  show "b' = dm_batch_of ids j" if "k + 1 = dmb_s b"
  proof -
    have len: "length (sub_list ids (batchSize * j) batchSize) = dmb_s b" using b(2) by simp
    have "dmb_batch b' = take (k + 1) (dmb_batch b')" using that b(4) by (simp add: b'_def)
    also have "\<dots> = sub_list ids (batchSize * j) batchSize"
      using t that b(2) by (simp add: sub_list_def) (metis length_drop min.commute take_all_iff take_take nle_le)
    finally show ?thesis using b(1,3) len by (simp add: dm_batch_of_def Let_def b'_def)
  qed
qed

text \<open>The state after an identifier has been stored and a full batch has been handed over.\<close>

definition ps_advance :: "bytes \<Rightarrow> DeriveMultiplyParallelShuffler \<Rightarrow> DeriveMultiplyParallelShuffler" where
  "ps_advance x enc =
     (let k = ps_seq enc mod batchSize; b = (ps_b enc)\<lparr>dmb_batch := (dmb_batch (ps_b enc))[k := x]\<rparr>;
          enc = enc\<lparr>ps_b := b, ps_seq := ps_seq enc + 1\<rparr>
      in if k + 1 = dmb_s b
         then let enc = enc\<lparr>ps_jobs := ps_jobs enc @ [b]\<rparr>; s = min batchSize (ps_max enc - ps_seq enc)
              in if s \<noteq> 0 then enc\<lparr>ps_b := makeDMBatch (ps_seq enc) s\<rparr> else enc
         else enc)"

lemma ps_advance_frame [simp]:
  "ps_w (ps_advance x enc) = ps_w enc" "ps_max (ps_advance x enc) = ps_max enc" "ps_gr (ps_advance x enc) = ps_gr enc"
  "ps_p (ps_advance x enc) = ps_p enc" "ps_points (ps_advance x enc) = ps_points enc" "ps_seq (ps_advance x enc) = ps_seq enc + 1"
  by (simp_all add: ps_advance_def Let_def)

lemma Shuffle_ps_eq:
  assumes "ps_inv ids enc"
  shows "Shuffle_ps ord (ids ! ps_seq enc) enc =
    (let enc = ps_advance (ids ! ps_seq enc) enc in
     if ps_seq enc = ps_max enc
     then (case wait_jobs ord enc of Inl e \<Rightarrow> Some (Inl e) | Inr enc \<Rightarrow> ps_flush [0..<ps_max enc] enc)
     else Some (Inr (None, enc)))"
proof -
  have "ps_seq enc \<noteq> ps_max enc" using assms by (simp add: ps_inv_def)
  then show ?thesis using batch_step(1) [OF assms]
    unfolding Shuffle_ps_def ps_advance_def Let_def by (simp only: if_False sum.case dmBatch.simps)
qed

lemma ps_sel:
  "ps_max (enc\<lparr>ps_b := b, ps_seq := q\<rparr>) = ps_max enc" "ps_seq (enc\<lparr>ps_b := b, ps_seq := q\<rparr>) = q"
  "ps_points (enc\<lparr>ps_b := b, ps_seq := q\<rparr>) = ps_points enc" "ps_jobs (enc\<lparr>ps_b := b, ps_seq := q\<rparr>) = ps_jobs enc"
  "ps_b (enc\<lparr>ps_b := b, ps_seq := q\<rparr>) = b" "dmb_seq (b\<lparr>dmb_batch := xs\<rparr>) = dmb_seq b"
  "dmb_s (b\<lparr>dmb_batch := xs\<rparr>) = dmb_s b" "dmb_points (b\<lparr>dmb_batch := xs\<rparr>) = dmb_points b"
  "dmb_batch (b\<lparr>dmb_batch := xs\<rparr>) = xs"
  by simp_all

lemma ps_inv_fresh:
  assumes "ps_max enc = length ids" and "length (ps_points enc) = length ids" and "ps_seq enc = batchSize * j"
    and "ps_seq enc < length ids" and "ps_jobs enc = map (dm_batch_of ids) [0..<j]"
    and "ps_b enc = makeDMBatch (batchSize * j) (min batchSize (length ids - batchSize * j))"
  shows "ps_inv ids enc"
  using assms by (simp add: ps_inv_def Let_def makeDMBatch_def)

lemma ps_advance_inv:
  assumes inv: "ps_inv ids enc" and more: "ps_seq enc + 1 < length ids"
  shows "ps_inv ids (ps_advance (ids ! ps_seq enc) enc)"
proof -
  let ?q = "ps_seq enc" let ?j = "?q div batchSize" let ?k = "?q mod batchSize"
  let ?b = "(ps_b enc)\<lparr>dmb_batch := (dmb_batch (ps_b enc))[?k := ids ! ?q]\<rparr>"
  note st = batch_step [OF inv]
  have q: "?q = batchSize * ?j + ?k" "?k < batchSize" by simp_all
  have i: "ps_max enc = length ids" "length (ps_points enc) = length ids" "ps_jobs enc = map (dm_batch_of ids) [0..<?j]"
    "dmb_seq (ps_b enc) = batchSize * ?j" "dmb_s (ps_b enc) = min batchSize (length ids - batchSize * ?j)"
    "dmb_points (ps_b enc) = replicate (dmb_s (ps_b enc)) zero_point" "length (dmb_batch (ps_b enc)) = dmb_s (ps_b enc)"
    using inv by (simp_all add: ps_inv_def Let_def)
  show ?thesis
  proof (cases "?k + 1 = dmb_s (ps_b enc)")
    case True
    then have k: "?k + 1 = batchSize" using i(5) more q by linarith
    then have q1: "?q + 1 = batchSize * (?j + 1)" using q(1) by simp
    have "ps_advance (ids ! ?q) enc = enc\<lparr>ps_b := makeDMBatch (?q + 1) (min batchSize (length ids - (?q + 1))),
        ps_seq := ?q + 1, ps_jobs := ps_jobs enc @ [dm_batch_of ids ?j]\<rparr>"
      using True st(2) more i(1) by (simp add: ps_advance_def Let_def)
    then have adv: "ps_advance (ids ! ?q) enc = enc\<lparr>ps_b := makeDMBatch (batchSize * (?j + 1))
        (min batchSize (length ids - batchSize * (?j + 1))), ps_seq := batchSize * (?j + 1),
        ps_jobs := map (dm_batch_of ids) [0..<?j] @ [dm_batch_of ids ?j]\<rparr>"
      by (simp only: q1 i(3))
    have "batchSize * (?j + 1) < length ids" using more q1 by linarith
    then show ?thesis unfolding adv using i(1,2) by (intro ps_inv_fresh [where j = "?j + 1"]) simp_all
  next
    case False
    then have k: "?k + 1 < batchSize" using st(4) i(5) min.cobounded1 [of batchSize "length ids - batchSize * ?j"] by linarith
    then have d: "(?q + 1) div batchSize = ?j" "(?q + 1) mod batchSize = ?k + 1"
      by (simp_all add: div_Suc mod_Suc)
    have adv: "ps_advance (ids ! ?q) enc = enc\<lparr>ps_b := ?b, ps_seq := ?q + 1\<rparr>"
      using False by (simp add: ps_advance_def Let_def)
    show ?thesis unfolding adv ps_inv_def Let_def using i more st(3)
      by (intro conjI) (simp_all only: d ps_sel list.size length_list_update)
  qed
qed

lemma ps_advance_last:
  assumes inv: "ps_inv ids enc" and last: "ps_seq enc + 1 = length ids"
  shows "ps_jobs (ps_advance (ids ! ps_seq enc) enc) = map (dm_batch_of ids) [0..<ps_seq enc div batchSize + 1]"
proof -
  let ?q = "ps_seq enc" let ?j = "?q div batchSize" let ?k = "?q mod batchSize"
  have "?q = batchSize * ?j + ?k" "?k < batchSize" by simp_all
  then have "length ids = batchSize * ?j + (?k + 1)" "?k + 1 \<le> batchSize" using last by linarith+
  moreover have "dmb_s (ps_b enc) = min batchSize (length ids - batchSize * ?j)" "ps_jobs enc = map (dm_batch_of ids) [0..<?j]"
    "ps_max enc = length ids" using inv by (simp_all add: ps_inv_def Let_def)
  ultimately have "?k + 1 = dmb_s (ps_b enc)" by (simp only: diff_add_inverse add_diff_cancel_left' min.absorb2)
  with batch_step(2) [OF inv] last \<open>ps_jobs enc = _\<close> \<open>ps_max enc = _\<close> show ?thesis
    by (simp add: ps_advance_def Let_def)
qed

context permutation
begin

lemma ps_run_spec:
  assumes v: "valid s (length ids)" and ord: "mset ord = mset [0..<(length ids + 511) div batchSize]"
    and "ps_p enc = shuffle s" and "ps_inv ids enc" and "wrote (ps_w enc) = hdr" and "length ids \<le> budget (ps_w enc)"
  shows "\<exists>enc'. ps_run ord (drop (ps_seq enc) ids) enc = Some (Inr (None, enc')) \<and>
    wrote (ps_w enc') = hdr @ permuted_points (DeriveMultiply (ps_gr enc)) (pos s) ids (length ids)"
  using assms(3-)
proof (induction "length ids - ps_seq enc" arbitrary: enc rule: less_induct)
  case less
  let ?q = "ps_seq enc" let ?enc = "ps_advance (ids ! ?q) enc"
  have q: "?q < length ids" "ps_max enc = length ids" "length (ps_points enc) = length ids" using less.prems(2) by (simp_all add: ps_inv_def)
  have split: "drop ?q ids = ids ! ?q # drop (?q + 1) ids" using q(1) by (simp add: Cons_nth_drop_Suc)
  show ?case
  proof (cases "?q + 1 = length ids")
    case True
    let ?t = "?q div batchSize + 1"
    have t: "?t = (length ids + 511) div batchSize" using True by (simp flip: True)
    have "?q = batchSize * (?q div batchSize) + ?q mod batchSize" "?q mod batchSize < batchSize" by simp_all
    then have "length ids \<le> batchSize * (?q div batchSize) + batchSize" "batchSize * (?q div batchSize) < length ids"
      using True by linarith+
    then have cover: "length ids \<le> batchSize * ?t" "batchSize * (?t - 1) < length ids"
      by (simp_all only: distrib_left mult_1_right add_diff_cancel_right')
    have "\<forall>j<?t. batchSize * j < length ids"
    proof (intro allI impI)
      fix j assume "j < ?t"
      then show "batchSize * j < length ids" using cover(2) mult_le_mono2 [of j "?t - 1" batchSize] by linarith
    qed
    then have "wait_jobs ord ?enc = Inr (?enc\<lparr>ps_points := map (DeriveMultiply (ps_gr ?enc)) ids, ps_jobs := []\<rparr>)"
      using ord t cover(1) q(3)
      by (intro wait_jobs_spec [where t = ?t] ps_advance_last [OF less.prems(2) True]) (simp_all only: ps_advance_frame simp_thms)
    moreover have "\<exists>w. ps_flush [0..<length ids] (?enc\<lparr>ps_points := map (DeriveMultiply (ps_gr ?enc)) ids, ps_jobs := []\<rparr>) =
        Some (Inr (None, ?enc\<lparr>ps_points := map (DeriveMultiply (ps_gr ?enc)) ids, ps_jobs := []\<rparr>\<lparr>ps_w := w\<rparr>)) \<and>
        wrote w = hdr @ permuted_points (DeriveMultiply (ps_gr enc)) (pos s) ids (length ids)"
      using less.prems by (intro ps_flush_spec [OF v]) (simp_all add: permuted_points_def)
    ultimately show ?thesis
      using Shuffle_ps_eq [OF less.prems(2), of ord] True q(2) split by auto
  next
    case False
    then have more: "?q + 1 < length ids" using q(1) by simp
    have "\<exists>enc'. ps_run ord (drop (ps_seq ?enc) ids) ?enc = Some (Inr (None, enc')) \<and>
        wrote (ps_w enc') = hdr @ permuted_points (DeriveMultiply (ps_gr ?enc)) (pos s) ids (length ids)"
      using less.prems ps_advance_inv [OF less.prems(2) more] q(1) by (intro less.hyps) auto
    then show ?thesis
      using Shuffle_ps_eq [OF less.prems(2), of ord] more q(2) split by (simp add: Let_def)
  qed
qed

end

section \<open>The parallel reader delivers in order\<close>

fun mpr_points :: "nat \<Rightarrow> MultiplyParallelReader \<Rightarrow> point list \<times> error option \<times> MultiplyParallelReader" where
  "mpr_points 0 dec = ([], None, dec)"
| "mpr_points (Suc n) dec =
     (case Read_mpr zero_point dec of
        (Some e, _, dec) \<Rightarrow> ([], Some e, dec)
      | (None, p, dec) \<Rightarrow> (let (ps, e, dec) = mpr_points n dec in (p # ps, e, dec)))"

lemma mpr_points_spec:
  "mpr_seq dec + int (length (mpr_bus dec)) = mpr_max dec \<Longrightarrow>
   mpr_points (length (mpr_bus dec)) dec = (mpr_bus dec, None, dec\<lparr>mpr_seq := mpr_max dec, mpr_bus := []\<rparr>)"
proof (induction "mpr_bus dec" arbitrary: dec)
  case (Cons p ps)
  let ?dec = "dec\<lparr>mpr_seq := mpr_seq dec + 1, mpr_bus := ps\<rparr>"
  have "Read_mpr zero_point dec = (None, p, ?dec)"
    using Cons.prems Cons.hyps(2) [symmetric] by (simp add: Read_mpr_def)
  moreover have "mpr_points (length (mpr_bus ?dec)) ?dec = (mpr_bus ?dec, None, ?dec\<lparr>mpr_seq := mpr_max ?dec, mpr_bus := []\<rparr>)"
    using Cons.prems Cons.hyps(2) [symmetric] by (intro Cons.hyps(1)) simp_all
  ultimately show ?case using Cons.hyps(2) [symmetric] by simp
next
  case Nil
  then have "dec\<lparr>mpr_seq := mpr_max dec, mpr_bus := []\<rparr> = dec" by (cases dec) simp
  with Nil show ?case by simp
qed

lemma fill_spec:
  assumes "read_points (length ps) r = (ps, None, r')" and "rd_seq r = 0" and "rd_max r = int (length ps)"
    and "mset ord = mset [0..<(length ps + 511) div batchSize]"
  shows "fill ord early r gr = map (Multiply gr) ps"
proof -
  let ?t = "(length ps + 511) div batchSize" let ?bs = "batches ?t 0 ps"
  have "int ((length ps + 511) div 512) = (int (length ps) + 511) div 512" by (simp add: zdiv_int)
  then have t: "nat (totalBatches (rd_max r)) = ?t" using assms(3) by (simp add: totalBatches_eq)
  have cover: "length ps \<le> batchSize * ?t"
    using mult_div_mod_eq [of batchSize "length ps + 511"] mod_less_divisor [of batchSize "length ps + 511"] by linarith
  have poll: "poll ?t 0 r = (None, ?bs, r')" using poll_spec [OF assms(1) _ cover] assms(2,3) by auto
  have B: "mb_n (parallelH_m gr (?bs ! n)) = n \<and> mb_points (parallelH_m gr (?bs ! n)) = map (Multiply gr) (mb_batch (?bs ! n))"
    if n: "n < ?t" for n
  proof -
    obtain qs where "?bs ! n = batch_of (0 + n) qs" using batches_nth [OF n] by blast
    then show ?thesis using parallelH_m_points [of "?bs ! n" gr] by (simp add: batch_of_def)
  qed
  then have "out (consume_all (map (\<lambda>n. parallelH_m gr (?bs ! n)) ord)) =
      concat (map (\<lambda>n. mb_points (parallelH_m gr (?bs ! n))) [0..<?t])"
    by (intro consume_all_in_order [OF assms(4)]) blast
  also have "\<dots> = concat (map (\<lambda>b. map (Multiply gr) (mb_batch b)) ?bs)"
    using B by (intro arg_cong [of _ _ concat] nth_equalityI) auto
  also have "\<dots> = map (Multiply gr) ps" using cover by (rule concat_batches)
  finally show ?thesis using poll t by (simp add: fill_def)
qed

lemma NewMultiplyParallelReader_run:
  assumes "NewReader r = Inr rr" and "0 \<le> rd_max rr" and "read_points (nat (rd_max rr)) rr = (qs, None, rr')"
    and "mset ord = mset [0..<(nat (rd_max rr) + 511) div batchSize]"
  shows "NewMultiplyParallelReader ord early r gr =
    Inr \<lparr>mpr_max = int (length qs), mpr_seq = 0, mpr_bus = map (Multiply gr) qs\<rparr>"
proof -
  have len: "length qs = nat (rd_max rr)" using read_points_seq [OF assms(3)] by simp
  have "rd_seq rr = 0" using assms(1) by (auto simp: NewReader_def split: prod.splits sum.splits)
  moreover have mx: "rd_max rr = int (length qs)" using len assms(2) by simp
  ultimately have "fill ord early rr gr = map (Multiply gr) qs"
    using assms(3,4) unfolding len [symmetric] by (intro fill_spec)
  then show ?thesis unfolding NewMultiplyParallelReader_def assms(1) bind_res_simps mx by simp
qed

text \<open>On a stream that delivers the points whole, \<open>Reader\<close> reads the points that were sent.\<close>

lemma read_points_whole:
  assumes "concat r = be_put64 (word_of_int (int (length ps))) @ concat ps" and "points_aligned r"
    and "\<forall>p\<in>set ps. length p = EncodedLen" and "length ps < 2 ^ 63"
  shows "\<exists>rr rr'. NewReader r = Inr rr \<and> rd_max rr = int (length ps) \<and> read_points (length ps) rr = (ps, None, rr')"
proof -
  have "int (length ps) < 2 ^ 63" using assms(4) by (metis of_nat_less_iff of_nat_numeral of_nat_power)
  then obtain r0 where r0: "NewReader r = Inr \<lparr>rd_r = r0, rd_seq = 0, rd_max = int (length ps)\<rparr>"
      "concat r0 = concat ps" "r0 = snd (read_full 8 [] r)"
    using NewReader_spec [OF assms(1)] by auto
  with read_points_aligned [of "\<lparr>rd_r = r0, rd_seq = 0, rd_max = int (length ps)\<rparr>" ps "[]"] assms(2,3) show ?thesis
    by (auto simp: points_aligned_def)
qed

lemma NewMultiplyParallelReader_spec:
  assumes "concat r = be_put64 (word_of_int (int (length ps))) @ concat ps" and "points_aligned r"
    and "\<forall>p\<in>set ps. length p = EncodedLen" and "length ps < 2 ^ 63"
    and "mset ord = mset [0..<(length ps + 511) div batchSize]"
  shows "NewMultiplyParallelReader ord early r gr =
    Inr \<lparr>mpr_max = int (length ps), mpr_seq = 0, mpr_bus = map (Multiply gr) ps\<rparr>"
proof -
  obtain rr rr' where rr: "NewReader r = Inr rr" "rd_max rr = int (length ps)" "read_points (length ps) rr = (ps, None, rr')"
    using read_points_whole [OF assms(1-4)] by blast
  have "0 \<le> rd_max rr" "nat (rd_max rr) = length ps" using rr(2) by simp_all
  with NewMultiplyParallelReader_run [OF rr(1), of ps rr' ord early gr] rr(3) assms(5) show ?thesis by simp
qed

lemma NewDeriveMultiplyParallelShuffler_spec:
  assumes "0 < length ids" and "length ids \<le> 2147483649" and "length ids < budget w"
  shows "\<exists>k enc. kensler_valid k (length ids) \<and> NewDeriveMultiplyParallelShuffler (Inr x) w (length ids) gr = Inr enc \<and>
    ps_p enc = Shuffle_kensler k \<and> ps_gr enc = gr \<and> ps_seq enc = 0 \<and> ps_inv ids enc \<and>
    wrote (ps_w enc) = wrote w @ be_put64 (of_nat (length ids)) \<and> length ids \<le> budget (ps_w enc)"
proof -
  obtain k where "kensler_or_zero (Inr x) (length ids) = Inr k" "kensler_valid k (length ids)"
    using kensler_or_zero_ex [OF assms(2)] kensler_or_zero_valid [OF _ assms(2)] by blast
  with assms show ?thesis
    by (intro exI [of _ k]) (simp add: NewDeriveMultiplyParallelShuffler_def io_write_def ps_inv_def makeDMBatch_def Let_def)
qed

text \<open>What the parallel shuffler writes.\<close>

lemma parallel_shuffler_writes:
  assumes "0 < length ids" and "length ids \<le> 2147483649" and "length ids < budget w"
    and "mset ord = mset [0..<(length ids + 511) div batchSize]"
  shows "\<exists>k enc enc'. kensler_valid k (length ids) \<and>
    NewDeriveMultiplyParallelShuffler (Inr x) w (length ids) gr = Inr enc \<and> ps_p enc = Shuffle_kensler k \<and>
    ps_run ord ids enc = Some (Inr (None, enc')) \<and>
    wrote (ps_w enc') = wrote w @ be_put64 (of_nat (length ids)) @
      permuted_points (DeriveMultiply gr) (kensler.pos k) ids (length ids)"
proof -
  obtain k enc where k: "kensler_valid k (length ids)" "NewDeriveMultiplyParallelShuffler (Inr x) w (length ids) gr = Inr enc"
      "ps_p enc = Shuffle_kensler k" "ps_gr enc = gr" "ps_seq enc = 0" "ps_inv ids enc"
      "wrote (ps_w enc) = wrote w @ be_put64 (of_nat (length ids))" "length ids \<le> budget (ps_w enc)"
    using NewDeriveMultiplyParallelShuffler_spec [OF assms(1-3)] by blast
  from kensler.ps_run_spec [OF k(1) assms(4) k(3,6,7,8)] k show ?thesis by auto
qed

section \<open>Properties\<close>

text \<open>
  Property C22. The parallel shuffler sends what the sequential one sends: for every order in which the
  workers finish the batches, it terminates without panic, and the stream is the count followed by the
  points of all identifiers, each at the place its permutation gives it.
\<close>
theorem parallel_shuffler_equals_sequential:
  assumes "0 < length ids" and "length ids \<le> 2147483649" and "length ids < budget w"
    and "mset ord = mset [0..<(length ids + 511) div batchSize]"
  shows "\<exists>seq seq' par par'.
    NewDeriveMultiplyShuffler (Inr x) w (length ids) gr = Inr seq \<and> dms_run ids seq = Some (None, seq') \<and>
    NewDeriveMultiplyParallelShuffler (Inr x) w (length ids) gr = Inr par \<and>
    ps_run ord ids par = Some (Inr (None, par')) \<and> dms_p seq = ps_p par \<and>
    wrote (ps_w par') = wrote (dms_w seq')"
proof -
  obtain k enc enc' where k: "kensler_valid k (length ids)"
      "NewDeriveMultiplyParallelShuffler (Inr x) w (length ids) gr = Inr enc" "ps_p enc = Shuffle_kensler k"
      "ps_run ord ids enc = Some (Inr (None, enc'))"
      "wrote (ps_w enc') = wrote w @ be_put64 (of_nat (length ids)) @
        permuted_points (DeriveMultiply gr) (kensler.pos k) ids (length ids)"
    using parallel_shuffler_writes [OF assms] by blast
  obtain k' seq where s: "kensler_valid k' (length ids)" "NewDeriveMultiplyShuffler (Inr x) w (length ids) gr = Inr seq"
      "dms_p seq = Shuffle_kensler k'" "dms_gr seq = gr" "dms_seq seq = 0" "dms_max seq = length ids" "dms_sent seq = 0"
      "wrote (dms_w seq) = wrote w @ be_put64 (of_nat (length ids))" "length ids \<le> budget (dms_w seq)"
    using NewDeriveMultiplyShuffler_spec [OF assms(2,3)] by blast
  have inv: "dms_inv (kensler.pos k') (wrote w @ be_put64 (of_nat (length ids))) ids seq"
    using s by (simp add: dms_inv_def permuted_points_def)
  have "dms_seq seq < length ids" using s(5) assms(1) by simp
  from kensler.dms_run_spec [OF s(1,3) inv this] s obtain seq' where
    "dms_run ids seq = Some (None, seq')"
    "wrote (dms_w seq') = (wrote w @ be_put64 (of_nat (length ids))) @
      permuted_points (DeriveMultiply gr) (kensler.pos k') ids (length ids)" by auto
  moreover have p: "dms_p seq = ps_p enc"
    using s(2) k(2) by (auto simp: NewDeriveMultiplyShuffler_def NewDeriveMultiplyParallelShuffler_def bind_res_Inr_iff Let_def
        split: prod.splits option.splits)
  then have "kensler.pos k' = kensler.pos k" using s(3) k(3) by (auto simp: kensler.pos_def fun_eq_iff)
  ultimately show ?thesis using k s p by auto
qed

theorem parallel_shuffler_equals_sequential_witness:
  "\<exists>seq seq' par par'.
    NewDeriveMultiplyShuffler (Inr 5) \<lparr>wrote = [], budget = 1000\<rparr> 600 \<lparr>DeriveMultiply = rev, Multiply = rev\<rparr> = Inr seq \<and>
    dms_run (replicate 600 [1, 2]) seq = Some (None, seq') \<and>
    NewDeriveMultiplyParallelShuffler (Inr 5) \<lparr>wrote = [], budget = 1000\<rparr> 600 \<lparr>DeriveMultiply = rev, Multiply = rev\<rparr> = Inr par \<and>
    ps_run [1, 0] (replicate 600 [1, 2]) par = Some (Inr (None, par')) \<and> dms_p seq = ps_p par \<and>
    wrote (ps_w par') = wrote (dms_w seq')"
proof -
  have "mset [1, 0] = mset [0..<(length (replicate 600 [1, 2 :: byte]) + 511) div batchSize]" by (simp add: upt_rec)
  from parallel_shuffler_equals_sequential [OF _ _ _ this, of "\<lparr>wrote = [], budget = 1000\<rparr>" 5
      "\<lparr>DeriveMultiply = rev, Multiply = rev\<rparr>"]
  show ?thesis by (simp del: replicate.simps)
qed

text \<open>
  Property C23. The parallel reader delivers exactly what the sequential \<open>Reader\<close> reads from the same stream, however it is cut into
  pieces: the multiplied points in the order of reading and then the end of the sequence, for every order in which the
  batches of 512 come back from the workers, although at most one buffered batch is released per batch
  received. These are the points that were sent under the condition that no piece of the stream ends inside a point;
  \<open>Reader\<close> does not put a split point together.
\<close>
theorem parallel_reader_in_order:
  assumes "NewReader r = Inr rr" and "0 \<le> rd_max rr" and "read_points (nat (rd_max rr)) rr = (qs, None, rr')"
    and "mset ord = mset [0..<(nat (rd_max rr) + 511) div batchSize]"
  shows "\<exists>dec dec'. NewMultiplyParallelReader ord early r gr = Inr dec \<and>
    mpr_points (length qs) dec = (map (Multiply gr) qs, None, dec') \<and> Read_mpr zero_point dec' = (Some EOF, zero_point, dec') \<and>
    (\<forall>ps. concat r = be_put64 (word_of_int (int (length ps))) @ concat ps \<and> points_aligned r \<and>
       (\<forall>p\<in>set ps. length p = EncodedLen) \<and> length ps < 2 ^ 63 \<longrightarrow> qs = ps)"
proof -
  have "qs = ps" if "concat r = be_put64 (word_of_int (int (length ps))) @ concat ps \<and> points_aligned r \<and>
       (\<forall>p\<in>set ps. length p = EncodedLen) \<and> length ps < 2 ^ 63" for ps
    using read_points_whole [of r ps] that assms(1,3) by auto
  then show ?thesis
    using NewMultiplyParallelReader_run [OF assms, of early gr]
      mpr_points_spec [of "\<lparr>mpr_max = int (length qs), mpr_seq = 0, mpr_bus = map (Multiply gr) qs\<rparr>"]
    by (simp add: Read_mpr_def)
qed

text \<open>The first of two points arrives in two pieces and the header in two others.\<close>

theorem parallel_reader_in_order_witness:
  "\<exists>dec dec'. NewMultiplyParallelReader [0] [] [[0, 0, 0, 0, 0], [0, 0, 2], replicate 20 7, replicate 12 7, replicate 32 8]
      \<lparr>DeriveMultiply = rev, Multiply = rev\<rparr> = Inr dec \<and>
    mpr_points 2 dec = ([replicate 12 0 @ replicate 20 7, replicate 20 0 @ replicate 12 7], None, dec') \<and>
    Read_mpr zero_point dec' = (Some EOF, zero_point, dec')"
proof -
  let ?r = "[[0, 0, 0, 0, 0], [0, 0, 2], replicate 20 7, replicate 12 7, replicate 32 8] :: io_reader"
  let ?rr = "\<lparr>rd_r = [replicate 20 7, replicate 12 7, replicate 32 8], rd_seq = 0, rd_max = 2\<rparr>"
  let ?qs = "[replicate 20 7 @ replicate 12 0, replicate 12 7 @ replicate 20 0]"
  have "be_put64 2 = [0, 0, 0, 0, 0, 0, 0, 2]" by (simp add: be_put64_def le_put64_def upt_rec)
  then have "be_get64 [0, 0, 0, 0, 0, 0, 0, 2] = 2" using be_get_put64 [of 2] by simp
  then have new: "NewReader ?r = Inr ?rr" by (simp add: NewReader_def read_full.simps del: replicate.simps)
  have "read_points (nat (rd_max ?rr)) ?rr = (?qs, None, ?rr\<lparr>rd_r := [replicate 32 8], rd_seq := 2\<rparr>)"
    by (simp add: numeral_2_eq_2 Read_def zero_point_def del: replicate.simps)
  from parallel_reader_in_order [OF new _ this, of "[0]" "[]" "\<lparr>DeriveMultiply = rev, Multiply = rev\<rparr>"] show ?thesis
    by (simp add: upt_rec numeral_2_eq_2 del: replicate.simps mpr_points.simps) blast
qed

end
