(* ===== verification/DH_Fill.thy ===== *)
theory DH_Fill
  imports DH_Parallel
begin

text \<open>
  The goroutines of \<open>fill\<close> in \<open>pkg/dhpsi/dhpsi_parallel.go\<close> as a step relation: the polling
  goroutine, the workers that run the closure \<open>f\<close>, and the goroutine that counts down the batches
  that are left. A step is one channel operation. Batches are named by their numbers; what is in them
  is the subject of DH_Parallel. The relation leaves out that the pool of workers is bounded and that the
  consumer waits for the user of the reader: it has more runs than the code, which serves safety. DH_Fill_Run
  refines it with both for the question whether a run ends.
\<close>

section \<open>States and steps\<close>

text \<open>
  \<open>working\<close> are the batches in the hands of workers that have not sent them on \<open>batches\<close> yet,
  \<open>waiting\<close> counts the workers that have and now wait for \<open>lb\<close>; \<open>left\<close> is the counter of the
  counting goroutine, \<open>None\<close> once it has closed \<open>lb\<close>. \<open>panicked\<close> is set by a send on a closed
  channel and by closing a channel twice.
\<close>

record fill_state =
  polled :: nat
  working :: "nat list"
  delivered :: "nat list"
  waiting :: nat
  left :: "int option"
  batches_closed :: bool
  aborted :: bool
  panicked :: bool

definition fill_init :: "nat \<Rightarrow> fill_state" where
  "fill_init t =
     \<lparr>polled = 0, working = [], delivered = [], waiting = 0, left = Some (int t - 1),
      batches_closed = False, aborted = False, panicked = False\<rparr>"

definition close_batches :: "fill_state \<Rightarrow> fill_state" where
  "close_batches s = (if batches_closed s then s\<lparr>panicked := True\<rparr> else s\<lparr>batches_closed := True\<rparr>)"

text \<open>\<open>t\<close> is the number of batches, \<open>err\<close> the number of the batch in which reading fails, if any.\<close>

inductive fill_step :: "nat \<Rightarrow> nat option \<Rightarrow> fill_state \<Rightarrow> fill_state \<Rightarrow> bool"
  for t :: nat and err :: "nat option" where
  submit: "\<not> panicked s \<Longrightarrow> \<not> aborted s \<Longrightarrow> polled s < t \<Longrightarrow> err \<noteq> Some (polled s) \<Longrightarrow>
     fill_step t err s (s\<lparr>polled := polled s + 1, working := polled s # working s\<rparr>)"
| read_error: "\<not> panicked s \<Longrightarrow> \<not> aborted s \<Longrightarrow> polled s < t \<Longrightarrow> err = Some (polled s) \<Longrightarrow>
     fill_step t err s ((close_batches s)\<lparr>aborted := True\<rparr>)"
| deliver: "\<not> panicked s \<Longrightarrow> n \<in> set (working s) \<Longrightarrow> \<not> batches_closed s \<Longrightarrow>
     fill_step t err s (s\<lparr>working := remove1 n (working s), delivered := delivered s @ [n], waiting := waiting s + 1\<rparr>)"
| deliver_closed: "\<not> panicked s \<Longrightarrow> n \<in> set (working s) \<Longrightarrow> batches_closed s \<Longrightarrow>
     fill_step t err s (s\<lparr>panicked := True\<rparr>)"
| take_left: "\<not> panicked s \<Longrightarrow> 0 < waiting s \<Longrightarrow> left s = Some l \<Longrightarrow>
     fill_step t err s ((if l = 0 then close_batches s else s)
       \<lparr>waiting := waiting s - 1, left := (if l - 1 = 0 then None else Some (l - 1))\<rparr>)"
| take_closed: "\<not> panicked s \<Longrightarrow> 0 < waiting s \<Longrightarrow> left s = None \<Longrightarrow>
     fill_step t err s ((close_batches s)\<lparr>waiting := waiting s - 1\<rparr>)"
| stop_counter: "\<not> panicked s \<Longrightarrow> aborted s \<Longrightarrow> left s = Some l \<Longrightarrow>
     fill_step t err s (s\<lparr>left := None\<rparr>)"

inductive_cases fill_stepE: "fill_step t err s s'"

abbreviation fill_reachable :: "nat \<Rightarrow> nat option \<Rightarrow> fill_state \<Rightarrow> bool" where
  "fill_reachable t err \<equiv> (fill_step t err)\<^sup>*\<^sup>* (fill_init t)"

section \<open>Invariant without read errors\<close>

text \<open>
  The number of values taken from \<open>lb\<close> determines the counter, and \<open>batches\<close> is closed exactly by
  the last taker.
\<close>

definition fill_inv :: "nat \<Rightarrow> fill_state \<Rightarrow> bool" where
  "fill_inv t s \<longleftrightarrow> \<not> panicked s \<and> \<not> aborted s \<and> polled s \<le> t \<and>
     mset (working s) + mset (delivered s) = mset [0..<polled s] \<and> waiting s \<le> length (delivered s) \<and>
     (let k = length (delivered s) - waiting s in
      (batches_closed s \<longleftrightarrow> 0 < k \<and> k = t) \<and>
      left s = (if 0 < k \<and> k + 1 \<ge> t \<and> 1 < t then None else Some (int t - 1 - int k)))"

lemma fill_inv_init: "fill_inv t (fill_init t)"
  by (simp add: fill_inv_def fill_init_def)

lemma fill_inv_counts:
  assumes "fill_inv t s"
  shows "length (working s) + length (delivered s) = polled s" "polled s \<le> t"
proof -
  have "size (mset (working s) + mset (delivered s)) = size (mset [0..<polled s])" using assms by (simp only: fill_inv_def)
  then show "length (working s) + length (delivered s) = polled s" by simp
  show "polled s \<le> t" using assms by (simp add: fill_inv_def)
qed

lemma fill_inv_step:
  assumes "fill_step t None s s'" and inv: "fill_inv t s"
  shows "fill_inv t s'"
  using assms(1)
proof (cases rule: fill_step.cases)
  case submit
  with inv show ?thesis by (simp add: fill_inv_def)
next
  case (deliver n)
  have "mset (remove1 n (working s)) + mset (delivered s @ [n]) = mset (working s) + mset (delivered s)"
    using deliver(3) by simp
  with inv deliver(1) show ?thesis unfolding fill_inv_def by (simp add: Let_def)
next
  case (deliver_closed n)
  then have "0 < length (working s)" by (auto simp: length_pos_if_in_set)
  moreover have "length (delivered s) - waiting s = t" using inv deliver_closed by (simp add: fill_inv_def Let_def)
  ultimately show ?thesis using fill_inv_counts [OF inv] by linarith
next
  case (take_left l)
  define k where "k = length (delivered s) - waiting s"
  have "waiting s \<le> length (delivered s)" using inv by (simp add: fill_inv_def)
  with take_left(3) fill_inv_counts [OF inv] have k: "length (delivered s) = waiting s + k" "k + 1 \<le> t"
    unfolding k_def by linarith+
  have l: "l = int t - 1 - int k" and open_: "0 < k \<and> 1 < t \<Longrightarrow> k + 1 < t"
    using inv take_left(4) unfolding fill_inv_def Let_def k_def [symmetric] by (auto split: if_splits)
  have closed: "batches_closed s \<longleftrightarrow> 0 < k \<and> k = t"
    using inv unfolding fill_inv_def Let_def k_def [symmetric] by simp
  have k': "length (delivered s) - (waiting s - 1) = k + 1" using k(1) take_left(3) by simp
  have closed': "batches_closed s' \<longleftrightarrow> k + 1 = t" and ok: "\<not> panicked s'"
    using closed k(2) l take_left(1,2) by (auto simp: close_batches_def)
  have left': "left s' = (if k + 1 + 1 \<ge> t \<and> 1 < t then None else Some (int t - 1 - int (k + 1)))"
    using l k(2) open_ take_left(1) by auto
  have rest: "\<not> aborted s'" "polled s' = polled s" "working s' = working s" "delivered s' = delivered s" "waiting s' = waiting s - 1"
    using take_left(1) inv by (auto simp: close_batches_def fill_inv_def)
  have base: "polled s \<le> t" "mset (working s) + mset (delivered s) = mset [0..<polled s]"
    using inv by (simp_all only: fill_inv_def)
  show ?thesis
    unfolding fill_inv_def Let_def rest(2-) k' closed' left' using base ok rest(1) k(1) by simp
next
  case take_closed
  then show ?thesis using inv fill_inv_counts [OF inv]
    by (auto simp: fill_inv_def Let_def close_batches_def split: if_splits)
qed (use inv in \<open>auto simp: fill_inv_def\<close>)

lemma fill_inv_reachable: "fill_reachable t None s \<Longrightarrow> fill_inv t s"
  by (induction rule: rtranclp_induct) (auto intro: fill_inv_init fill_inv_step)

lemma closed_delivered:
  assumes "fill_inv t s" and "batches_closed s"
  shows "mset (delivered s) = mset [0..<t]" and "working s = []"
proof -
  have "length (delivered s) - waiting s = t" using assms by (simp add: fill_inv_def Let_def)
  then have "length (working s) = 0" "polled s = t" using fill_inv_counts [OF assms(1)] by linarith+
  then show "working s = []" "mset (delivered s) = mset [0..<t]"
    using assms(1) by (simp_all add: fill_inv_def)
qed

section \<open>Properties\<close>

text \<open>
  Property C24. While reading succeeds, no interleaving of the goroutines of \<open>fill\<close> sends on the
  closed channel or closes it twice, and the channel of batches is closed only after every batch has
  been delivered exactly once.
\<close>
theorem fill_safe:
  assumes "fill_reachable t None s"
  shows "\<not> panicked s \<and> (batches_closed s \<longrightarrow> mset (delivered s) = mset [0..<t])"
proof -
  have inv: "fill_inv t s" by (rule fill_inv_reachable [OF assms])
  then have "\<not> panicked s" by (simp add: fill_inv_def)
  with closed_delivered(1) [OF inv] show ?thesis by blast
qed

theorem fill_safe_witness:
  "\<exists>s. fill_reachable 1 None s \<and> batches_closed s \<and> \<not> panicked s \<and> mset (delivered s) = mset [0..<1]"
proof -
  let ?s1 = "(fill_init 1)\<lparr>polled := 1, working := [0]\<rparr>"
  let ?s2 = "?s1\<lparr>working := [], delivered := [0], waiting := 1\<rparr>"
  let ?s3 = "?s2\<lparr>batches_closed := True, waiting := 0, left := Some (-1)\<rparr>"
  have "fill_step 1 None (fill_init 1) ?s1"
    using fill_step.submit [of "fill_init 1" 1 None] by (simp add: fill_init_def)
  moreover have "fill_step 1 None ?s1 ?s2"
    using fill_step.deliver [of ?s1 0 1 None] by (simp add: fill_init_def)
  moreover have "fill_step 1 None ?s2 ?s3"
    using fill_step.take_left [of ?s2 0 1 None] by (simp add: fill_init_def close_batches_def)
  ultimately have r: "fill_reachable 1 None ?s3" by (meson rtranclp.rtrancl_into_rtrancl rtranclp.rtrancl_refl)
  show ?thesis using fill_safe [OF r] r by (intro exI [of _ ?s3]) simp
qed

text \<open>
  Property C26. When reading a point fails after at least one batch has been handed to the workers,
  there is an interleaving in which the polling goroutine closes the channel of batches first and a
  worker then sends its batch on the closed channel, which panics and ends the program.
\<close>
theorem fill_read_error_can_panic:
  assumes "0 < e" and "e < t"
  shows "\<exists>s. fill_reachable t (Some e) s \<and> panicked s"
proof -
  have "fill_reachable t (Some e) ((fill_init t)\<lparr>polled := m, working := rev [0..<m]\<rparr>)" if "m \<le> e" for m
    using that
  proof (induction m)
    case 0
    then show ?case by (simp add: fill_init_def)
  next
    case (Suc m)
    let ?s = "(fill_init t)\<lparr>polled := m, working := rev [0..<m]\<rparr>"
    have "fill_step t (Some e) ?s (?s\<lparr>polled := polled ?s + 1, working := polled ?s # working ?s\<rparr>)"
      using Suc.prems assms by (intro fill_step.submit) (auto simp: fill_init_def)
    with Suc show ?case by (auto intro: rtranclp.rtrancl_into_rtrancl)
  qed
  from this [of e] have "fill_reachable t (Some e) ((fill_init t)\<lparr>polled := e, working := rev [0..<e]\<rparr>)" (is "fill_reachable t _ ?s") by simp
  moreover have "fill_step t (Some e) ?s ((close_batches ?s)\<lparr>aborted := True\<rparr>)" (is "fill_step t _ _ ?s1")
    using assms by (intro fill_step.read_error) (auto simp: fill_init_def)
  moreover have "fill_step t (Some e) ?s1 (?s1\<lparr>panicked := True\<rparr>)"
    using assms by (intro fill_step.deliver_closed [where n = 0]) (auto simp: fill_init_def close_batches_def)
  ultimately have "fill_reachable t (Some e) (?s1\<lparr>panicked := True\<rparr>)" by (meson rtranclp.rtrancl_into_rtrancl)
  then show ?thesis by (intro exI [of _ "?s1\<lparr>panicked := True\<rparr>"]) simp
qed

theorem fill_read_error_can_panic_witness: "\<exists>s. fill_reachable 2 (Some 1) s \<and> panicked s"
  by (rule fill_read_error_can_panic) simp_all

end
