(* ===== verification/DH_Fill_Run.thy ===== *)
theory DH_Fill_Run
  imports DH_Fill
begin

text \<open>
  The goroutines of \<open>fill\<close> with everything that can make them wait: the workers of the pool that are free
  to take a batch from \<open>mBus\<close>, the consumer that takes a batch only when it has handed out the points of the one before,
  and the user of the reader, who takes a point from the channel \<open>c\<close> only when it calls \<open>Read\<close>. The relation
  refines the one of DH_Fill, which leaves these out.
\<close>

section \<open>States and steps\<close>

text \<open>
  \<open>store\<close> and \<open>next_n\<close> are the variables \<open>ring\<close> and \<open>sent\<close> of the consumer, \<open>queue\<close> holds the points of the calls of \<open>copyOut\<close>
  that it still has to finish, \<open>got\<close> what the user has received. \<open>wants\<close> is the number of calls of \<open>Read\<close> that the user
  has still to make. \<open>flushed\<close> is set when the loop over the batches has ended.
\<close>

record run_state =
  core :: fill_state
  idle_workers :: nat
  store :: "nat \<rightharpoonup> mBatch"
  next_n :: nat
  queue :: "point list list"
  got :: "point list"
  wants :: nat
  flushed :: bool
  c_closed :: bool

text \<open>\<open>p\<close> workers are at the disposal of the reader; its user calls \<open>Read\<close> \<open>W\<close> times.\<close>

definition run_init :: "nat \<Rightarrow> nat \<Rightarrow> nat \<Rightarrow> run_state" where
  "run_init t p W =
     \<lparr>core = fill_init t, idle_workers = p, store = (\<lambda>_. None), next_n = 0, queue = [], got = [], wants = W,
      flushed = False, c_closed = False\<rparr>"

definition receive :: "mBatch \<Rightarrow> run_state \<Rightarrow> run_state" where
  "receive b s =
     (let s = (if next_n s = mb_n b then s\<lparr>queue := queue s @ [mb_points b], next_n := next_n s + 1\<rparr>
               else s\<lparr>store := (store s)(mb_n b \<mapsto> b)\<rparr>)
      in case store s (next_n s) of
           Some b' \<Rightarrow> s\<lparr>queue := queue s @ [mb_points b'], store := (store s)(next_n s := None), next_n := next_n s + 1\<rparr>
         | None \<Rightarrow> s)"

definition flush_out :: "run_state \<Rightarrow> run_state" where
  "flush_out s =
     s\<lparr>queue := map (\<lambda>i. case store s (next_n s + i) of Some b \<Rightarrow> mb_points b | None \<Rightarrow> []) [0..<card (dom (store s))],
       flushed := True\<rparr>"

inductive run_step :: "nat \<Rightarrow> nat option \<Rightarrow> (nat \<Rightarrow> mBatch) \<Rightarrow> run_state \<Rightarrow> run_state \<Rightarrow> bool"
  for t :: nat and err :: "nat option" and B :: "nat \<Rightarrow> mBatch" where
  submit: "\<not> panicked (core s) \<Longrightarrow> \<not> aborted (core s) \<Longrightarrow> polled (core s) < t \<Longrightarrow> err \<noteq> Some (polled (core s)) \<Longrightarrow> 0 < idle_workers s \<Longrightarrow>
     run_step t err B s (s\<lparr>core := (core s)\<lparr>polled := polled (core s) + 1, working := polled (core s) # working (core s)\<rparr>,
       idle_workers := idle_workers s - 1\<rparr>)"
| read_error: "\<not> panicked (core s) \<Longrightarrow> \<not> aborted (core s) \<Longrightarrow> polled (core s) < t \<Longrightarrow> err = Some (polled (core s)) \<Longrightarrow>
     run_step t err B s (s\<lparr>core := (close_batches (core s))\<lparr>aborted := True\<rparr>\<rparr>)"
| deliver: "\<not> panicked (core s) \<Longrightarrow> n \<in> set (working (core s)) \<Longrightarrow> \<not> batches_closed (core s) \<Longrightarrow> queue s = [] \<Longrightarrow>
     run_step t err B s ((receive (B n) s)\<lparr>core := (core s)\<lparr>working := remove1 n (working (core s)),
       delivered := delivered (core s) @ [n], waiting := waiting (core s) + 1\<rparr>\<rparr>)"
| deliver_closed: "\<not> panicked (core s) \<Longrightarrow> n \<in> set (working (core s)) \<Longrightarrow> batches_closed (core s) \<Longrightarrow>
     run_step t err B s (s\<lparr>core := (core s)\<lparr>panicked := True\<rparr>\<rparr>)"
| take_left: "\<not> panicked (core s) \<Longrightarrow> 0 < waiting (core s) \<Longrightarrow> left (core s) = Some l \<Longrightarrow>
     run_step t err B s (s\<lparr>core := (if l = 0 then close_batches (core s) else core s)
         \<lparr>waiting := waiting (core s) - 1, left := (if l - 1 = 0 then None else Some (l - 1))\<rparr>,
       idle_workers := idle_workers s + 1\<rparr>)"
| take_closed: "\<not> panicked (core s) \<Longrightarrow> 0 < waiting (core s) \<Longrightarrow> left (core s) = None \<Longrightarrow>
     run_step t err B s (s\<lparr>core := (close_batches (core s))\<lparr>waiting := waiting (core s) - 1\<rparr>, idle_workers := idle_workers s + 1\<rparr>)"
| stop_counter: "\<not> panicked (core s) \<Longrightarrow> aborted (core s) \<Longrightarrow> left (core s) = Some l \<Longrightarrow>
     run_step t err B s (s\<lparr>core := (core s)\<lparr>left := None\<rparr>\<rparr>)"
| emit: "\<not> panicked (core s) \<Longrightarrow> queue s = (q # qs) # rest \<Longrightarrow> 0 < wants s \<Longrightarrow>
     run_step t err B s (s\<lparr>queue := qs # rest, got := got s @ [q], wants := wants s - 1\<rparr>)"
| copied: "\<not> panicked (core s) \<Longrightarrow> queue s = [] # rest \<Longrightarrow> run_step t err B s (s\<lparr>queue := rest\<rparr>)"
| cancelled: "\<not> panicked (core s) \<Longrightarrow> aborted (core s) \<Longrightarrow> queue s = qs # rest \<Longrightarrow> run_step t err B s (s\<lparr>queue := rest\<rparr>)"
| flush: "\<not> panicked (core s) \<Longrightarrow> batches_closed (core s) \<Longrightarrow> queue s = [] \<Longrightarrow> \<not> flushed s \<Longrightarrow> run_step t err B s (flush_out s)"
| close_c: "\<not> panicked (core s) \<Longrightarrow> flushed s \<Longrightarrow> queue s = [] \<Longrightarrow> \<not> c_closed s \<Longrightarrow> run_step t err B s (s\<lparr>c_closed := True\<rparr>)"

abbreviation run_reachable :: "nat \<Rightarrow> nat option \<Rightarrow> (nat \<Rightarrow> mBatch) \<Rightarrow> run_state \<Rightarrow> run_state \<Rightarrow> bool" where
  "run_reachable t err B \<equiv> (run_step t err B)\<^sup>*\<^sup>*"

section \<open>Refinement\<close>

lemma receive_frame [simp]:
  "core (receive b s) = core s" "idle_workers (receive b s) = idle_workers s" "got (receive b s) = got s" "wants (receive b s) = wants s"
  "flushed (receive b s) = flushed s" "c_closed (receive b s) = c_closed s"
  by (simp_all add: receive_def Let_def split: option.split)

lemma flush_out_frame [simp]:
  "core (flush_out s) = core s" "idle_workers (flush_out s) = idle_workers s" "got (flush_out s) = got s" "wants (flush_out s) = wants s"
  "flushed (flush_out s)" "c_closed (flush_out s) = c_closed s" "store (flush_out s) = store s" "next_n (flush_out s) = next_n s"
  by (simp_all add: flush_out_def)

text \<open>A step is a step of the abstract relation, or leaves its state alone.\<close>

lemma run_step_refines:
  assumes "run_step t err B s s'"
  shows "core s' = core s \<or> fill_step t err (core s) (core s')"
  using assms
proof (cases rule: run_step.cases)
  case submit
  then show ?thesis using fill_step.submit [of "core s" t err] by simp
next
  case read_error
  then show ?thesis using fill_step.read_error [of "core s" t err] by simp
next
  case (deliver n)
  then show ?thesis using fill_step.deliver [of "core s" n t err] by simp
next
  case (deliver_closed n)
  then show ?thesis using fill_step.deliver_closed [of "core s" n t err] by simp
next
  case (take_left l)
  then show ?thesis using fill_step.take_left [of "core s" l t err] by simp
next
  case take_closed
  then show ?thesis using fill_step.take_closed [of "core s" t err] by simp
next
  case (stop_counter l)
  then show ?thesis using fill_step.stop_counter [of "core s" l t err] by simp
qed simp_all

lemma run_refines: "run_reachable t err B (run_init t p W) s \<Longrightarrow> fill_reachable t err (core s)"
proof (induction rule: rtranclp_induct)
  case base
  show ?case by (simp add: run_init_def)
next
  case (step s s')
  with run_step_refines [OF step.hyps(2)] show ?case by (auto intro: rtranclp.rtrancl_into_rtrancl)
qed




section \<open>Invariant without read errors\<close>











section \<open>Every run ends\<close>







section \<open>A user that stops early\<close>

text \<open>
  All workers hold a batch, the consumer is inside \<open>copyOut\<close> and has more points than the user will take: nothing but
  handing out the remaining points can happen.
\<close>

definition starved :: "nat \<Rightarrow> run_state \<Rightarrow> bool" where
  "starved p s \<longleftrightarrow> idle_workers s = 0 \<and> length (working (core s)) = p \<and> waiting (core s) = 0 \<and> \<not> batches_closed (core s) \<and>
     \<not> aborted (core s) \<and> \<not> flushed s \<and> (\<exists>l rest. queue s = l # rest \<and> wants s < length l)"

lemma starved_step: "run_step t None B s s' \<Longrightarrow> starved p s \<Longrightarrow> starved p s'"
  by (erule run_step.cases) (auto simp: starved_def)

lemma starved_forever: "run_reachable t None B s s' \<Longrightarrow> starved p s \<Longrightarrow> starved p s'"
  by (induction rule: rtranclp_induct) (auto intro: starved_step)

text \<open>The schedule: the first batch is delivered, then every worker takes one of the others.\<close>

lemma starved_reachable:
  assumes "0 < p" and "p < t" and "mb_n (B 0) = 0" and "W < length (mb_points (B 0))"
  shows "\<exists>s. run_reachable t None B (run_init t p W) s \<and> starved p s"
proof -
  let ?s0 = "run_init t p W"
  let ?c1 = "(fill_init t)\<lparr>polled := 1, working := [0]\<rparr>"
  let ?s1 = "?s0\<lparr>core := ?c1, idle_workers := p - 1\<rparr>"
  have 1: "run_step t None B ?s0 ?s1"
    using run_step.submit [of ?s0 t None B] assms(1,2) by (simp add: run_init_def fill_init_def)
  let ?c2 = "?c1\<lparr>working := [], delivered := [0], waiting := 1\<rparr>"
  let ?s2 = "?s1\<lparr>core := ?c2, queue := [mb_points (B 0)], next_n := 1\<rparr>"
  have "receive (B 0) ?s1 = ?s1\<lparr>queue := [mb_points (B 0)], next_n := 1\<rparr>"
    using assms(3) by (simp add: receive_def run_init_def)
  then have 2: "run_step t None B ?s1 ?s2"
    using run_step.deliver [of ?s1 0 t None B] by (simp add: run_init_def fill_init_def)
  let ?c3 = "?c2\<lparr>waiting := 0, left := (if int t - 1 - 1 = 0 then None else Some (int t - 1 - 1))\<rparr>"
  let ?s3 = "?s2\<lparr>core := ?c3, idle_workers := p\<rparr>"
  have 3: "run_step t None B ?s2 ?s3"
    using run_step.take_left [of ?s2 "int t - 1" t None B] assms(1,2) by (simp add: fill_init_def)
  let ?st = "\<lambda>k. ?s3\<lparr>core := ?c3\<lparr>polled := 1 + k, working := rev [1..<1 + k]\<rparr>, idle_workers := p - k\<rparr>"
  have submits: "run_reachable t None B ?s3 (?st k)" if "k \<le> p" for k
    using that
  proof (induction k)
    case 0
    show ?case by (simp add: run_init_def fill_init_def)
  next
    case (Suc k)
    have "run_step t None B (?st k) (?st (Suc k))"
      using run_step.submit [of "?st k" t None B] Suc.prems assms(2) by (simp add: fill_init_def)
    with Suc show ?case by (auto intro: rtranclp.rtrancl_into_rtrancl)
  qed
  have "run_reachable t None B ?s0 ?s3" using 1 2 3 by (meson rtranclp.rtrancl_into_rtrancl rtranclp.rtrancl_refl)
  then have "run_reachable t None B ?s0 (?st p)" using submits [of p] by (meson order_refl rtranclp_trans)
  moreover have "starved p (?st p)" using assms(4) by (simp add: starved_def fill_init_def run_init_def)
  ultimately show ?thesis by blast
qed

section \<open>Properties\<close>



text \<open>
  When the user stops within the first batch and there are more batches than workers, a run can get to a point from which
  on all workers of the process hold a batch of this reader for ever.
\<close>
theorem abandoned_reader_takes_pool:
  assumes "0 < p" and "p < t" and "mb_n (B 0) = 0" and "W < length (mb_points (B 0))"
  shows "\<exists>s. run_reachable t None B (run_init t p W) s \<and> (\<forall>s'. run_reachable t None B s s' \<longrightarrow> idle_workers s' = 0)"
proof -
  obtain s where "run_reachable t None B (run_init t p W) s" "starved p s" using starved_reachable [of p t B W, OF assms] by blast
  then show ?thesis using starved_forever unfolding starved_def by blast
qed

end
