(* ===== verification/PAIR.thy ===== *)
theory PAIR
  imports Match_Prelude
begin

text \<open>
  The commutative encryption of \<open>pkg/pair\<close>. The group ristretto255, SHA-256 and SHA-512 are parameters,
  the fields of \<open>pair_lib\<close>; a \<open>hash.Hash\<close> is the bytes written to it so far.
\<close>

section \<open>Keys\<close>

record ('s, 'e) pair_lib =
  pl_SHA256 :: "bytes \<Rightarrow> bytes"
  pl_SHA512 :: "bytes \<Rightarrow> bytes"
  pl_ScalarText :: "bytes \<Rightarrow> 's result"
  pl_Invert :: "'s \<Rightarrow> 's"
  pl_FromUniformBytes :: "bytes \<Rightarrow> 'e"
  pl_ScalarMult :: "'s \<Rightarrow> 'e \<Rightarrow> 'e"
  pl_MarshalText :: "'e \<Rightarrow> bytes"
  pl_UnmarshalText :: "bytes \<Rightarrow> 'e result"

abbreviation PAIRSHA256Ristretto255 :: byte where
  "PAIRSHA256Ristretto255 \<equiv> 1"

abbreviation sha256SaltSize :: nat where
  "sha256SaltSize \<equiv> 32"

record 's PrivateKey =
  pk_h :: bytes
  pk_salt :: bytes
  pk_scalar :: 's

definition New :: "('s, 'e) pair_lib \<Rightarrow> byte \<Rightarrow> bytes \<Rightarrow> bytes \<Rightarrow> 's PrivateKey result" where
  "New L p salt scalar =
     (if p = PAIRSHA256Ristretto255
      then if length salt \<noteq> sha256SaltSize then Inl ErrInvalidSaltSize
           else bind_res (pl_ScalarText L scalar) (\<lambda>s. Inr \<lparr>pk_h = [], pk_salt = salt, pk_scalar = s\<rparr>)
      else Inl ErrInvalidPAIRMode)"

section \<open>Operations\<close>

text \<open>\<open>Sum(nil)\<close> leaves the state of the hash as it is, and nothing resets it.\<close>

definition hash_pk :: "('s, 'e) pair_lib \<Rightarrow> bytes \<Rightarrow> 's PrivateKey \<Rightarrow> bytes \<times> 's PrivateKey" where
  "hash_pk L data pk =
     (let pk = pk\<lparr>pk_h := pk_h pk @ pk_salt pk\<rparr>; pk = pk\<lparr>pk_h := pk_h pk @ data\<rparr> in (pl_SHA256 L (pk_h pk), pk))"

definition Encrypt :: "('s, 'e) pair_lib \<Rightarrow> bytes \<Rightarrow> 's PrivateKey \<Rightarrow> bytes \<times> 's PrivateKey" where
  "Encrypt L data pk =
     (let (data, pk) = hash_pk L data pk; element = pl_FromUniformBytes L (pl_SHA512 L data)
      in (pl_MarshalText L (pl_ScalarMult L (pk_scalar pk) element), pk))"

definition ReEncrypt :: "('s, 'e) pair_lib \<Rightarrow> 's PrivateKey \<Rightarrow> bytes \<Rightarrow> bytes result" where
  "ReEncrypt L pk ciphertext =
     bind_res (pl_UnmarshalText L ciphertext) (\<lambda>cipher. Inr (pl_MarshalText L (pl_ScalarMult L (pk_scalar pk) cipher)))"

definition Decrypt :: "('s, 'e) pair_lib \<Rightarrow> 's PrivateKey \<Rightarrow> bytes \<Rightarrow> bytes result" where
  "Decrypt L pk ciphertext =
     bind_res (pl_UnmarshalText L ciphertext) (\<lambda>cipher.
       Inr (pl_MarshalText L (pl_ScalarMult L (pl_Invert L (pk_scalar pk)) cipher)))"

text \<open>Encrypting one record after the other with the same key.\<close>

fun encrypt_all :: "('s, 'e) pair_lib \<Rightarrow> bytes list \<Rightarrow> 's PrivateKey \<Rightarrow> bytes list \<times> 's PrivateKey" where
  "encrypt_all L [] pk = ([], pk)"
| "encrypt_all L (d # ds) pk =
     (let (c, pk) = Encrypt L d pk; (cs, pk) = encrypt_all L ds pk in (c # cs, pk))"

text \<open>
  \<open>rand.Shuffle\<close>: for \<open>i\<close> from the last index down to 1, position \<open>i\<close> is swapped with a random position
  \<open>rnd i mod (i + 1)\<close>.
\<close>

definition swap_at :: "nat \<Rightarrow> nat \<Rightarrow> 'a list \<Rightarrow> 'a list" where
  "swap_at i j xs = xs[i := xs ! j, j := xs ! i]"

definition Shuffle_pair :: "(nat \<Rightarrow> nat) \<Rightarrow> bytes list \<Rightarrow> bytes list" where
  "Shuffle_pair rnd data = fold (\<lambda>i data. swap_at i (rnd i mod (i + 1)) data) (rev [1..<length data]) data"

section \<open>Laws of the group\<close>

text \<open>
  The text encoding of an element is read back, scalar multiplications commute, and the inverse of an
  invertible scalar undoes it.
\<close>

definition pair_ok :: "('s, 'e) pair_lib \<Rightarrow> 's set \<Rightarrow> bool" where
  "pair_ok L invertible \<longleftrightarrow>
     (\<forall>e. pl_UnmarshalText L (pl_MarshalText L e) = Inr e) \<and>
     (\<forall>a b e. pl_ScalarMult L a (pl_ScalarMult L b e) = pl_ScalarMult L b (pl_ScalarMult L a e)) \<and>
     (\<forall>a\<in>invertible. \<forall>e. pl_ScalarMult L (pl_Invert L a) (pl_ScalarMult L a e) = e)"

definition hashed_element :: "('s, 'e) pair_lib \<Rightarrow> bytes \<Rightarrow> 'e" where
  "hashed_element L bs = pl_FromUniformBytes L (pl_SHA512 L (pl_SHA256 L bs))"

lemma Encrypt_eq:
  "Encrypt L d pk = (pl_MarshalText L (pl_ScalarMult L (pk_scalar pk) (hashed_element L (pk_h pk @ pk_salt pk @ d))),
     pk\<lparr>pk_h := pk_h pk @ pk_salt pk @ d\<rparr>)"
  by (simp add: Encrypt_def hash_pk_def hashed_element_def Let_def)

lemma encrypt_all_eq:
  "encrypt_all L ds pk =
     (map (\<lambda>k. pl_MarshalText L (pl_ScalarMult L (pk_scalar pk)
        (hashed_element L (pk_h pk @ concat (map (\<lambda>d. pk_salt pk @ d) (take (Suc k) ds)))))) [0..<length ds],
      pk\<lparr>pk_h := pk_h pk @ concat (map (\<lambda>d. pk_salt pk @ d) ds)\<rparr>)"
proof (induction ds arbitrary: pk)
  case (Cons d ds)
  have shift: "map f [0..<Suc n] = f 0 # map (\<lambda>k. f (Suc k)) [0..<n]" for f :: "nat \<Rightarrow> bytes" and n
    by (simp only: upt_conv_Cons zero_less_Suc map_Suc_upt [symmetric] list.map map_map comp_def)
  show ?case
    unfolding encrypt_all.simps Encrypt_eq Let_def prod.case Cons.IH length_Cons shift by (simp del: upt_Suc)
qed simp

lemma mset_swap_at: "i < length xs \<Longrightarrow> j < length xs \<Longrightarrow> mset (swap_at i j xs) = mset xs"
  by (simp add: swap_at_def mset_swap)

lemma length_swap_at [simp]: "length (swap_at i j xs) = length xs"
  by (simp add: swap_at_def)

section \<open>Properties\<close>

text \<open>
  Property C16. Commutative encryption with fresh keys of the same salt: encrypting under one key and
  re-encrypting under the other gives the same text in both orders, and decrypting a re-encrypted text
  gives back the text before re-encryption.
\<close>
theorem pair_commutes:
  assumes "pair_ok L S" and "New L PAIRSHA256Ristretto255 salt sa = Inr a" and "New L PAIRSHA256Ristretto255 salt sb = Inr b"
    and "pk_scalar b \<in> S"
  shows "\<exists>c. ReEncrypt L b (fst (Encrypt L d a)) = Inr c \<and> ReEncrypt L a (fst (Encrypt L d b)) = Inr c \<and>
    Decrypt L b c = Inr (fst (Encrypt L d a))"
proof -
  have keys: "pk_h a = []" "pk_h b = []" "pk_salt a = pk_salt b"
    using assms(2,3) by (auto simp: New_def bind_res_Inr_iff split: if_splits)
  let ?e = "hashed_element L (pk_salt a @ d)" and ?M = "pl_ScalarMult L"
  have laws: "pl_UnmarshalText L (pl_MarshalText L e) = Inr e"
    "?M (pk_scalar b) (?M (pk_scalar a) e) = ?M (pk_scalar a) (?M (pk_scalar b) e)"
    "?M (pl_Invert L (pk_scalar b)) (?M (pk_scalar b) e) = e" for e using assms(1,4) unfolding pair_ok_def by blast+
  have "Decrypt L b (pl_MarshalText L (?M (pk_scalar b) (?M (pk_scalar a) ?e))) = Inr (fst (Encrypt L d a))"
    unfolding Decrypt_def by (simp add: laws(1,3) Encrypt_eq keys)
  moreover have "ReEncrypt L b (fst (Encrypt L d a)) = Inr (pl_MarshalText L (?M (pk_scalar b) (?M (pk_scalar a) ?e)))"
    by (simp add: ReEncrypt_def laws(1) Encrypt_eq keys)
  moreover have "ReEncrypt L a (fst (Encrypt L d b)) = Inr (pl_MarshalText L (?M (pk_scalar b) (?M (pk_scalar a) ?e)))"
    by (simp add: ReEncrypt_def laws(1,2) Encrypt_eq keys)
  ultimately show ?thesis by blast
qed

definition toy_pair :: "(bool, int) pair_lib" where
  "toy_pair = \<lparr>pl_SHA256 = (\<lambda>b. b), pl_SHA512 = (\<lambda>b. b), pl_ScalarText = (\<lambda>b. Inr (b = [])), pl_Invert = (\<lambda>s. s),
     pl_FromUniformBytes = (\<lambda>b. int (length b)), pl_ScalarMult = (\<lambda>s e. if s then - e else e),
     pl_MarshalText = (\<lambda>e. replicate (nat \<bar>e\<bar>) (if e < 0 then 1 else 0)),
     pl_UnmarshalText = (\<lambda>b. Inr (if b \<noteq> [] \<and> hd b = 1 then - int (length b) else int (length b)))\<rparr>"

lemma toy_pair_ok: "pair_ok toy_pair UNIV"
proof -
  have "pl_UnmarshalText toy_pair (pl_MarshalText toy_pair e) = Inr e" for e
    by (cases "nat \<bar>e\<bar>") (auto simp: toy_pair_def)
  then show ?thesis by (simp add: pair_ok_def) (simp add: toy_pair_def)
qed

theorem pair_commutes_witness:
  "\<exists>c. ReEncrypt toy_pair \<lparr>pk_h = [], pk_salt = replicate 32 7, pk_scalar = False\<rparr>
      (fst (Encrypt toy_pair [9] \<lparr>pk_h = [], pk_salt = replicate 32 7, pk_scalar = True\<rparr>)) = Inr c \<and>
    ReEncrypt toy_pair \<lparr>pk_h = [], pk_salt = replicate 32 7, pk_scalar = True\<rparr>
      (fst (Encrypt toy_pair [9] \<lparr>pk_h = [], pk_salt = replicate 32 7, pk_scalar = False\<rparr>)) = Inr c \<and>
    Decrypt toy_pair \<lparr>pk_h = [], pk_salt = replicate 32 7, pk_scalar = False\<rparr> c =
      Inr (fst (Encrypt toy_pair [9] \<lparr>pk_h = [], pk_salt = replicate 32 7, pk_scalar = True\<rparr>))"
  by (rule pair_commutes [OF toy_pair_ok, where salt = "replicate 32 7" and sa = "[]" and sb = "[1]"])
    (simp_all add: New_def toy_pair_def)

text \<open>
  Property C40. The hash of a key is never reset: the ciphertext of the record at position \<open>k\<close> is the one
  of the hash of all records up to \<open>k\<close>, each preceded by the salt. The same identifier therefore has
  different ciphertexts in lists that differ before it, as soon as the group elements derived from the
  two histories differ.
\<close>
theorem pair_encrypt_depends_on_history:
  assumes "pair_ok L S" and "New L PAIRSHA256Ristretto255 salt sa = Inr pk" and "pk_scalar pk \<in> S"
  shows "fst (encrypt_all L ds pk) = map (\<lambda>k. pl_MarshalText L (pl_ScalarMult L (pk_scalar pk)
      (hashed_element L (concat (map (\<lambda>d. salt @ d) (take (Suc k) ds)))))) [0..<length ds] \<and>
    (hashed_element L (salt @ d) \<noteq> hashed_element L (salt @ d' @ salt @ d) \<longrightarrow>
      fst (encrypt_all L [d] pk) ! 0 \<noteq> fst (encrypt_all L [d', d] pk) ! 1)"
proof -
  have pk: "pk_h pk = []" "pk_salt pk = salt" using assms(2) by (auto simp: New_def bind_res_Inr_iff split: if_splits)
  have "e = e'" if "pl_MarshalText L (pl_ScalarMult L (pk_scalar pk) e) = pl_MarshalText L (pl_ScalarMult L (pk_scalar pk) e')" for e e'
    using assms(1,3) that unfolding pair_ok_def by (metis sum.inject(2))
  then have "fst (encrypt_all L [d] pk) ! 0 \<noteq> fst (encrypt_all L [d', d] pk) ! 1"
    if "hashed_element L (salt @ d) \<noteq> hashed_element L (salt @ d' @ salt @ d)"
    using that pk by (auto simp: Encrypt_eq)
  with pk show ?thesis by (simp add: encrypt_all_eq)
qed

theorem pair_encrypt_depends_on_history_witness:
  "fst (encrypt_all toy_pair [[9]] \<lparr>pk_h = [], pk_salt = replicate 32 7, pk_scalar = True\<rparr>) ! 0 \<noteq>
    fst (encrypt_all toy_pair [[8], [9]] \<lparr>pk_h = [], pk_salt = replicate 32 7, pk_scalar = True\<rparr>) ! 1"
proof -
  let ?pk = "\<lparr>pk_h = [], pk_salt = replicate 32 7, pk_scalar = True\<rparr>"
  have "New toy_pair PAIRSHA256Ristretto255 (replicate 32 7) [] = Inr ?pk" by (simp add: New_def toy_pair_def)
  from pair_encrypt_depends_on_history [OF toy_pair_ok this, of "[]" "[9]" "[8]"]
  show ?thesis by (simp add: hashed_element_def) (simp add: toy_pair_def)
qed

text \<open>Shuffling permutes the records.\<close>

theorem pair_shuffle_permutes: "mset (Shuffle_pair rnd data) = mset data"
proof -
  have "mset (fold (\<lambda>i data. swap_at i (rnd i mod (i + 1)) data) is xs) = mset xs" if "\<forall>i\<in>set is. i < length xs" for "is" and xs :: "bytes list"
    using that
  proof (induction "is" arbitrary: xs)
    case (Cons i "is")
    have "rnd i mod (i + 1) \<le> i" using mod_less_divisor [of "i + 1" "rnd i"] by linarith
    also have "i < length xs" using Cons.prems by simp
    finally have "mset (swap_at i (rnd i mod (i + 1)) xs) = mset xs" using Cons.prems by (intro mset_swap_at) simp_all
    with Cons show ?case by simp
  qed simp
  then show ?thesis by (simp add: Shuffle_pair_def)
qed

end
