(* ===== verification/Select.thy ===== *)
theory Select
  imports Match_Prelude
begin

text \<open>
  The stage runners of \<open>internal/util/select.go\<close>. \<open>Sel\<close> and \<open>Sels\<close> start goroutines that send
  the result of a stage on a channel; they are step relations here, one step for each channel
  operation. The function \<open>Sel\<close> at the end is what the protocols see of it.
\<close>

section \<open>Sel: one stage and an unbuffered channel\<close>

datatype stage = Running | Sending "error option" | Exited

datatype caller = Waiting | Returned "error option"

record sel_state =
  goroutine :: stage
  caller :: caller
  ctx_done :: bool

definition sel_init :: sel_state where
  "sel_init = \<lparr>goroutine = Running, caller = Waiting, ctx_done = False\<rparr>"

text \<open>\<open>res\<close> is what the stage returns. A send on the unbuffered channel needs the waiting caller.\<close>

inductive sel_step :: "error option \<Rightarrow> sel_state \<Rightarrow> sel_state \<Rightarrow> bool" for res :: "error option" where
  finish: "goroutine s = Running \<Longrightarrow> sel_step res s (s\<lparr>goroutine := Sending res\<rparr>)"
| cancel: "\<not> ctx_done s \<Longrightarrow> sel_step res s (s\<lparr>ctx_done := True\<rparr>)"
| receive: "goroutine s = Sending e \<Longrightarrow> caller s = Waiting \<Longrightarrow>
    sel_step res s (s\<lparr>goroutine := Exited, caller := Returned e\<rparr>)"
| abort: "ctx_done s \<Longrightarrow> caller s = Waiting \<Longrightarrow> sel_step res s (s\<lparr>caller := Returned (Some ContextDone)\<rparr>)"

inductive_cases sel_stepE: "sel_step res s s'"

abbreviation sel_reachable :: "error option \<Rightarrow> sel_state \<Rightarrow> bool" where
  "sel_reachable res \<equiv> (sel_step res)\<^sup>*\<^sup>* sel_init"

definition sel_inv :: "error option \<Rightarrow> sel_state \<Rightarrow> bool" where
  "sel_inv res s \<longleftrightarrow>
     (case goroutine s of
        Running \<Rightarrow> caller s = Waiting \<or> caller s = Returned (Some ContextDone) \<and> ctx_done s
      | Sending e \<Rightarrow> e = res \<and> (caller s = Waiting \<or> caller s = Returned (Some ContextDone) \<and> ctx_done s)
      | Exited \<Rightarrow> caller s = Returned res)"

lemma sel_inv_reachable: "sel_reachable res s \<Longrightarrow> sel_inv res s"
proof (induction rule: rtranclp_induct)
  case base
  then show ?case by (simp add: sel_inv_def sel_init_def)
next
  case (step s s')
  from step.hyps(2) step.IH show ?case
    by (cases rule: sel_step.cases) (auto simp: sel_inv_def split: stage.splits)
qed

text \<open>Once the caller has gone the goroutine has no partner for its send.\<close>

lemma abandoned_never_exits:
  assumes "(sel_step res)\<^sup>*\<^sup>* s s'" and "caller s \<noteq> Waiting" and "goroutine s \<noteq> Exited"
  shows "caller s' \<noteq> Waiting \<and> goroutine s' \<noteq> Exited"
  using assms
proof (induction rule: rtranclp_induct)
  case (step y z)
  then have "caller y \<noteq> Waiting" "goroutine y \<noteq> Exited" by simp_all
  with step.hyps(2) show ?case by (cases rule: sel_step.cases) auto
qed simp

section \<open>Sels: several stages and a buffered channel\<close>

record sels_state =
  running :: "error option list"   \<comment> \<open>results of the stages that have not sent yet\<close>
  buffer :: "error option list"    \<comment> \<open>results in the channel\<close>
  received :: "error option list"  \<comment> \<open>results the reader has taken\<close>

definition sels_init :: "error option list \<Rightarrow> sels_state" where
  "sels_init fs = \<lparr>running = fs, buffer = [], received = []\<rparr>"

text \<open>A send needs room in the channel, whose capacity is \<open>len(fs)\<close>.\<close>

inductive sels_step :: "nat \<Rightarrow> sels_state \<Rightarrow> sels_state \<Rightarrow> bool" for cap :: nat where
  send: "r \<in> set (running s) \<Longrightarrow> length (buffer s) < cap \<Longrightarrow>
    sels_step cap s (s\<lparr>running := remove1 r (running s), buffer := buffer s @ [r]\<rparr>)"
| take: "buffer s = r # rs \<Longrightarrow> sels_step cap s (s\<lparr>buffer := rs, received := received s @ [r]\<rparr>)"

definition Sels_reachable :: "error option list \<Rightarrow> sels_state \<Rightarrow> bool" where
  "Sels_reachable fs = (sels_step (length fs))\<^sup>*\<^sup>* (sels_init fs)"

lemma sels_conserved:
  assumes "(sels_step cap)\<^sup>*\<^sup>* (sels_init fs) s"
  shows "mset (running s) + mset (buffer s) + mset (received s) = mset fs"
  using assms
proof (induction rule: rtranclp_induct)
  case base
  then show ?case by (simp add: sels_init_def)
next
  case (step y z)
  from step.hyps(2) step.IH show ?case
    by (cases rule: sels_step.cases) (auto simp: union_assoc union_commute)
qed

section \<open>What the protocols see\<close>

text \<open>
  A protocol passes \<open>Sel\<close> a stage. \<open>ctx\<close> is the error of the context when its \<open>Done\<close> channel is
  chosen, otherwise the outcome is that of the stage: \<open>None\<close> for a stage that never ends, an error
  or a panic, or its result.
\<close>

definition Sel :: "error option \<Rightarrow> 'a result option \<Rightarrow> 'a result option" where
  "Sel ctx f = (case ctx of Some e \<Rightarrow> Some (Inl e) | None \<Rightarrow> f)"

lemma Sel_simps [simp]: "Sel None f = f" "Sel (Some e) f = Some (Inl e)"
  by (simp_all add: Sel_def)

definition bind_run :: "'a result option \<Rightarrow> ('a \<Rightarrow> 'b result option) \<Rightarrow> 'b result option" where
  "bind_run m f = Option.bind m (\<lambda>r. case r of Inl e \<Rightarrow> Some (Inl e) | Inr x \<Rightarrow> f x)"

lemma bind_run_simps [simp]:
  "bind_run None f = None" "bind_run (Some (Inl e)) f = Some (Inl e)" "bind_run (Some (Inr x)) f = f x"
  by (simp_all add: bind_run_def)

lemma bind_run_Inr_iff: "bind_run m f = Some (Inr y) \<longleftrightarrow> (\<exists>x. m = Some (Inr x) \<and> f x = Some (Inr y))"
  by (cases m) (auto simp: bind_run_def split: sum.splits)

section \<open>Properties\<close>

text \<open>
  Property C36. When \<open>Sel\<close> returns, either it returns what the stage returned and the goroutine of
  the stage has ended, or the context is done, it returns the error of the context, and the goroutine
  never ends, because nothing receives from its unbuffered channel any more.
\<close>
theorem Sel_outcome:
  assumes "sel_reachable res s" and "caller s = Returned e"
  shows "(e = res \<and> goroutine s = Exited) \<or>
    (e = Some ContextDone \<and> ctx_done s \<and> (\<forall>s'. (sel_step res)\<^sup>*\<^sup>* s s' \<longrightarrow> goroutine s' \<noteq> Exited))"
proof (cases "goroutine s = Exited")
  case True
  with sel_inv_reachable [OF assms(1)] assms(2) show ?thesis by (simp add: sel_inv_def)
next
  case False
  then have "e = Some ContextDone" "ctx_done s"
    using sel_inv_reachable [OF assms(1)] assms(2) by (auto simp: sel_inv_def split: stage.splits)
  moreover have "goroutine s' \<noteq> Exited" if "(sel_step res)\<^sup>*\<^sup>* s s'" for s'
    using abandoned_never_exits [OF that _ False] assms(2) by simp
  ultimately show ?thesis by blast
qed

theorem Sel_outcome_witness:
  "\<exists>s. sel_reachable None s \<and> caller s = Returned (Some ContextDone) \<and>
    (\<forall>s'. (sel_step None)\<^sup>*\<^sup>* s s' \<longrightarrow> goroutine s' \<noteq> Exited)"
proof -
  let ?s1 = "sel_init\<lparr>ctx_done := True\<rparr>" let ?s2 = "?s1\<lparr>caller := Returned (Some ContextDone)\<rparr>"
  have "sel_step None sel_init ?s1" by (rule sel_step.cancel) (simp add: sel_init_def)
  moreover have "sel_step None ?s1 ?s2" by (rule sel_step.abort) (simp_all add: sel_init_def)
  ultimately have r: "sel_reachable None ?s2" by (meson rtranclp.rtrancl_into_rtrancl rtranclp.rtrancl_refl)
  with Sel_outcome [OF r, of "Some ContextDone"] show ?thesis by (intro exI [of _ ?s2]) simp
qed

text \<open>
  The channel of \<open>Sels\<close> has room for every stage: whatever the reader does, a stage that
  has finished can send at once, and no result is lost or duplicated.
\<close>
theorem Sels_never_blocks:
  assumes "Sels_reachable fs s"
  shows "mset (running s) + mset (buffer s) + mset (received s) = mset fs \<and>
    (\<forall>r\<in>set (running s). sels_step (length fs) s (s\<lparr>running := remove1 r (running s), buffer := buffer s @ [r]\<rparr>))"
proof -
  have m: "mset (running s) + mset (buffer s) + mset (received s) = mset fs"
    using assms sels_conserved by (simp add: Sels_reachable_def)
  then have "size (mset (running s) + mset (buffer s) + mset (received s)) = size (mset fs)" by simp
  then have "length (running s) + length (buffer s) \<le> length fs" by simp
  then have "length (buffer s) < length fs" if "r \<in> set (running s)" for r
    using length_pos_if_in_set [OF that] by linarith
  with m show ?thesis by (blast intro: sels_step.send)
qed

theorem Sels_never_blocks_witness:
  "sels_step 2 (sels_init [None, Some EOF]) \<lparr>running = [None], buffer = [Some EOF], received = []\<rparr>"
  using Sels_never_blocks [of "[None, Some EOF]" "sels_init [None, Some EOF]"]
  by (simp add: Sels_reachable_def sels_init_def numeral_2_eq_2)

end
