(* ===== verification/Framing.thy ===== *)
theory Framing
  imports Match_Prelude
begin

text \<open>
  Reading identifiers from a stream: \<open>internal/util/framing.go\<close> and \<open>count.go\<close>. A stream is the
  sequence of bytes it will deliver and the error that follows them, \<open>EOF\<close> or another one;
  \<open>bufio.Reader\<close> hides how the bytes arrive in chunks.
\<close>

record stream =
  pending :: bytes
  ending :: error

abbreviation newline :: byte where
  "newline \<equiv> 10"

text \<open>
  \<open>bufio.Reader.ReadBytes\<close> returns the bytes up to and including the delimiter, or everything that
  is left together with the error.
\<close>

definition ReadBytes :: "byte \<Rightarrow> stream \<Rightarrow> bytes \<times> error option \<times> stream" where
  "ReadBytes d s =
     (let line = takeWhile (\<lambda>b. b \<noteq> d) (pending s); rest = dropWhile (\<lambda>b. b \<noteq> d) (pending s) in
      case rest of
        [] \<Rightarrow> (line, Some (ending s), s\<lparr>pending := []\<rparr>)
      | x # rest' \<Rightarrow> (line @ [x], None, s\<lparr>pending := rest'\<rparr>))"

definition SafeReadLine :: "stream \<Rightarrow> bytes \<times> error option \<times> stream" where
  "SafeReadLine s =
     (let (line, err, s') = ReadBytes newline s in
      (if length line > 1 then take (length line - 1) line else line, err, s'))"

text \<open>The identifiers sent on the channel before it is closed.\<close>

fun Exhaust :: "nat \<Rightarrow> stream \<Rightarrow> bytes list" where
  "Exhaust 0 s = []"
| "Exhaust (Suc n) s =
     (let (identifier, err, s') = SafeReadLine s;
          sent = (if length identifier \<noteq> 0 then [identifier] else []) in
      case err of Some _ \<Rightarrow> sent | None \<Rightarrow> sent @ Exhaust n s')"

text \<open>
  \<open>bufio.Scanner\<close> with its default split function delivers lines without their end; it stops with
  an error when \<open>bufio.MaxScanTokenSize\<close> (65536) bytes hold no end of line, and delivers a last
  line without end of line when it is not empty. \<open>fuel\<close> bounds the number of lines.
\<close>

fun scan_lines :: "nat \<Rightarrow> stream \<Rightarrow> nat \<times> error option" where
  "scan_lines 0 s = (0, None)"
| "scan_lines (Suc fuel) s =
     (let line = takeWhile (\<lambda>b. b \<noteq> newline) (pending s); rest = dropWhile (\<lambda>b. b \<noteq> newline) (pending s);
          final = (if ending s = EOF then None else Some (ending s)) in
      if 65536 \<le> length line then (0, Some IOError)
      else case rest of
        [] \<Rightarrow> (if line = [] then 0 else 1, final)
      | _ # rest' \<Rightarrow> (let (n, e) = scan_lines fuel (s\<lparr>pending := rest'\<rparr>) in (Suc n, e)))"

text \<open>A stream holds at most as many lines as bytes, and one more.\<close>

definition Count :: "stream \<Rightarrow> nat \<times> error option" where
  "Count s = scan_lines (Suc (length (pending s))) s"

section \<open>Well-framed streams\<close>

definition frame_ids :: "bytes list \<Rightarrow> bytes" where
  "frame_ids ids = concat (map (\<lambda>i. i @ [newline]) ids)"

definition valid_id :: "bytes \<Rightarrow> bool" where
  "valid_id i \<longleftrightarrow> i \<noteq> [] \<and> newline \<notin> set i \<and> length i < 65536"

lemma take_drop_line:
  assumes "newline \<notin> set i"
  shows "takeWhile (\<lambda>b. b \<noteq> newline) (i @ newline # rest) = i"
    and "dropWhile (\<lambda>b. b \<noteq> newline) (i @ newline # rest) = newline # rest"
proof -
  from assms have "\<forall>b\<in>set i. b \<noteq> newline" by auto
  then show "takeWhile (\<lambda>b. b \<noteq> newline) (i @ newline # rest) = i"
    and "dropWhile (\<lambda>b. b \<noteq> newline) (i @ newline # rest) = newline # rest"
    by (simp_all add: takeWhile_append2 dropWhile_append2)
qed

lemma take_drop_unterminated:
  assumes "newline \<notin> set i"
  shows "takeWhile (\<lambda>b. b \<noteq> newline) i = i" and "dropWhile (\<lambda>b. b \<noteq> newline) i = []"
  using assms by (auto simp: takeWhile_eq_all_conv dropWhile_eq_Nil_conv)

lemma SafeReadLine_line:
  assumes "newline \<notin> set i" and "i \<noteq> []"
  shows "SafeReadLine (s\<lparr>pending := i @ newline # rest\<rparr>) = (i, None, s\<lparr>pending := rest\<rparr>)"
  using assms by (simp add: SafeReadLine_def ReadBytes_def take_drop_line)

lemma SafeReadLine_unterminated:
  assumes "newline \<notin> set p"
  shows "SafeReadLine (s\<lparr>pending := p\<rparr>) =
    (if length p > 1 then butlast p else p, Some (ending s), s\<lparr>pending := []\<rparr>)"
  using assms by (simp add: SafeReadLine_def ReadBytes_def take_drop_unterminated butlast_conv_take)

lemma Exhaust_frames:
  assumes "\<forall>i\<in>set ids. valid_id i"
  shows "Exhaust n (s\<lparr>pending := frame_ids ids @ rest\<rparr>) =
    (if n \<le> length ids then take n ids else ids @ Exhaust (n - length ids) (s\<lparr>pending := rest\<rparr>))"
  using assms
proof (induction ids arbitrary: n)
  case (Cons i ids)
  then have i: "newline \<notin> set i" "i \<noteq> []" by (auto simp: valid_id_def)
  have IH: "Exhaust m (s\<lparr>pending := frame_ids ids @ rest\<rparr>) =
    (if m \<le> length ids then take m ids else ids @ Exhaust (m - length ids) (s\<lparr>pending := rest\<rparr>))" for m
    using Cons by simp
  show ?case
  proof (cases n)
    case (Suc m)
    have "Exhaust (Suc m) (s\<lparr>pending := frame_ids (i # ids) @ rest\<rparr>) = i # Exhaust m (s\<lparr>pending := frame_ids ids @ rest\<rparr>)"
      using SafeReadLine_line [OF i, where s = s and rest = "frame_ids ids @ rest"] i by (simp add: frame_ids_def)
    with Suc IH show ?thesis by simp
  qed simp
qed (cases n, simp_all add: frame_ids_def)

lemma scan_lines_frames:
  assumes "\<forall>i\<in>set ids. valid_id i" and "length ids < fuel"
  shows "scan_lines fuel (s\<lparr>pending := frame_ids ids\<rparr>) =
    (length ids, if ending s = EOF then None else Some (ending s))"
  using assms
proof (induction ids arbitrary: fuel)
  case Nil
  then show ?case by (cases fuel) (simp_all add: frame_ids_def)
next
  case (Cons i ids)
  then obtain f where f: "fuel = Suc f" by (cases fuel) auto
  from Cons.prems have i: "newline \<notin> set i" "length i < 65536" by (auto simp: valid_id_def)
  have "scan_lines f (s\<lparr>pending := frame_ids ids\<rparr>) = (length ids, if ending s = EOF then None else Some (ending s))"
    using Cons.prems f by (intro Cons.IH) auto
  with i f show ?case by (simp add: frame_ids_def take_drop_line)
qed

lemma length_frame_ids: "length ids \<le> length (frame_ids ids)"
  by (induction ids) (simp_all add: frame_ids_def)

text \<open>Reading back a file of identifiers.\<close>

lemma Count_frames:
  assumes "\<forall>i\<in>set ids. valid_id i"
  shows "Count \<lparr>pending = frame_ids ids, ending = EOF\<rparr> = (length ids, None)"
  using scan_lines_frames [OF assms, where s = "\<lparr>pending = [], ending = EOF\<rparr>"] length_frame_ids [of ids]
  by (simp add: Count_def less_Suc_eq_le del: scan_lines.simps)

lemma Exhaust_file:
  assumes "\<forall>i\<in>set ids. valid_id i"
  shows "Exhaust n \<lparr>pending = frame_ids ids, ending = EOF\<rparr> = take n ids"
proof -
  have "Exhaust m \<lparr>pending = [], ending = EOF\<rparr> = []" for m
    by (cases m) (simp_all add: SafeReadLine_def ReadBytes_def)
  then show ?thesis
    using Exhaust_frames [OF assms, where n = n and s = "\<lparr>pending = [], ending = EOF\<rparr>" and rest = "[]"] by simp
qed

text \<open>An empty line is delivered as the identifier that consists of the newline.\<close>

lemma blank_line_is_identifier: "Exhaust (Suc 0) \<lparr>pending = newline # rest, ending = e\<rparr> = [[newline]]"
  by (simp add: SafeReadLine_def ReadBytes_def)

section \<open>Properties\<close>

text \<open>
  Property C28. On a file of \<open>n\<close> identifiers, each ended by a newline, Count returns \<open>n\<close> and Exhaust
  with that count delivers exactly the identifiers, in order; asking for fewer delivers the first ones,
  asking for more delivers all of them.
\<close>
theorem framing_roundtrip:
  assumes "\<forall>i\<in>set ids. valid_id i"
  shows "Count \<lparr>pending = frame_ids ids, ending = EOF\<rparr> = (length ids, None) \<and>
    Exhaust n \<lparr>pending = frame_ids ids, ending = EOF\<rparr> = take n ids"
  using Count_frames [OF assms] Exhaust_file [OF assms] by blast

theorem framing_roundtrip_witness:
  "Count \<lparr>pending = [97, 98, 10, 99, 10], ending = EOF\<rparr> = (2, None) \<and>
   Exhaust 2 \<lparr>pending = [97, 98, 10, 99, 10], ending = EOF\<rparr> = [[97, 98], [99]]"
  using framing_roundtrip [of "[[97, 98], [99]]" 2] by (simp add: frame_ids_def valid_id_def)

text \<open>
  Property C29. When the last line of the stream is not ended by a newline, SafeReadLine strips a byte
  of the identifier itself: Exhaust delivers the last identifier without its last byte.
\<close>
theorem unterminated_line_truncated:
  assumes "\<forall>i\<in>set ids. valid_id i" and "newline \<notin> set p" and "1 < length p" and "length ids < n"
  shows "Exhaust n \<lparr>pending = frame_ids ids @ p, ending = EOF\<rparr> = ids @ [butlast p]"
proof -
  have "butlast p \<noteq> []" using assms(3) by (cases p rule: rev_cases) auto
  then have "Exhaust (Suc m) \<lparr>pending = p, ending = EOF\<rparr> = [butlast p]" for m
    using SafeReadLine_unterminated [OF assms(2), where s = "\<lparr>pending = [], ending = EOF\<rparr>"] assms(3) by simp
  then show ?thesis
    using Exhaust_frames [OF assms(1), where n = n and s = "\<lparr>pending = [], ending = EOF\<rparr>" and rest = p] assms(4)
    by (cases "n - length ids") auto
qed

theorem unterminated_line_truncated_witness:
  "Exhaust 2 \<lparr>pending = [97, 10, 98, 99, 100], ending = EOF\<rparr> = [[97], [98, 99]]"
  using unterminated_line_truncated [of "[[97]]" "[98, 99, 100]" 2] by (simp add: frame_ids_def valid_id_def)

end
