(* ===== verification/DHPSI.thy ===== *)
theory DHPSI
  imports DH_Parallel Select Framing
begin

text \<open>
  The Diffie-Hellman protocol of \<open>pkg/dhpsi\<close>: the two implementations of the interface Ristretto in
  \<open>dhpsi_ristretto.go\<close>, the sender and the receiver. The ristretto libraries and SHA-512 are
  parameters; what the protocol relies on is stated by \<open>r255_ok\<close> and \<open>gr_ok\<close>.
\<close>

section \<open>Ristretto implementations\<close>

text \<open>The parts of \<open>github.com/gtank/ristretto255\<close> that are used, and \<open>crypto/sha512\<close>.\<close>

record ('s, 'e) r255_lib =
  Sum512 :: "bytes \<Rightarrow> bytes"
  NewElement :: 'e
  FromUniformBytes :: "bytes \<Rightarrow> 'e"
  ScalarFromUniformBytes :: "bytes \<Rightarrow> 's"
  r255_ScalarMult :: "'s \<Rightarrow> 'e \<Rightarrow> 'e"
  Encode :: "'e \<Rightarrow> bytes"
  Decode :: "bytes \<Rightarrow> 'e option"

text \<open>The parts of \<open>github.com/bwesterb/go-ristretto\<close> that are used.\<close>

record ('s, 'e) gr_lib =
  DeriveDalek :: "bytes \<Rightarrow> 'e"
  gr_ScalarMult :: "'e \<Rightarrow> 's \<Rightarrow> 'e"
  BytesInto :: "'e \<Rightarrow> bytes"
  SetBytes :: "bytes \<Rightarrow> 'e"

definition DeriveMultiply_GR :: "('s, 'e) gr_lib \<Rightarrow> 's \<Rightarrow> point \<Rightarrow> bytes \<Rightarrow> point" where
  "DeriveMultiply_GR lib key dst src =
     (let p = DeriveDalek lib src; q = gr_ScalarMult lib p key in BytesInto lib q)"

definition Multiply_GR :: "('s, 'e) gr_lib \<Rightarrow> 's \<Rightarrow> point \<Rightarrow> point \<Rightarrow> point" where
  "Multiply_GR lib key dst src = BytesInto lib (gr_ScalarMult lib (SetBytes lib src) key)"

definition DeriveMultiply_R255 :: "('s, 'e) r255_lib \<Rightarrow> 's \<Rightarrow> point \<Rightarrow> bytes \<Rightarrow> point" where
  "DeriveMultiply_R255 lib key dst src =
     (let hash = Sum512 lib src; p = FromUniformBytes lib hash; p = r255_ScalarMult lib key p
      in go_copy dst (Encode lib p))"

text \<open>The error of Decode is dropped; the element keeps its initial value then.\<close>

definition Multiply_R255 :: "('s, 'e) r255_lib \<Rightarrow> 's \<Rightarrow> point \<Rightarrow> point \<Rightarrow> point" where
  "Multiply_R255 lib key dst src =
     (let p = NewElement lib; p = (case Decode lib src of Some q \<Rightarrow> q | None \<Rightarrow> p);
          p = r255_ScalarMult lib key p
      in go_copy dst (Encode lib p))"

text \<open>The values of the interface. Every caller passes a fresh array as destination.\<close>

definition GR :: "('s, 'e) gr_lib \<Rightarrow> 's \<Rightarrow> Ristretto" where
  "GR lib key = \<lparr>DeriveMultiply = DeriveMultiply_GR lib key zero_point, Multiply = Multiply_GR lib key zero_point\<rparr>"

definition R255 :: "('s, 'e) r255_lib \<Rightarrow> 's \<Rightarrow> Ristretto" where
  "R255 lib key = \<lparr>DeriveMultiply = DeriveMultiply_R255 lib key zero_point, Multiply = Multiply_R255 lib key zero_point\<rparr>"

definition RistrettoTypeGR :: int where
  "RistrettoTypeGR = 0"

definition RistrettoTypeR255 :: int where
  "RistrettoTypeR255 = 1"

text \<open>\<open>grand\<close> is the scalar that \<open>key.Rand()\<close> draws, \<open>u\<close> what \<open>rand.Read\<close> delivers.\<close>

definition NewRistretto ::
  "('s, 'e) gr_lib \<Rightarrow> 's \<Rightarrow> ('t, 'f) r255_lib \<Rightarrow> bytes result \<Rightarrow> int \<Rightarrow> Ristretto result" where
  "NewRistretto glib grand rlib u t =
     (if t = RistrettoTypeGR then Inr (GR glib grand)
      else if t = RistrettoTypeR255
           then (case u of Inl e \<Rightarrow> Inl LogFatal | Inr bs \<Rightarrow> Inr (R255 rlib (ScalarFromUniformBytes rlib bs)))
           else Inl (ErrUnsupportedRistretto t))"

section \<open>Sender\<close>

text \<open>
  What the environment decides in a run: the contexts of the stages, the random bytes, the order in
  which the workers finish, and the points that get through before a read error.
\<close>

record dh_env =
  ctx1 :: "error option"
  ctx2 :: "error option"
  uniform :: "bytes result"
  seed :: "nat result"
  ord_write :: "nat list"
  ord_read :: "nat list"
  early_points :: "point list"

definition Sender_stage1 :: "dh_env \<Rightarrow> nat \<Rightarrow> Ristretto \<Rightarrow> bytes list \<Rightarrow> io_writer \<Rightarrow> io_writer result option" where
  "Sender_stage1 env n gr identifiers rw =
     bind_run (Some (NewDeriveMultiplyParallelShuffler (seed env) rw n gr)) (\<lambda>writer.
       bind_run (ps_run (ord_write env) identifiers writer) (\<lambda>(err, writer).
         Some (case err of Some e \<Rightarrow> Inl e | None \<Rightarrow> Inr (ps_w writer))))"

fun stage2_loop :: "nat \<Rightarrow> MultiplyParallelReader \<Rightarrow> Writer \<Rightarrow> Writer result" where
  "stage2_loop 0 reader writer = Inr writer"
| "stage2_loop (Suc m) reader writer =
     (case Read_mpr zero_point reader of
        (err, p, reader) \<Rightarrow>
          if err \<noteq> None \<and> err \<noteq> Some EOF then Inl (the err)
          else (case Write p writer of
                  (Some e, writer) \<Rightarrow> Inl (Wrapped ''stage2'' e)
                | (None, writer) \<Rightarrow> stage2_loop m reader writer))"

definition Sender_stage2 :: "dh_env \<Rightarrow> Ristretto \<Rightarrow> io_reader \<Rightarrow> io_writer \<Rightarrow> io_writer result" where
  "Sender_stage2 env gr r rw =
     bind_res (NewMultiplyParallelReader (ord_read env) (early_points env) r gr) (\<lambda>reader.
       bind_res (NewWriter rw (mpr_max reader)) (\<lambda>writer.
         bind_res (stage2_loop (nat (mpr_max reader)) reader writer) (\<lambda>writer. Inr (wr_w writer))))"

text \<open>\<open>r\<close> are the bytes that arrive from the receiver, \<open>rw\<close> is the outgoing side of the connection.\<close>

definition Send :: "('g, 'h) gr_lib \<Rightarrow> 'g \<Rightarrow> ('s, 'e) r255_lib \<Rightarrow> dh_env \<Rightarrow> nat \<Rightarrow> bytes list \<Rightarrow>
    io_reader \<Rightarrow> io_writer \<Rightarrow> io_writer result option" where
  "Send glib grand rlib env n identifiers r rw =
     bind_run (Some (NewRistretto glib grand rlib (uniform env) RistrettoTypeR255)) (\<lambda>gr.
       bind_run (Sel (ctx1 env) (Sender_stage1 env n gr identifiers rw)) (\<lambda>rw.
         Sel (ctx2 env) (Some (Sender_stage2 env gr r rw))))"

definition SendFromReader :: "('g, 'h) gr_lib \<Rightarrow> 'g \<Rightarrow> ('s, 'e) r255_lib \<Rightarrow> dh_env \<Rightarrow> nat \<Rightarrow> stream \<Rightarrow>
    io_reader \<Rightarrow> io_writer \<Rightarrow> io_writer result option" where
  "SendFromReader glib grand rlib env n src r rw = Send glib grand rlib env n (Exhaust n src) r rw"

section \<open>Receiver\<close>

text \<open>Stage 1: the points of the sender, multiplied, are the keys of the map \<open>remoteIDs\<close>.\<close>

lemma Read_mpr_shrinks:
  "Read_mpr p dec = (None, q, dec') \<Longrightarrow> length (mpr_bus dec') < length (mpr_bus dec)"
  by (auto simp: Read_mpr_def split: if_splits list.splits)

function index_remote :: "MultiplyParallelReader \<Rightarrow> point set \<Rightarrow> point set result" where
  "index_remote reader remoteIDs =
     (case Read_mpr zero_point reader of
        (Some e, _, _) \<Rightarrow> if e = EOF then Inr remoteIDs else Inl e
      | (None, p, reader') \<Rightarrow> index_remote reader' (insert p remoteIDs))"
  by auto
termination
  by (relation "measure (\<lambda>(reader, _). length (mpr_bus reader))")
    (auto dest!: sym [of "(None, _, _)"] dest: Read_mpr_shrinks)

declare index_remote.simps [simp del]

definition Receiver_stage1 :: "dh_env \<Rightarrow> Ristretto \<Rightarrow> io_reader \<Rightarrow> point set result" where
  "Receiver_stage1 env gr r =
     bind_res (NewMultiplyParallelReader (ord_read env) (early_points env) r gr) (\<lambda>reader. index_remote reader {})"

text \<open>
  Stage 2.1: every identifier is handed to the main loop, which stores it in \<open>localIDs\<close>, before it is
  shuffled. The channel between them is unbuffered.
\<close>

fun stage21_loop :: "nat list \<Rightarrow> nat \<Rightarrow> bytes list \<Rightarrow> bytes list \<Rightarrow> DeriveMultiplyParallelShuffler \<Rightarrow>
    (bytes list \<times> DeriveMultiplyParallelShuffler) result option" where
  "stage21_loop ord i [] localIDs writer = Some (Inr (localIDs, writer))"
| "stage21_loop ord i (identifier # identifiers) localIDs writer =
     bind_run (Some (go_set localIDs i identifier)) (\<lambda>localIDs.
       bind_run (Shuffle_ps ord identifier writer) (\<lambda>(err, writer).
         case err of Some e \<Rightarrow> Some (Inl e)
         | None \<Rightarrow> stage21_loop ord (i + 1) identifiers localIDs writer))"

definition Receiver_stage21 :: "dh_env \<Rightarrow> nat \<Rightarrow> Ristretto \<Rightarrow> bytes list \<Rightarrow> io_writer \<Rightarrow>
    ((int \<Rightarrow> int option) \<times> bytes list \<times> io_writer) result option" where
  "Receiver_stage21 env n gr identifiers rw =
     bind_run (Some (NewDeriveMultiplyParallelShuffler (seed env) rw n gr)) (\<lambda>writer.
       let permutations = ps_p writer; localIDs = replicate n [] in
       bind_run (stage21_loop (ord_write env) 0 identifiers localIDs writer) (\<lambda>(localIDs, writer).
         Some (Inr (permutations, localIDs, ps_w writer))))"

text \<open>Stage 2.2 with the main loop's reaction to a match.\<close>

fun stage22_loop :: "nat \<Rightarrow> int \<Rightarrow> (int \<Rightarrow> int option) \<Rightarrow> bytes list \<Rightarrow> Reader \<Rightarrow> point set \<Rightarrow> bytes list \<Rightarrow>
    bytes list result option" where
  "stage22_loop 0 i permutations localIDs reader remoteIDs intersection = Some (Inr intersection)"
| "stage22_loop (Suc m) i permutations localIDs reader remoteIDs intersection =
     (case Read zero_point reader of
        (Some e, _, _) \<Rightarrow> Some (Inl (Wrapped ''stage2.2'' e))
      | (None, p, reader) \<Rightarrow>
          if p \<in> remoteIDs
          then Option.bind (permutations i) (\<lambda>pos.
                 bind_run (Some (if pos < 0 then Inl IndexOutOfRange else go_nth localIDs (nat pos))) (\<lambda>x.
                   stage22_loop m (i + 1) permutations localIDs reader (remoteIDs - {p}) (intersection @ [x])))
          else stage22_loop m (i + 1) permutations localIDs reader remoteIDs intersection)"

definition Receiver_stage22 :: "io_reader \<Rightarrow> (int \<Rightarrow> int option) \<Rightarrow> bytes list \<Rightarrow> point set \<Rightarrow> bytes list result option" where
  "Receiver_stage22 r permutations localIDs remoteIDs =
     bind_run (Some (NewReader r)) (\<lambda>reader.
       stage22_loop (nat (rd_max reader)) 0 permutations localIDs reader remoteIDs [])"

text \<open>
  The stages 2.1 and 2.2 run concurrently, but the points that 2.2 reads answer points that the
  parallel shuffler of 2.1 writes only after it has got all identifiers. The bytes for stage 1 and
  for stage 2.2 are \<open>r1\<close> and \<open>r2\<close>: the sender starts to write the second only after the first has
  been read.
\<close>

definition Intersect :: "('g, 'h) gr_lib \<Rightarrow> 'g \<Rightarrow> ('s, 'e) r255_lib \<Rightarrow> dh_env \<Rightarrow> nat \<Rightarrow> bytes list \<Rightarrow>
    io_reader \<Rightarrow> io_reader \<Rightarrow> io_writer \<Rightarrow> (bytes list \<times> io_writer) result option" where
  "Intersect glib grand rlib env n identifiers r1 r2 rw =
     bind_run (Some (NewRistretto glib grand rlib (uniform env) RistrettoTypeR255)) (\<lambda>gr.
       bind_run (Sel (ctx1 env) (Some (Receiver_stage1 env gr r1))) (\<lambda>remoteIDs.
         Sel (ctx2 env)
           (bind_run (Receiver_stage21 env n gr identifiers rw) (\<lambda>(permutations, localIDs, rw).
              bind_run (Receiver_stage22 r2 permutations localIDs remoteIDs) (\<lambda>intersection.
                Some (Inr (intersection, rw)))))))"

definition IntersectFromReader :: "('g, 'h) gr_lib \<Rightarrow> 'g \<Rightarrow> ('s, 'e) r255_lib \<Rightarrow> dh_env \<Rightarrow> nat \<Rightarrow> stream \<Rightarrow>
    io_reader \<Rightarrow> io_reader \<Rightarrow> io_writer \<Rightarrow> (bytes list \<times> io_writer) result option" where
  "IntersectFromReader glib grand rlib env n src r1 r2 rw = Intersect glib grand rlib env n (Exhaust n src) r1 r2 rw"

section \<open>The interface of the protocol to the group\<close>

text \<open>
  What the protocol needs of an implementation \<open>impl l a\<close> with the library \<open>l\<close> and the key \<open>a\<close>:
  multiplications with two keys commute, and for proper keys the doubly multiplied point determines
  the group element \<open>ident l x\<close> that belongs to the identifier.
\<close>

locale commuting_ristretto =
  fixes ok :: "'l \<Rightarrow> bool"
    and key :: "'l \<Rightarrow> 's \<Rightarrow> bool"
    and ident :: "'l \<Rightarrow> bytes \<Rightarrow> 'e"
    and impl :: "'l \<Rightarrow> 's \<Rightarrow> Ristretto"
  assumes commute: "ok l \<Longrightarrow> Multiply (impl l a) (DeriveMultiply (impl l b) x) = Multiply (impl l b) (DeriveMultiply (impl l a) x)"
    and determines: "ok l \<Longrightarrow> key l a \<Longrightarrow> key l b \<Longrightarrow>
      Multiply (impl l a) (DeriveMultiply (impl l b) x) = Multiply (impl l a) (DeriveMultiply (impl l b) y) \<Longrightarrow> ident l x = ident l y"
    and length_DeriveMultiply: "ok l \<Longrightarrow> length (DeriveMultiply (impl l a) x) = EncodedLen"
    and length_Multiply: "ok l \<Longrightarrow> length (Multiply (impl l a) p) = EncodedLen"
begin

definition shared :: "'l \<Rightarrow> 's \<Rightarrow> 's \<Rightarrow> bytes \<Rightarrow> point" where
  "shared l a b x = Multiply (impl l a) (DeriveMultiply (impl l b) x)"

lemma inj_on_shared:
  assumes "ok l" "key l a" "key l b" "inj_on (ident l) X"
  shows "inj_on (shared l a b) X"
proof (rule inj_onI)
  fix x y assume "x \<in> X" "y \<in> X" "shared l a b x = shared l a b y"
  moreover from this(3) have "ident l x = ident l y" unfolding shared_def by (rule determines [OF assms(1-3)])
  ultimately show "x = y" using assms(4) by (simp add: inj_on_def)
qed

lemma shared_commute: "ok l \<Longrightarrow> Multiply (impl l b) (DeriveMultiply (impl l a) x) = shared l a b x"
  by (simp add: shared_def commute)

end

definition r255_ok :: "('s, 'e) r255_lib \<Rightarrow> bool" where
  "r255_ok lib \<longleftrightarrow>
     (\<forall>p. length (Encode lib p) = EncodedLen \<and> Decode lib (Encode lib p) = Some p) \<and>
     (\<forall>a b p. r255_ScalarMult lib a (r255_ScalarMult lib b p) = r255_ScalarMult lib b (r255_ScalarMult lib a p))"

text \<open>A scalar that is not zero: multiplication with it is injective, as the group has prime order.\<close>

definition r255_key :: "('s, 'e) r255_lib \<Rightarrow> 's \<Rightarrow> bool" where
  "r255_key lib a \<longleftrightarrow> (\<forall>p q. r255_ScalarMult lib a p = r255_ScalarMult lib a q \<longrightarrow> p = q)"

definition r255_ident :: "('s, 'e) r255_lib \<Rightarrow> bytes \<Rightarrow> 'e" where
  "r255_ident lib x = FromUniformBytes lib (Sum512 lib x)"

definition gr_ok :: "('s, 'e) gr_lib \<Rightarrow> bool" where
  "gr_ok lib \<longleftrightarrow>
     (\<forall>p. length (BytesInto lib p) = EncodedLen \<and> SetBytes lib (BytesInto lib p) = p) \<and>
     (\<forall>a b p. gr_ScalarMult lib (gr_ScalarMult lib p a) b = gr_ScalarMult lib (gr_ScalarMult lib p b) a)"

definition gr_key :: "('s, 'e) gr_lib \<Rightarrow> 's \<Rightarrow> bool" where
  "gr_key lib a \<longleftrightarrow> (\<forall>p q. gr_ScalarMult lib p a = gr_ScalarMult lib q a \<longrightarrow> p = q)"

lemma length_zero_point [simp]: "length zero_point = EncodedLen"
  by (simp add: zero_point_def)

lemma r255_encoded: "r255_ok lib \<Longrightarrow> length (Encode lib p) = EncodedLen" "r255_ok lib \<Longrightarrow> Decode lib (Encode lib p) = Some p"
  by (simp_all add: r255_ok_def)

lemma R255_shared:
  assumes "r255_ok lib"
  shows "Multiply (R255 lib a) (DeriveMultiply (R255 lib b) x) =
    Encode lib (r255_ScalarMult lib a (r255_ScalarMult lib b (r255_ident lib x)))"
  using assms by (simp add: R255_def Multiply_R255_def DeriveMultiply_R255_def r255_ident_def Let_def r255_encoded)

lemma GR_shared:
  assumes "gr_ok lib"
  shows "Multiply (GR lib a) (DeriveMultiply (GR lib b) x) =
    BytesInto lib (gr_ScalarMult lib (gr_ScalarMult lib (DeriveDalek lib x) b) a)"
  using assms by (simp add: GR_def Multiply_GR_def DeriveMultiply_GR_def Let_def gr_ok_def)

interpretation r255: commuting_ristretto r255_ok r255_key r255_ident R255
proof
  fix l :: "('s, 'e) r255_lib" and a b x y p
  assume ok: "r255_ok l"
  then have comm: "r255_ScalarMult l a (r255_ScalarMult l b p) = r255_ScalarMult l b (r255_ScalarMult l a p)" for a b p
    unfolding r255_ok_def by blast
  show "Multiply (R255 l a) (DeriveMultiply (R255 l b) x) = Multiply (R255 l b) (DeriveMultiply (R255 l a) x)"
    unfolding R255_shared [OF ok] comm [of a b] ..
  show "length (DeriveMultiply (R255 l a) x) = EncodedLen" "length (Multiply (R255 l a) p) = EncodedLen"
    using ok by (simp_all add: R255_def Multiply_R255_def DeriveMultiply_R255_def Let_def r255_encoded)
  assume keys: "r255_key l a" "r255_key l b"
    and "Multiply (R255 l a) (DeriveMultiply (R255 l b) x) = Multiply (R255 l a) (DeriveMultiply (R255 l b) y)"
  from this(3) have "Encode l (r255_ScalarMult l a (r255_ScalarMult l b (r255_ident l x))) =
      Encode l (r255_ScalarMult l a (r255_ScalarMult l b (r255_ident l y)))" (is "Encode l ?p = Encode l ?q")
    unfolding R255_shared [OF ok] .
  then have "Decode l (Encode l ?p) = Decode l (Encode l ?q)" by (rule arg_cong)
  then have "?p = ?q" unfolding r255_encoded(2) [OF ok] by (rule option.inject [THEN iffD1])
  with keys show "r255_ident l x = r255_ident l y" unfolding r255_key_def by blast
qed

interpretation gr: commuting_ristretto gr_ok gr_key DeriveDalek GR
proof
  fix l :: "('s, 'e) gr_lib" and a b x y p
  assume ok: "gr_ok l"
  then have comm: "gr_ScalarMult l (gr_ScalarMult l p b) a = gr_ScalarMult l (gr_ScalarMult l p a) b"
    and inv: "SetBytes l (BytesInto l p) = p" for a b p
    unfolding gr_ok_def by blast+
  show "Multiply (GR l a) (DeriveMultiply (GR l b) x) = Multiply (GR l b) (DeriveMultiply (GR l a) x)"
    unfolding GR_shared [OF ok] comm [of _ b a] ..
  show "length (DeriveMultiply (GR l a) x) = EncodedLen" "length (Multiply (GR l a) p) = EncodedLen"
    using ok by (simp_all add: GR_def Multiply_GR_def DeriveMultiply_GR_def Let_def gr_ok_def)
  assume keys: "gr_key l a" "gr_key l b"
    and "Multiply (GR l a) (DeriveMultiply (GR l b) x) = Multiply (GR l a) (DeriveMultiply (GR l b) y)"
  from this(3) have "BytesInto l (gr_ScalarMult l (gr_ScalarMult l (DeriveDalek l x) b) a) =
      BytesInto l (gr_ScalarMult l (gr_ScalarMult l (DeriveDalek l y) b) a)" (is "BytesInto l ?p = BytesInto l ?q")
    unfolding GR_shared [OF ok] .
  then have "SetBytes l (BytesInto l ?p) = SetBytes l (BytesInto l ?q)" by (rule arg_cong)
  then have "?p = ?q" unfolding inv .
  with keys show "DeriveDalek l x = DeriveDalek l y" unfolding gr_key_def by blast
qed

section \<open>The stages\<close>

text \<open>Every point of the shuffler costs one call of the writer.\<close>

lemma ps_flush_budget:
  "ps_flush is enc = Some (Inr (None, enc')) \<Longrightarrow> budget (ps_w enc) = budget (ps_w enc') + length is"
proof (induction "is" arbitrary: enc)
  case (Cons i "is")
  obtain pos where pos: "ps_p enc (int i) = Some pos" using Cons.prems by (auto simp: bind_eq_Some_conv)
  with Cons.prems obtain p where p: "(if pos < 0 then Inl IndexOutOfRange else go_nth (ps_points enc) (nat pos)) = Inr p"
    by (auto split: sum.splits)
  obtain w where w: "budget w + 1 = budget (ps_w enc)" "ps_flush is (enc\<lparr>ps_w := w\<rparr>) = Some (Inr (None, enc'))"
    using Cons.prems pos p
    by (cases "budget (ps_w enc)") (auto simp: io_write_def intro: that [of "\<lparr>wrote = wrote (ps_w enc) @ p, budget = budget (ps_w enc) - 1\<rparr>"])
  with Cons.IH [OF w(2)] show ?case by simp
qed simp

lemma ps_flush_keeps: "ps_flush is enc = Some (Inr (e, enc')) \<Longrightarrow> ps_max enc' = ps_max enc \<and> ps_seq enc' = ps_seq enc"
proof (induction "is" arbitrary: enc)
  case (Cons i "is")
  obtain pos where pos: "ps_p enc (int i) = Some pos" using Cons.prems by (auto simp: bind_eq_Some_conv)
  with Cons.prems obtain p where p: "(if pos < 0 then Inl IndexOutOfRange else go_nth (ps_points enc) (nat pos)) = Inr p"
    by (auto split: sum.splits)
  show ?case using Cons.prems pos p by (auto simp: io_write_def split: if_splits dest!: Cons.IH)
qed simp

lemma wait_jobs_keeps:
  "wait_jobs ord enc = Inr enc' \<Longrightarrow> ps_w enc' = ps_w enc \<and> ps_max enc' = ps_max enc \<and> ps_seq enc' = ps_seq enc"
  by (auto simp: wait_jobs_def bind_res_Inr_iff)

lemma Shuffle_ps_budget:
  assumes "Shuffle_ps ord x enc = Some (Inr (None, enc'))"
  shows "ps_max enc' = ps_max enc \<and> ps_seq enc' = ps_seq enc + 1 \<and> budget (ps_w enc) \<le> budget (ps_w enc') + ps_max enc \<and>
    (ps_seq enc' \<noteq> ps_max enc' \<longrightarrow> budget (ps_w enc') = budget (ps_w enc))"
proof -
  let ?k = "ps_seq enc mod batchSize" let ?enc1 = "ps_advance x enc"
  have seq: "ps_seq enc \<noteq> ps_max enc" using assms by (auto simp: Shuffle_ps_def)
  have k: "go_set (dmb_batch (ps_b enc)) ?k x = Inr ((dmb_batch (ps_b enc))[?k := x])"
    using assms seq by (auto simp: Shuffle_ps_def go_set_def Let_def split: if_splits)
  have flush: "(if ps_seq ?enc1 = ps_max ?enc1
        then (case wait_jobs ord ?enc1 of Inl e \<Rightarrow> Some (Inl e) | Inr enc \<Rightarrow> ps_flush [0..<ps_max enc] enc)
        else Some (Inr (None, ?enc1))) = Some (Inr (None, enc'))"
    using assms seq unfolding Shuffle_ps_def ps_advance_def Let_def k by (simp only: if_False sum.case dmBatch.simps)
  show ?thesis
  proof (cases "ps_seq ?enc1 = ps_max ?enc1")
    case True
    with flush obtain enc2 where "wait_jobs ord ?enc1 = Inr enc2" "ps_flush [0..<ps_max enc2] enc2 = Some (Inr (None, enc'))"
      by (auto split: sum.splits)
    with wait_jobs_keeps [OF this(1)] ps_flush_budget [OF this(2)] ps_flush_keeps [OF this(2)] True
    show ?thesis by simp
  next
    case False
    with flush have "enc' = ?enc1" by simp
    with False show ?thesis by simp
  qed
qed

lemma ps_run_ConsE:
  assumes "ps_run ord (x # xs) enc = Some (Inr (None, enc'))"
  obtains enc1 where "Shuffle_ps ord x enc = Some (Inr (None, enc1))" "ps_run ord xs enc1 = Some (Inr (None, enc'))"
proof (cases "Shuffle_ps ord x enc")
  case (Some r)
  with assms that show thesis by (cases r) (auto split: option.splits)
qed (use assms in simp)

lemma ps_run_budget:
  "ps_run ord ids enc = Some (Inr (None, enc')) \<Longrightarrow> budget (ps_w enc) \<le> budget (ps_w enc') + ps_max enc"
proof (induction ids arbitrary: enc)
  case (Cons x xs)
  from Cons.prems obtain enc1 where enc1: "Shuffle_ps ord x enc = Some (Inr (None, enc1))" "ps_run ord xs enc1 = Some (Inr (None, enc'))"
    by (blast elim: ps_run_ConsE)
  note b = Shuffle_ps_budget [OF enc1(1)]
  show ?case
  proof (cases "ps_seq enc1 = ps_max enc1")
    case True
    then have "xs = []" using enc1(2) by (cases xs) (auto simp: Shuffle_ps_def)
    with enc1(2) b show ?thesis by simp
  next
    case False
    with Cons.IH [OF enc1(2)] b show ?thesis by simp
  qed
qed simp

lemma ps_run_seq:
  "ps_run ord ids enc = Some (Inr (None, enc')) \<Longrightarrow> ps_max enc' = ps_max enc \<and> ps_seq enc' = ps_seq enc + length ids"
proof (induction ids arbitrary: enc)
  case (Cons x xs)
  from Cons.prems obtain enc1 where enc1: "Shuffle_ps ord x enc = Some (Inr (None, enc1))" "ps_run ord xs enc1 = Some (Inr (None, enc'))"
    by (blast elim: ps_run_ConsE)
  with Cons.IH [OF enc1(2)] Shuffle_ps_budget [OF enc1(1)] show ?case by simp
qed simp

lemma ps_run_append:
  "ps_run ord xs enc = Some (Inr (None, enc')) \<Longrightarrow> ps_run ord (xs @ ys) enc = ps_run ord ys enc'"
proof (induction xs arbitrary: enc)
  case (Cons x xs)
  from Cons.prems obtain enc1 where enc1: "Shuffle_ps ord x enc = Some (Inr (None, enc1))" "ps_run ord xs enc1 = Some (Inr (None, enc'))"
    by (blast elim: ps_run_ConsE)
  with Cons.IH [OF enc1(2)] show ?case by simp
qed simp

lemma stage21_loop_append:
  "stage21_loop ord i xs L enc = Some (Inr (L', enc')) \<Longrightarrow>
   stage21_loop ord i (xs @ ys) L enc = stage21_loop ord (i + length xs) ys L' enc'"
proof (induction xs arbitrary: i L enc)
  case (Cons x xs)
  then obtain L1 enc1 where "go_set L i x = Inr L1" "Shuffle_ps ord x enc = Some (Inr (None, enc1))"
      "stage21_loop ord (i + 1) xs L1 enc1 = Some (Inr (L', enc'))"
    by (auto simp: bind_run_Inr_iff split: option.splits)
  with Cons.IH [of "i + 1" L1 enc1] show ?case by simp
qed simp

lemma stage21_loop_run:
  "ps_run ord ids enc = Some (Inr (None, enc')) \<Longrightarrow> i + length ids \<le> length L \<Longrightarrow>
   stage21_loop ord i ids L enc = Some (Inr (take i L @ ids @ drop (i + length ids) L, enc'))"
proof (induction ids arbitrary: i L enc)
  case (Cons x xs)
  from Cons.prems obtain enc1 where enc1: "Shuffle_ps ord x enc = Some (Inr (None, enc1))" "ps_run ord xs enc1 = Some (Inr (None, enc'))"
    by (blast elim: ps_run_ConsE)
  have i: "i < length L" using Cons.prems(2) by simp
  then have "take (Suc i) (L[i := x]) = take i L @ [x]" by (simp add: take_Suc_conv_app_nth)
  with Cons.IH [OF enc1(2), of "i + 1" "L[i := x]"] Cons.prems(2) enc1(1) i show ?case
    by (simp add: go_set_def)
qed simp

lemma index_remote_spec:
  "mpr_seq dec + int (length (mpr_bus dec)) = mpr_max dec \<Longrightarrow> index_remote dec R = Inr (R \<union> set (mpr_bus dec))"
proof (induction "mpr_bus dec" arbitrary: dec R)
  case Nil
  then show ?case by (subst index_remote.simps) (simp add: Read_mpr_def)
next
  case (Cons p ps)
  let ?dec = "dec\<lparr>mpr_seq := mpr_seq dec + 1, mpr_bus := ps\<rparr>"
  have "Read_mpr zero_point dec = (None, p, ?dec)"
    using Cons.prems Cons.hyps(2) [symmetric] by (simp add: Read_mpr_def)
  moreover have "index_remote ?dec (insert p R) = Inr (insert p R \<union> set (mpr_bus ?dec))"
    using Cons.prems Cons.hyps(2) [symmetric] by (intro Cons.hyps(1)) simp_all
  ultimately show ?case using Cons.hyps(2) [symmetric] by (subst index_remote.simps) simp
qed

lemma stage2_loop_spec:
  "mpr_seq dec + int (length (mpr_bus dec)) = mpr_max dec \<Longrightarrow> wr_seq w + int (length (mpr_bus dec)) \<le> wr_max w \<Longrightarrow>
   length (mpr_bus dec) \<le> budget (wr_w w) \<Longrightarrow>
   \<exists>w'. stage2_loop (length (mpr_bus dec)) dec w = Inr w' \<and> wrote (wr_w w') = wrote (wr_w w) @ concat (mpr_bus dec)"
proof (induction "mpr_bus dec" arbitrary: dec w)
  case Nil
  then show ?case by simp
next
  case (Cons p ps)
  let ?dec = "dec\<lparr>mpr_seq := mpr_seq dec + 1, mpr_bus := ps\<rparr>"
  let ?w = "w\<lparr>wr_w := \<lparr>wrote = wrote (wr_w w) @ p, budget = budget (wr_w w) - 1\<rparr>, wr_seq := wr_seq w + 1\<rparr>"
  note bus = Cons.hyps(2) [symmetric]
  have "Read_mpr zero_point dec = (None, p, ?dec)" using Cons.prems bus by (simp add: Read_mpr_def)
  moreover have "Write p w = (None, ?w)" using Cons.prems bus by (auto simp: Write_def io_write_def)
  moreover have "\<exists>w'. stage2_loop (length (mpr_bus ?dec)) ?dec ?w = Inr w' \<and> wrote (wr_w w') = wrote (wr_w ?w) @ concat (mpr_bus ?dec)"
    using Cons.prems bus by (intro Cons.hyps(1)) simp_all
  ultimately show ?case using bus by simp
qed

text \<open>What stage 2.2 computes, on lists of points.\<close>

fun matches :: "(nat \<Rightarrow> bytes) \<Rightarrow> nat \<Rightarrow> point list \<Rightarrow> point set \<Rightarrow> bytes list" where
  "matches f i [] R = []"
| "matches f i (p # ps) R = (if p \<in> R then f i # matches f (Suc i) ps (R - {p}) else matches f (Suc i) ps R)"

lemma matches_spec:
  assumes "inj_on F X" and "f ` {i..<i + m} \<subseteq> X"
  shows "set (matches f i (map (\<lambda>j. F (f j)) [i..<i + m]) R) = {x \<in> f ` {i..<i + m}. F x \<in> R} \<and>
    distinct (matches f i (map (\<lambda>j. F (f j)) [i..<i + m]) R)"
  using assms(2)
proof (induction m arbitrary: i R)
  case (Suc m)
  have split: "[i..<i + Suc m] = i # [Suc i..<Suc i + m]" "{i..<i + Suc m} = insert i {Suc i..<Suc i + m}"
    by (auto simp: upt_rec)
  have sub: "f ` {Suc i..<Suc i + m} \<subseteq> X" "f i \<in> X" using Suc.prems unfolding split(2) by auto
  have inj: "F x = F (f i) \<longleftrightarrow> x = f i" if "x \<in> f ` {Suc i..<Suc i + m}" for x
    using inj_on_eq_iff [OF assms(1), of x "f i"] that sub by blast
  note IH = Suc.IH [OF sub(1)]
  show ?case
  proof (cases "F (f i) \<in> R")
    case True
    then show ?thesis unfolding split using IH [of "R - {F (f i)}"] inj by auto
  next
    case False
    then show ?thesis unfolding split using IH [of R] inj by auto
  qed
qed simp

lemma stage22_loop_spec:
  assumes "aligned (rd_r rd)" and "concat (rd_r rd) = concat ps" and "\<forall>p\<in>set ps. length p = EncodedLen"
    and "rd_seq rd + int (length ps) \<le> rd_max rd"
    and "\<forall>j<i + length ps. permutations (int j) = Some (int (perm j)) \<and> perm j < length L"
  shows "stage22_loop (length ps) (int i) permutations L rd R acc =
    Some (Inr (acc @ matches (\<lambda>j. L ! perm j) i ps R))"
  using assms
proof (induction ps arbitrary: rd i R acc)
  case (Cons p ps)
  have "rd_seq rd \<noteq> rd_max rd" using Cons.prems(4) by simp
  then obtain rd' where rd': "Read zero_point rd = (None, p, rd')" "aligned (rd_r rd')" "concat (rd_r rd') = concat ps"
      "rd_seq rd' = rd_seq rd + 1" "rd_max rd' = rd_max rd"
    using Read_aligned [OF Cons.prems(1), of p "concat ps"] Cons.prems(2,3) by auto
  have i: "permutations (int i) = Some (int (perm i))" "perm i < length L" using Cons.prems(5) by simp_all
  have next_i: "int i + 1 = int (Suc i)" by simp
  have "stage22_loop (length ps) (int (Suc i)) permutations L rd' R' acc' =
      Some (Inr (acc' @ matches (\<lambda>j. L ! perm j) (Suc i) ps R'))" for R' acc'
    using Cons.prems rd' by (intro Cons.IH) simp_all
  with rd'(1) i show ?case unfolding list.size add_0_right add_Suc_right stage22_loop.simps next_i
    by (simp add: go_nth_def)
qed simp

section \<open>Complete stages\<close>

lemma Sender_stage1_spec:
  assumes "0 < length ids" and "length ids \<le> 2147483649" and "length ids < budget w"
    and "mset (ord_write env) = mset [0..<(length ids + 511) div batchSize]" and "seed env = Inr x"
  shows "\<exists>k w'. kensler_valid k (length ids) \<and> Sender_stage1 env (length ids) gr ids w = Some (Inr w') \<and>
    wrote w' = wrote w @ be_put64 (word_of_int (int (length ids))) @ permuted_points (DeriveMultiply gr) (kensler.pos k) ids (length ids) \<and>
    budget w \<le> budget w' + length ids + 1"
proof -
  obtain k enc enc' where k: "kensler_valid k (length ids)"
      "NewDeriveMultiplyParallelShuffler (Inr x) w (length ids) gr = Inr enc"
      "ps_run (ord_write env) ids enc = Some (Inr (None, enc'))"
      "wrote (ps_w enc') = wrote w @ be_put64 (of_nat (length ids)) @
        permuted_points (DeriveMultiply gr) (kensler.pos k) ids (length ids)"
    using parallel_shuffler_writes [OF assms(1-4)] by blast
  have "budget (ps_w enc) + 1 = budget w" "ps_max enc = length ids"
    using k(2) assms(3) by (auto simp: NewDeriveMultiplyParallelShuffler_def io_write_def bind_res_Inr_iff Let_def)
  with ps_run_budget [OF k(3)] k assms(5) show ?thesis
    by (intro exI [of _ k] exI [of _ "ps_w enc'"]) (simp add: Sender_stage1_def)
qed

lemma Receiver_stage21_spec:
  assumes "0 < length ids" and "length ids \<le> 2147483649" and "length ids < budget w"
    and "mset (ord_write env) = mset [0..<(length ids + 511) div batchSize]" and "seed env = Inr x"
  shows "\<exists>k w'. kensler_valid k (length ids) \<and>
    Receiver_stage21 env (length ids) gr ids w = Some (Inr (Shuffle_kensler k, ids, w')) \<and>
    wrote w' = wrote w @ be_put64 (word_of_int (int (length ids))) @ permuted_points (DeriveMultiply gr) (kensler.pos k) ids (length ids)"
proof -
  obtain k enc enc' where k: "kensler_valid k (length ids)"
      "NewDeriveMultiplyParallelShuffler (Inr x) w (length ids) gr = Inr enc" "ps_p enc = Shuffle_kensler k"
      "ps_run (ord_write env) ids enc = Some (Inr (None, enc'))"
      "wrote (ps_w enc') = wrote w @ be_put64 (of_nat (length ids)) @
        permuted_points (DeriveMultiply gr) (kensler.pos k) ids (length ids)"
    using parallel_shuffler_writes [OF assms(1-4)] by blast
  with stage21_loop_run [OF k(4), of 0 "replicate (length ids) []"] assms(5) show ?thesis
    by (intro exI [of _ k] exI [of _ "ps_w enc'"]) (simp add: Receiver_stage21_def Let_def)
qed

text \<open>A stream that carries the points \<open>ps\<close> behind their number.\<close>

definition carries :: "io_reader \<Rightarrow> point list \<Rightarrow> bool" where
  "carries r ps \<longleftrightarrow> concat r = be_put64 (word_of_int (int (length ps))) @ concat ps \<and> points_aligned r \<and>
     (\<forall>p\<in>set ps. length p = EncodedLen) \<and> length ps < 2 ^ 63"

lemma Receiver_stage1_spec:
  assumes "carries r ps" and "mset (ord_read env) = mset [0..<(length ps + 511) div batchSize]"
  shows "Receiver_stage1 env gr r = Inr (Multiply gr ` set ps)"
  using NewMultiplyParallelReader_spec [of r ps "ord_read env" "early_points env" gr] assms
  by (simp add: carries_def Receiver_stage1_def index_remote_spec)

lemma Sender_stage2_spec:
  assumes "carries r ps" and "mset (ord_read env) = mset [0..<(length ps + 511) div batchSize]" and "length ps < budget w"
  shows "\<exists>w'. Sender_stage2 env gr r w = Inr w' \<and>
    wrote w' = wrote w @ be_put64 (word_of_int (int (length ps))) @ concat (map (Multiply gr) ps)"
proof -
  let ?dec = "\<lparr>mpr_max = int (length ps), mpr_seq = 0, mpr_bus = map (Multiply gr) ps\<rparr>"
  let ?w = "\<lparr>wr_w = \<lparr>wrote = wrote w @ be_put64 (word_of_int (int (length ps))), budget = budget w - 1\<rparr>, wr_max = int (length ps), wr_seq = 0\<rparr>"
  have "NewMultiplyParallelReader (ord_read env) (early_points env) r gr = Inr ?dec"
    using assms by (intro NewMultiplyParallelReader_spec) (auto simp: carries_def)
  moreover have "NewWriter w (int (length ps)) = Inr ?w" using assms(3) by (simp add: NewWriter_def io_write_def)
  moreover obtain w' where "stage2_loop (length ps) ?dec ?w = Inr w'" "wrote (wr_w w') = wrote (wr_w ?w) @ concat (mpr_bus ?dec)"
  proof -
    have "length ps \<le> budget (wr_w ?w)" using assms(3) by simp
    then show thesis using stage2_loop_spec [of ?dec ?w] that by auto
  qed
  ultimately show ?thesis by (simp add: Sender_stage2_def)
qed

lemma Receiver_stage22_spec:
  assumes "carries r ps" and "length ps = length L" and "kensler_valid k (length L)"
  shows "Receiver_stage22 r (Shuffle_kensler k) L R = Some (Inr (matches (\<lambda>j. L ! kensler.pos k j) 0 ps R))"
proof -
  have "int (length ps) < 2 ^ 63" using assms(1) unfolding carries_def by (metis of_nat_less_iff of_nat_numeral of_nat_power)
  then obtain r0 where r0: "NewReader r = Inr \<lparr>rd_r = r0, rd_seq = 0, rd_max = int (length ps)\<rparr>"
      "concat r0 = concat ps" "r0 = snd (read_full 8 [] r)"
    using NewReader_spec [of r "int (length ps)" "concat ps"] assms(1) by (auto simp: carries_def)
  have "stage22_loop (length ps) (int 0) (Shuffle_kensler k) L \<lparr>rd_r = r0, rd_seq = 0, rd_max = int (length ps)\<rparr> R [] =
      Some (Inr ([] @ matches (\<lambda>j. L ! kensler.pos k j) 0 ps R))"
    using assms r0 by (intro stage22_loop_spec)
      (auto simp: carries_def points_aligned_def kensler.shuffle_pos kensler.pos_less)
  with r0(1) show ?thesis by (simp add: Receiver_stage22_def)
qed

section \<open>The protocol\<close>

text \<open>The bytes \<open>bs\<close> arrive in the pieces \<open>r\<close>, no point is torn apart.\<close>

definition delivers :: "io_reader \<Rightarrow> bytes \<Rightarrow> bool" where
  "delivers r bs \<longleftrightarrow> concat r = bs \<and> points_aligned r"

text \<open>
  A run without cancellation in which the random source works and all batches of the \<open>n\<close> points
  written and the \<open>m\<close> points read are processed, in any order.
\<close>

definition env_ok :: "dh_env \<Rightarrow> nat \<Rightarrow> nat \<Rightarrow> bytes \<Rightarrow> bool" where
  "env_ok env n m u \<longleftrightarrow> ctx1 env = None \<and> ctx2 env = None \<and> uniform env = Inr u \<and> (\<exists>x. seed env = Inr x) \<and>
     mset (ord_write env) = mset [0..<(n + 511) div batchSize] \<and> mset (ord_read env) = mset [0..<(m + 511) div batchSize]"

definition sent_points :: "Ristretto \<Rightarrow> kensler \<Rightarrow> bytes list \<Rightarrow> point list" where
  "sent_points gr k ids = map (\<lambda>i. DeriveMultiply gr (ids ! kensler.pos k i)) [0..<length ids]"

lemma length_sent_points [simp]: "length (sent_points gr k ids) = length ids"
  by (simp add: sent_points_def)

lemma image_pos:
  assumes "kensler_valid k (length ids)"
  shows "(\<lambda>j. ids ! kensler.pos k j) ` {0..<length ids} = set ids"
proof -
  have "(\<lambda>j. ids ! kensler.pos k j) ` {0..<length ids} = (!) ids ` (kensler.pos k ` {..<length ids})"
    by (auto simp: image_image atLeast0LessThan)
  also have "\<dots> = (!) ids ` {..<length ids}" using kensler.bij_betw_pos [OF assms] by (simp add: bij_betw_def)
  also have "\<dots> = set ids" by (auto simp: in_set_conv_nth)
  finally show ?thesis .
qed

lemma set_sent_points:
  assumes "kensler_valid k (length ids)"
  shows "set (sent_points gr k ids) = DeriveMultiply gr ` set ids"
proof -
  have "set (sent_points gr k ids) = DeriveMultiply gr ` ((\<lambda>j. ids ! kensler.pos k j) ` {0..<length ids})"
    by (simp add: sent_points_def image_image)
  then show ?thesis by (simp only: image_pos [OF assms])
qed

lemma carriesI:
  assumes "delivers r (be_put64 (word_of_int (int (length ps))) @ concat ps)" and "\<forall>p\<in>set ps. length p = EncodedLen"
    and "length ps \<le> 2147483649"
  shows "carries r ps"
  using assms by (simp add: delivers_def carries_def)

context commuting_ristretto
begin

lemma matches_intersection:
  assumes "ok l" "key l a" "key l b" "inj_on (ident l) (set xs \<union> set ys)"
    and k: "kensler_valid k (length xs)" "kensler_valid k' (length ys)"
  shows "let zs = matches (\<lambda>j. ys ! kensler.pos k' j) 0 (map (Multiply (impl l a)) (sent_points (impl l b) k' ys))
           (Multiply (impl l b) ` set (sent_points (impl l a) k xs))
    in set zs = set xs \<inter> set ys \<and> distinct zs"
proof -
  let ?F = "shared l a b" and ?f = "\<lambda>j. ys ! kensler.pos k' j"
  have inj: "inj_on ?F (set xs \<union> set ys)" using assms by (intro inj_on_shared) auto
  have R: "Multiply (impl l b) ` set (sent_points (impl l a) k xs) = ?F ` set xs"
    unfolding set_sent_points [OF k(1)] image_image using shared_commute [OF assms(1)] by simp
  have P: "map (Multiply (impl l a)) (sent_points (impl l b) k' ys) = map (\<lambda>j. ?F (?f j)) [0..<0 + length ys]"
    by (simp add: sent_points_def shared_def)
  have f: "?f ` {0..<0 + length ys} = set ys" using image_pos [OF k(2)] by simp
  have "?F x \<in> ?F ` set xs \<longleftrightarrow> x \<in> set xs" if "x \<in> set ys" for x
    using inj that by (auto simp: inj_on_def)
  with matches_spec [OF inj, of ?f 0 "length ys" "?F ` set xs"] show ?thesis
    unfolding R P f Let_def by auto
qed

lemma protocol_run:
  fixes l a b
  defines "A \<equiv> impl l a" and "B \<equiv> impl l b"
  assumes "ok l" "key l a" "key l b" "inj_on (ident l) (set xs \<union> set ys)"
    and xs: "0 < length xs" "length xs \<le> 2147483649" and ys: "0 < length ys" "length ys \<le> 2147483649"
    and budgets: "length xs + length ys + 1 < budget w" "length ys < budget v"
    and envs: "env_ok e (length xs) (length ys) u" "env_ok e' (length ys) (length xs) u'"
  shows "\<exists>s1 t s2 zs. set zs = set xs \<inter> set ys \<and> distinct zs \<and>
    (\<forall>r1 r2 r3. delivers r1 s1 \<and> delivers r2 t \<and> delivers r3 s2 \<longrightarrow>
      (\<exists>w1 w2 R p L v'. Sender_stage1 e (length xs) A xs w = Some (Inr w1) \<and> Sender_stage2 e A r2 w1 = Inr w2 \<and>
        wrote w2 = wrote w @ s1 @ s2 \<and>
        Receiver_stage1 e' B r1 = Inr R \<and> Receiver_stage21 e' (length ys) B ys v = Some (Inr (p, L, v')) \<and>
        Receiver_stage22 r3 p L R = Some (Inr zs) \<and> wrote v' = wrote v @ t))"
proof -
  have len: "length (DeriveMultiply A x) = EncodedLen" "length (DeriveMultiply B x) = EncodedLen"
      "length (Multiply A p) = EncodedLen" for x p
    unfolding A_def B_def by (simp_all add: length_DeriveMultiply length_Multiply assms(3))
  have "length xs < budget w" using budgets(1) by simp
  then obtain k w1 where k: "kensler_valid k (length xs)" "Sender_stage1 e (length xs) A xs w = Some (Inr w1)"
      "wrote w1 = wrote w @ be_put64 (word_of_int (int (length xs))) @ concat (sent_points A k xs)"
      "budget w \<le> budget w1 + length xs + 1"
    using Sender_stage1_spec [OF xs, of w e _ A] envs(1) by (auto simp: env_ok_def permuted_points_def sent_points_def)
  obtain k' v' where k': "kensler_valid k' (length ys)"
      "Receiver_stage21 e' (length ys) B ys v = Some (Inr (Shuffle_kensler k', ys, v'))"
      "wrote v' = wrote v @ be_put64 (word_of_int (int (length ys))) @ concat (sent_points B k' ys)"
    using Receiver_stage21_spec [OF ys budgets(2), of e' _ B] envs(2) by (auto simp: env_ok_def permuted_points_def sent_points_def)
  let ?P1 = "sent_points A k xs" and ?P2 = "sent_points B k' ys" let ?P3 = "map (Multiply A) ?P2"
  let ?R = "Multiply B ` set ?P1"
  let ?zs = "matches (\<lambda>j. ys ! kensler.pos k' j) 0 ?P3 ?R"
  have zs: "set ?zs = set xs \<inter> set ys \<and> distinct ?zs"
    using matches_intersection [OF assms(3-6) k(1) k'(1)] unfolding A_def B_def Let_def .
  have run: "\<exists>w2. Sender_stage2 e A r2 w1 = Inr w2 \<and> wrote w2 = wrote w1 @ be_put64 (word_of_int (int (length ?P2))) @ concat ?P3 \<and>
      Receiver_stage1 e' B r1 = Inr ?R \<and> Receiver_stage22 r3 (Shuffle_kensler k') ys ?R = Some (Inr ?zs)"
    if "delivers r1 (be_put64 (word_of_int (int (length ?P1))) @ concat ?P1)"
      "delivers r2 (be_put64 (word_of_int (int (length ?P2))) @ concat ?P2)"
      "delivers r3 (be_put64 (word_of_int (int (length ?P3))) @ concat ?P3)" for r1 r2 r3
  proof -
    have c: "carries r1 ?P1" "carries r2 ?P2" "carries r3 ?P3"
      using that xs ys len by (auto intro!: carriesI simp: sent_points_def)
    have "length ?P2 < budget w1" using k(4) budgets(1) by simp
    with Sender_stage2_spec [OF c(2)] Receiver_stage1_spec [OF c(1)] Receiver_stage22_spec [OF c(3) _ k'(1)] envs
    show ?thesis by (simp add: env_ok_def)
  qed
  let ?s1 = "be_put64 (word_of_int (int (length ?P1))) @ concat ?P1"
  let ?t = "be_put64 (word_of_int (int (length ?P2))) @ concat ?P2"
  let ?s2 = "be_put64 (word_of_int (int (length ?P3))) @ concat ?P3"
  have "\<exists>w1 w2 R p L v'. Sender_stage1 e (length xs) A xs w = Some (Inr w1) \<and> Sender_stage2 e A r2 w1 = Inr w2 \<and>
      wrote w2 = wrote w @ ?s1 @ ?s2 \<and> Receiver_stage1 e' B r1 = Inr R \<and>
      Receiver_stage21 e' (length ys) B ys v = Some (Inr (p, L, v')) \<and>
      Receiver_stage22 r3 p L R = Some (Inr ?zs) \<and> wrote v' = wrote v @ ?t"
    if d: "delivers r1 ?s1 \<and> delivers r2 ?t \<and> delivers r3 ?s2" for r1 r2 r3
  proof -
    from run [of r1 r2 r3] d obtain w2 where w2: "Sender_stage2 e A r2 w1 = Inr w2"
      "wrote w2 = wrote w1 @ be_put64 (word_of_int (int (length ?P2))) @ concat ?P3"
      "Receiver_stage1 e' B r1 = Inr ?R" "Receiver_stage22 r3 (Shuffle_kensler k') ys ?R = Some (Inr ?zs)" by blast
    show ?thesis
      by (intro exI conjI) (rule k(2) w2(1) w2(3) k'(2) w2(4) | simp add: w2(2) k(3) k'(3))+
  qed
  with zs show ?thesis by blast
qed

end

section \<open>Properties\<close>

text \<open>A run of the Diffie-Hellman protocol.\<close>

lemma dhpsi_run:
  assumes "r255_ok lib" and "r255_key lib (ScalarFromUniformBytes lib u)" and "r255_key lib (ScalarFromUniformBytes lib u')"
    and "inj_on (r255_ident lib) (set xs \<union> set ys)"
    and "0 < length xs" and "length xs \<le> 2147483649" and "0 < length ys" and "length ys \<le> 2147483649"
    and "length xs + length ys + 1 < budget w" and "length ys < budget v"
    and "env_ok e (length xs) (length ys) u" and "env_ok e' (length ys) (length xs) u'"
  shows "\<exists>s1 t s2 zs. set zs = set xs \<inter> set ys \<and> distinct zs \<and>
    (\<forall>r1 r2 r3. delivers r1 s1 \<and> delivers r2 t \<and> delivers r3 s2 \<longrightarrow>
      (\<exists>w' v'. Send glib g lib e (length xs) xs r2 w = Some (Inr w') \<and> wrote w' = wrote w @ s1 @ s2 \<and>
        Intersect glib g lib e' (length ys) ys r1 r3 v = Some (Inr (zs, v')) \<and> wrote v' = wrote v @ t))"
proof -
  have env: "ctx1 e = None" "ctx2 e = None" "uniform e = Inr u" "ctx1 e' = None" "ctx2 e' = None" "uniform e' = Inr u'"
    using assms(11,12) by (simp_all add: env_ok_def)
  have gr: "NewRistretto glib g lib (Inr x) RistrettoTypeR255 = Inr (R255 lib (ScalarFromUniformBytes lib x))" for x
    by (simp add: NewRistretto_def RistrettoTypeR255_def RistrettoTypeGR_def)
  obtain s1 t s2 zs where zs: "set zs = set xs \<inter> set ys" "distinct zs" and run: "\<And>r1 r2 r3.
      delivers r1 s1 \<and> delivers r2 t \<and> delivers r3 s2 \<Longrightarrow>
      \<exists>w1 w2 R p L v'. Sender_stage1 e (length xs) (R255 lib (ScalarFromUniformBytes lib u)) xs w = Some (Inr w1) \<and>
        Sender_stage2 e (R255 lib (ScalarFromUniformBytes lib u)) r2 w1 = Inr w2 \<and> wrote w2 = wrote w @ s1 @ s2 \<and>
        Receiver_stage1 e' (R255 lib (ScalarFromUniformBytes lib u')) r1 = Inr R \<and>
        Receiver_stage21 e' (length ys) (R255 lib (ScalarFromUniformBytes lib u')) ys v = Some (Inr (p, L, v')) \<and>
        Receiver_stage22 r3 p L R = Some (Inr zs) \<and> wrote v' = wrote v @ t"
    using r255.protocol_run [OF assms] by blast
  have "\<exists>w' v'. Send glib g lib e (length xs) xs r2 w = Some (Inr w') \<and> wrote w' = wrote w @ s1 @ s2 \<and>
        Intersect glib g lib e' (length ys) ys r1 r3 v = Some (Inr (zs, v')) \<and> wrote v' = wrote v @ t"
    if "delivers r1 s1 \<and> delivers r2 t \<and> delivers r3 s2" for r1 r2 r3
    using run [OF that] by (auto simp: Send_def Intersect_def env gr)
  with zs show ?thesis by blast
qed

text \<open>
  Property C2. The Diffie-Hellman protocol computes the intersection: there are messages \<open>s1\<close>, \<open>t\<close> and
  \<open>s2\<close> such that, however they are cut into pieces between points and in whatever order the workers
  finish, the sender terminates without error after writing \<open>s1\<close> and \<open>s2\<close>, the receiver writes
  \<open>t\<close> and returns every common identifier exactly once and nothing else. It is assumed that the
  group elements of different identifiers differ.
\<close>
theorem dhpsi_intersection:
  assumes "r255_ok lib" and "r255_key lib (ScalarFromUniformBytes lib u)" and "r255_key lib (ScalarFromUniformBytes lib u')"
    and "inj_on (r255_ident lib) (set xs \<union> set ys)"
    and "0 < length xs" and "length xs \<le> 2147483649" and "0 < length ys" and "length ys \<le> 2147483649"
    and "length xs + length ys + 1 < budget w" and "length ys < budget v"
    and "env_ok e (length xs) (length ys) u" and "env_ok e' (length ys) (length xs) u'"
  shows "\<exists>s1 t s2 zs. set zs = set xs \<inter> set ys \<and> distinct zs \<and>
    (\<forall>r1 r2 r3. delivers r1 s1 \<and> delivers r2 t \<and> delivers r3 s2 \<longrightarrow>
      (\<exists>w' v'. Send glib g lib e (length xs) xs r2 w = Some (Inr w') \<and> wrote w' = wrote w @ s1 @ s2 \<and>
        Intersect glib g lib e' (length ys) ys r1 r3 v = Some (Inr (zs, v')) \<and> wrote v' = wrote v @ t))"
  by (rule dhpsi_run [OF assms])

text \<open>A small group in place of the libraries: odd numbers act on bytes by multiplication.\<close>

definition r255_toy :: "(byte, byte) r255_lib" where
  "r255_toy = \<lparr>Sum512 = (\<lambda>x. replicate 63 0 @ [fold (+) x 0]), NewElement = 0, FromUniformBytes = last,
     ScalarFromUniformBytes = (\<lambda>u. 1 + 2 * hd u), r255_ScalarMult = (*), Encode = (\<lambda>p. p # replicate 31 0),
     Decode = (\<lambda>bs. Some (hd bs))\<rparr>"

definition gr_toy :: "(byte, byte) gr_lib" where
  "gr_toy = \<lparr>DeriveDalek = (\<lambda>x. fold (+) x 0), gr_ScalarMult = (*), BytesInto = (\<lambda>p. p # replicate 31 0), SetBytes = hd\<rparr>"

definition env_toy :: "byte \<Rightarrow> dh_env" where
  "env_toy u = \<lparr>ctx1 = None, ctx2 = None, uniform = Inr [u], seed = Inr 5, ord_write = [0], ord_read = [0], early_points = []\<rparr>"

lemma r255_toy_ok: "r255_ok r255_toy"
  by (simp add: r255_ok_def r255_toy_def mult.left_commute)

lemma r255_toy_key: "r255_key r255_toy (ScalarFromUniformBytes r255_toy [1])" "r255_key r255_toy (ScalarFromUniformBytes r255_toy [2])"
proof -
  have inverse: "p = q" if "a * p = a * q" and "b * a = 1" for a b p q :: byte
  proof -
    have "b * (a * p) = b * (a * q)" using that(1) by (rule arg_cong)
    then show ?thesis unfolding mult.assoc [symmetric] that(2) mult_1 .
  qed
  show "r255_key r255_toy (ScalarFromUniformBytes r255_toy [1])"
    unfolding r255_key_def r255_toy_def using inverse [of 3 _ _ 171] by simp
  show "r255_key r255_toy (ScalarFromUniformBytes r255_toy [2])"
    unfolding r255_key_def r255_toy_def using inverse [of 5 _ _ 205] by simp
qed

theorem dhpsi_intersection_witness:
  "\<exists>s1 t s2 zs. set zs = {[2]} \<and> distinct zs \<and>
    (\<forall>r1 r2 r3. delivers r1 s1 \<and> delivers r2 t \<and> delivers r3 s2 \<longrightarrow>
      (\<exists>w' v'. Send gr_toy 1 r255_toy (env_toy 1) 2 [[1], [2]] r2 \<lparr>wrote = [], budget = 9\<rparr> = Some (Inr w') \<and> wrote w' = s1 @ s2 \<and>
        Intersect gr_toy 1 r255_toy (env_toy 2) 3 [[2], [3], [2]] r1 r3 \<lparr>wrote = [], budget = 9\<rparr> = Some (Inr (zs, v')) \<and> wrote v' = t))"
proof -
  have inj: "inj_on (r255_ident r255_toy) (set [[1], [2]] \<union> set [[2], [3], [2]])"
    by (auto simp: inj_on_def r255_ident_def r255_toy_def)
  have env: "env_ok (env_toy 1) (length [[1], [2 :: byte]]) (length [[2], [3], [2 :: byte]]) [1]"
    "env_ok (env_toy 2) (length [[2], [3], [2 :: byte]]) (length [[1], [2 :: byte]]) [2]"
    by (simp_all add: env_ok_def env_toy_def)
  have common: "set [[1], [2]] \<inter> set [[2], [3], [2]] = {[2 :: byte]}" by simp
  have len: "length [[1], [2 :: byte]] = 2" "length [[2], [3], [2 :: byte]] = 3" by simp_all
  have "0 < length [[1], [2 :: byte]]" "length [[1], [2 :: byte]] \<le> 2147483649"
    "0 < length [[2], [3], [2 :: byte]]" "length [[2], [3], [2 :: byte]] \<le> 2147483649"
    "length [[1], [2 :: byte]] + length [[2], [3], [2 :: byte]] + 1 < budget \<lparr>wrote = [], budget = 9\<rparr>"
    "length [[2], [3], [2 :: byte]] < budget \<lparr>wrote = [], budget = 9\<rparr>" by simp_all
  from dhpsi_intersection [OF r255_toy_ok r255_toy_key inj this env, of gr_toy 1]
  show ?thesis unfolding common len by simp
qed

text \<open>
  Property C35. Given more identifiers than announced, the sender sends the announced number and
  returns \<open>ErrUnexpectedPoint\<close>; the receiver's main loop indexes \<open>localIDs\<close> out of range before the
  shuffler can refuse the identifier, and panics.
\<close>
theorem excess_identifiers:
  assumes "0 < length xs" and "length xs \<le> 2147483649" and "length xs < budget w" and "seed env = Inr x"
    and "mset (ord_write env) = mset [0..<(length xs + 511) div batchSize]"
  shows "Sender_stage1 env (length xs) gr (xs @ y # ys) w = Some (Inl ErrUnexpectedPoint) \<and>
    Receiver_stage21 env (length xs) gr (xs @ y # ys) w = Some (Inl IndexOutOfRange)"
proof -
  obtain enc enc' where enc: "NewDeriveMultiplyParallelShuffler (Inr x) w (length xs) gr = Inr enc"
      "ps_run (ord_write env) xs enc = Some (Inr (None, enc'))"
    using parallel_shuffler_writes [OF assms(1-3,5)] by blast
  have max0: "ps_max enc = length xs" "ps_seq enc = 0"
    using enc(1) assms(3) by (auto simp: NewDeriveMultiplyParallelShuffler_def io_write_def bind_res_Inr_iff Let_def)
  then have "ps_run (ord_write env) (xs @ y # ys) enc = Some (Inr (Some ErrUnexpectedPoint, enc'))"
    using ps_run_append [OF enc(2)] ps_run_seq [OF enc(2)] by (simp add: Shuffle_ps_def)
  moreover have "stage21_loop (ord_write env) 0 (xs @ y # ys) (replicate (length xs) []) enc = Some (Inl IndexOutOfRange)"
    using stage21_loop_append [OF stage21_loop_run [OF enc(2), of 0 "replicate (length xs) []"], of "y # ys"]
    by (simp add: go_set_def)
  ultimately show ?thesis using enc(1) assms(4) by (simp add: Sender_stage1_def Receiver_stage21_def Let_def)
qed

theorem excess_identifiers_witness:
  "Sender_stage1 (env_toy 1) 1 (R255 r255_toy 3) [[1], [2]] \<lparr>wrote = [], budget = 9\<rparr> = Some (Inl ErrUnexpectedPoint) \<and>
   Receiver_stage21 (env_toy 1) 1 (R255 r255_toy 3) [[1], [2]] \<lparr>wrote = [], budget = 9\<rparr> = Some (Inl IndexOutOfRange)"
  using excess_identifiers [of "[[1]]" "\<lparr>wrote = [], budget = 9\<rparr>" "env_toy 1" 5 "R255 r255_toy 3" "[2]" "[]"]
  by (simp add: env_toy_def)

end
