(* ===== verification/Bits.thy ===== *)
theory Bits
  imports Match_Prelude
begin

text \<open>
  The bit operations of \<open>internal/util\<close>: \<open>bits.go\<close>, \<open>bits_generic.go\<close> and
  \<open>bits_amd64.go\<close>. The operations work in place on \<open>dst\<close>; the model returns the new
  contents of \<open>dst\<close>. Both build variants are modelled and shown to compute the bytewise
  operation, and the worker pools are shown to compute what one call would, for every order in
  which the workers finish.
\<close>

unbundle bit_operations_syntax

section \<open>The generic variant: eight bytes at a time through LittleEndian\<close>

text \<open>The loops \<open>for i := 0; i < len(dst)/8; i++\<close> over two and over three slices.\<close>

definition words_loop2 :: "(u64 \<Rightarrow> u64 \<Rightarrow> u64) \<Rightarrow> bytes \<Rightarrow> bytes \<Rightarrow> bytes" where
  "words_loop2 f dst a =
     fold (\<lambda>i d. write_at d (8 * i)
              (le_put64 (f (le_get64 (sub_list d (8 * i) 8)) (le_get64 (sub_list a (8 * i) 8)))))
       [0..<length dst div 8] dst"

definition words_loop3 :: "(u64 \<Rightarrow> u64 \<Rightarrow> u64 \<Rightarrow> u64) \<Rightarrow> bytes \<Rightarrow> bytes \<Rightarrow> bytes \<Rightarrow> bytes" where
  "words_loop3 f dst a b =
     fold (\<lambda>i d. write_at d (8 * i)
              (le_put64 (f (le_get64 (sub_list d (8 * i) 8)) (le_get64 (sub_list a (8 * i) 8))
                           (le_get64 (sub_list b (8 * i) 8)))))
       [0..<length dst div 8] dst"

text \<open>The loops \<open>for j := 0; j < len(dst)%8; j++\<close> over the bytes that are left, from the end.\<close>

definition excess_loop2 :: "(byte \<Rightarrow> byte \<Rightarrow> byte) \<Rightarrow> bytes \<Rightarrow> bytes \<Rightarrow> bytes" where
  "excess_loop2 g dst a =
     fold (\<lambda>j d. d[length d - j - 1 := g (d ! (length d - j - 1)) (a ! (length d - j - 1))])
       [0..<length dst mod 8] dst"

definition excess_loop3 :: "(byte \<Rightarrow> byte \<Rightarrow> byte) \<Rightarrow> (byte \<Rightarrow> byte \<Rightarrow> byte) \<Rightarrow> bytes \<Rightarrow> bytes \<Rightarrow> bytes \<Rightarrow> bytes" where
  "excess_loop3 g h dst a b =
     fold (\<lambda>j d. let k = length d - j - 1; d1 = d[k := g (d ! k) (a ! k)] in d1[k := h (d1 ! k) (b ! k)])
       [0..<length dst mod 8] dst"

definition Xor :: "bytes \<Rightarrow> bytes \<Rightarrow> bytes result" where
  "Xor dst a =
     (if length dst \<noteq> length a then Inl ErrByteLengthMissMatch
      else Inr (excess_loop2 (XOR) (words_loop2 (XOR) dst a) a))"

definition And :: "bytes \<Rightarrow> bytes \<Rightarrow> bytes result" where
  "And dst a =
     (if length dst \<noteq> length a then Inl ErrByteLengthMissMatch
      else Inr (excess_loop2 (AND) (words_loop2 (AND) dst a) a))"

definition DoubleXor :: "bytes \<Rightarrow> bytes \<Rightarrow> bytes \<Rightarrow> bytes result" where
  "DoubleXor dst a b =
     (if length dst \<noteq> length a \<or> length dst \<noteq> length b then Inl ErrByteLengthMissMatch
      else Inr (excess_loop3 (XOR) (XOR) (words_loop3 (\<lambda>d x y. (d XOR x) XOR y) dst a b) a b))"

text \<open>In Go \<open>uDst & uA ^ uB\<close> groups as \<open>(uDst & uA) ^ uB\<close>.\<close>

definition AndXor :: "bytes \<Rightarrow> bytes \<Rightarrow> bytes \<Rightarrow> bytes result" where
  "AndXor dst a b =
     (if length dst \<noteq> length a \<or> length dst \<noteq> length b then Inl ErrByteLengthMissMatch
      else Inr (excess_loop3 (AND) (XOR) (words_loop3 (\<lambda>d x y. (d AND x) XOR y) dst a b) a b))"

section \<open>The amd64 variant: the slice reinterpreted as words\<close>

text \<open>
  \<open>unsafeslice.Uint64SliceFromByteSlice\<close> is third-party code: \<open>cast\<close> is the sequence of words
  the byte slice is seen as, \<open>store\<close> the byte slice after the words seen were overwritten (the
  two share their memory); \<open>bytes_of\<close> is \<open>unsafeslice.ByteSliceFromUint64Slice\<close>. What the code relies on is \<open>casts_le\<close>: on a little-endian machine
  word \<open>i\<close> of the view is made of bytes \<open>8*i .. 8*i+7\<close>, bytes beyond the last whole word are
  not part of the view.
\<close>

record unsafe_cast =
  cast :: "bytes \<Rightarrow> u64 list"
  store :: "bytes \<Rightarrow> u64 list \<Rightarrow> bytes"
  bytes_of :: "u64 list \<Rightarrow> bytes"

definition casts_le :: "unsafe_cast \<Rightarrow> bool" where
  "casts_le u \<longleftrightarrow>
     (\<forall>bs. length (cast u bs) = length bs div 8) \<and>
     (\<forall>bs i. i < length bs div 8 \<longrightarrow> cast u bs ! i = le_get64 (sub_list bs (8 * i) 8)) \<and>
     (\<forall>bs ws. length ws = length bs div 8 \<longrightarrow>
        store u bs ws = concat (map le_put64 ws) @ drop (8 * length ws) bs) \<and>
     (\<forall>ws. bytes_of u ws = concat (map le_put64 ws))"

definition Xor_amd64 :: "unsafe_cast \<Rightarrow> bytes \<Rightarrow> bytes \<Rightarrow> bytes result" where
  "Xor_amd64 u dst a =
     (if length dst \<noteq> length a then Inl ErrByteLengthMissMatch
      else let castA = cast u a;
               castDst = fold (\<lambda>i w. w[i := w ! i XOR castA ! i]) [0..<length (cast u dst)] (cast u dst)
           in Inr (excess_loop2 (XOR) (store u dst castDst) a))"

definition And_amd64 :: "unsafe_cast \<Rightarrow> bytes \<Rightarrow> bytes \<Rightarrow> bytes result" where
  "And_amd64 u dst a =
     (if length dst \<noteq> length a then Inl ErrByteLengthMissMatch
      else let castA = cast u a;
               castDst = fold (\<lambda>i w. w[i := w ! i AND castA ! i]) [0..<length (cast u dst)] (cast u dst)
           in Inr (excess_loop2 (AND) (store u dst castDst) a))"

definition DoubleXor_amd64 :: "unsafe_cast \<Rightarrow> bytes \<Rightarrow> bytes \<Rightarrow> bytes \<Rightarrow> bytes result" where
  "DoubleXor_amd64 u dst a b =
     (if length dst \<noteq> length a \<or> length dst \<noteq> length b then Inl ErrByteLengthMissMatch
      else let castA = cast u a; castB = cast u b;
               castDst = fold (\<lambda>i w. let w1 = w[i := w ! i XOR castA ! i] in w1[i := w1 ! i XOR castB ! i])
                           [0..<length (cast u dst)] (cast u dst)
           in Inr (excess_loop3 (XOR) (XOR) (store u dst castDst) a b))"

definition AndXor_amd64 :: "unsafe_cast \<Rightarrow> bytes \<Rightarrow> bytes \<Rightarrow> bytes \<Rightarrow> bytes result" where
  "AndXor_amd64 u dst a b =
     (if length dst \<noteq> length a \<or> length dst \<noteq> length b then Inl ErrByteLengthMissMatch
      else let castA = cast u a; castB = cast u b;
               castDst = fold (\<lambda>i w. let w1 = w[i := w ! i AND castA ! i] in w1[i := w1 ! i XOR castB ! i])
                           [0..<length (cast u dst)] (cast u dst)
           in Inr (excess_loop3 (AND) (XOR) (store u dst castDst) a b))"

section \<open>Worker pools\<close>

text \<open>
  \<open>ConcurrentBitOp\<close> splits \<open>dst\<close> and \<open>a\<close> into \<open>nworkers\<close> blocks, the last one taking the
  remainder, and runs \<open>f\<close> on each in a goroutine of its own. \<open>nworkers\<close> is
  \<open>runtime.GOMAXPROCS(0)\<close>, which is at least 1; \<open>ord\<close> is the order in which the goroutines
  run. The blocks do not overlap, so a goroutine's writes are seen by no other.
\<close>

definition block_bounds :: "nat \<Rightarrow> nat \<Rightarrow> nat \<Rightarrow> nat \<times> nat" where
  "block_bounds nworkers len w =
     (let blockSize = len div nworkers; step = blockSize * w
      in if w = nworkers - 1 then (step, len) else (step, step + blockSize))"

definition bit_op_worker :: "nat \<Rightarrow> (bytes \<Rightarrow> bytes \<Rightarrow> bytes result) \<Rightarrow> bytes \<Rightarrow> nat \<Rightarrow> bytes \<Rightarrow> bytes result" where
  "bit_op_worker nworkers f a w dst =
     (let (lo, hi) = block_bounds nworkers (length dst) w in
      bind_res (go_slice dst lo hi) (\<lambda>d.
      bind_res (if w = nworkers - 1 then go_slice a lo (length a) else go_slice a lo hi) (\<lambda>x.
      bind_res (f d x) (\<lambda>r. Inr (write_at dst lo r)))))"

definition ConcurrentBitOp :: "nat \<Rightarrow> nat list \<Rightarrow> (bytes \<Rightarrow> bytes \<Rightarrow> bytes result) \<Rightarrow> bytes \<Rightarrow> bytes \<Rightarrow> bytes result" where
  "ConcurrentBitOp nworkers ord f dst a =
     (if length dst < nworkers * 16384 then f dst a
      else fold_res (bit_op_worker nworkers f a) ord dst)"

definition double_bit_op_worker ::
  "nat \<Rightarrow> (bytes \<Rightarrow> bytes \<Rightarrow> bytes \<Rightarrow> bytes result) \<Rightarrow> bytes \<Rightarrow> bytes \<Rightarrow> nat \<Rightarrow> bytes \<Rightarrow> bytes result" where
  "double_bit_op_worker nworkers f a b w dst =
     (let (lo, hi) = block_bounds nworkers (length dst) w in
      bind_res (go_slice dst lo hi) (\<lambda>d.
      bind_res (if w = nworkers - 1 then go_slice a lo (length a) else go_slice a lo hi) (\<lambda>x.
      bind_res (if w = nworkers - 1 then go_slice b lo (length b) else go_slice b lo hi) (\<lambda>y.
      bind_res (f d x y) (\<lambda>r. Inr (write_at dst lo r))))))"

definition ConcurrentDoubleBitOp ::
  "nat \<Rightarrow> nat list \<Rightarrow> (bytes \<Rightarrow> bytes \<Rightarrow> bytes \<Rightarrow> bytes result) \<Rightarrow> bytes \<Rightarrow> bytes \<Rightarrow> bytes \<Rightarrow> bytes result" where
  "ConcurrentDoubleBitOp nworkers ord f dst a b =
     (if length dst < nworkers * 16384 then f dst a b
      else fold_res (double_bit_op_worker nworkers f a b) ord dst)"

section \<open>Single bits and padding\<close>

definition IsBitSet :: "bytes \<Rightarrow> nat \<Rightarrow> bool result" where
  "IsBitSet b i = bind_res (go_nth b (i div 8)) (\<lambda>x. Inr (x AND push_bit (i mod 8) 1 > 0))"

definition BitExtract :: "bytes \<Rightarrow> nat \<Rightarrow> byte result" where
  "BitExtract b i = bind_res (IsBitSet b i) (\<lambda>s. Inr (if s then 1 else 0))"

text \<open>Go's \<open>%\<close> truncates towards zero, as \<open>smod\<close> does.\<close>

definition Pad :: "int \<Rightarrow> int \<Rightarrow> int result" where
  "Pad n multiple =
     (if multiple = 0 then Inl DivideByZero
      else let p = n smod multiple in if p = 0 then Inr n else Inr (n + (multiple - p)))"

definition PadBitMap :: "int \<Rightarrow> int \<Rightarrow> int result" where
  "PadBitMap n multiple = bind_res (Pad n multiple) (\<lambda>p. Inr (p sdiv 8))"

text \<open>
  The entropy source \<open>crypto/rand\<close> is a parameter: from a state and a length it gives the bytes
  read and the next state, or an error. \<open>make\<close> of a negative length panics.
\<close>

definition SampleRandomBitMatrix ::
  "('r \<Rightarrow> nat \<Rightarrow> (bytes \<times> 'r) result) \<Rightarrow> 'r \<Rightarrow> int \<Rightarrow> int \<Rightarrow> (bytes list \<times> 'r) result" where
  "SampleRandomBitMatrix rand r row col =
     (if row < 0 then Inl SliceOutOfRange
      else bind_res (Pad col 512) (\<lambda>padded.
        let width = (col + padded) sdiv 8 in
        if 0 < row \<and> width < 0 then Inl SliceOutOfRange
        else fold_res (\<lambda>_ (m, r). bind_res (rand r (nat width)) (\<lambda>(bs, r'). Inr (m @ [bs], r')))
               [0..<nat row] ([], r)))"

section \<open>The loops compute bytewise operations\<close>

lemma words_loop2_blocks:
  "words_loop2 f dst a =
     fold (write_block (\<lambda>i. 8 * i) (\<lambda>_. 8)
       (\<lambda>i ys. le_put64 (f (le_get64 ys) (le_get64 (sub_list a (8 * i) 8))))) [0..<length dst div 8] dst"
  by (simp add: words_loop2_def write_block_def [abs_def])

lemma words_loop3_blocks:
  "words_loop3 f dst a b =
     fold (write_block (\<lambda>i. 8 * i) (\<lambda>_. 8)
       (\<lambda>i ys. le_put64 (f (le_get64 ys) (le_get64 (sub_list a (8 * i) 8)) (le_get64 (sub_list b (8 * i) 8)))))
       [0..<length dst div 8] dst"
  by (simp add: words_loop3_def write_block_def [abs_def])

lemma length_words_loop2 [simp]: "length (words_loop2 f dst a) = length dst"
  unfolding words_loop2_blocks by (intro length_fold_blocks blocks_ok_uniform) auto

lemma length_words_loop3 [simp]: "length (words_loop3 f dst a b) = length dst"
  unfolding words_loop3_blocks by (intro length_fold_blocks blocks_ok_uniform) auto

text \<open>A word function acts bytewise when each byte of its result is a function of the same bytes.\<close>

definition bytewise2 :: "(u64 \<Rightarrow> u64 \<Rightarrow> u64) \<Rightarrow> (byte \<Rightarrow> byte \<Rightarrow> byte) \<Rightarrow> bool" where
  "bytewise2 f g \<longleftrightarrow> (\<forall>u v. \<forall>k<8. le_put64 (f u v) ! k = g (le_put64 u ! k) (le_put64 v ! k))"

lemma bytewise2_xor: "bytewise2 (XOR) (XOR)"
  unfolding bytewise2_def by (auto intro!: bit_eqI simp: codec_simps bit_simps)

lemma bytewise2_and: "bytewise2 (AND) (AND)"
  unfolding bytewise2_def by (auto intro!: bit_eqI simp: codec_simps bit_simps)

lemma block_byte:
  assumes "k div 8 < length xs div 8"
  shows "le_put64 (le_get64 (sub_list xs (8 * (k div 8)) 8)) ! (k mod 8) = xs ! k"
proof -
  have "8 * (k div 8) + 8 \<le> length xs" using assms by linarith
  then show ?thesis by simp
qed

lemma nth_words_loop2:
  assumes "bytewise2 f g" and "length a = length dst" and "k < length dst"
  shows "words_loop2 f dst a ! k = (if k div 8 < length dst div 8 then g (dst ! k) (a ! k) else dst ! k)"
proof -
  have "words_loop2 f dst a ! k =
    (if k div 8 < length dst div 8
     then le_put64 (f (le_get64 (sub_list dst (8 * (k div 8)) 8)) (le_get64 (sub_list a (8 * (k div 8)) 8))) ! (k mod 8)
     else dst ! k)"
    unfolding words_loop2_blocks by (rule nth_fold_uniform) (use assms in auto)
  then show ?thesis
    using assms block_byte [of k dst] block_byte [of k a] by (simp add: bytewise2_def)
qed

lemma nth_words_loop3:
  assumes "bytewise2 f1 g" "bytewise2 f2 h" and "length a = length dst" "length b = length dst" "k < length dst"
  shows "words_loop3 (\<lambda>d x y. f2 (f1 d x) y) dst a b ! k =
    (if k div 8 < length dst div 8 then h (g (dst ! k) (a ! k)) (b ! k) else dst ! k)"
proof -
  have "words_loop3 (\<lambda>d x y. f2 (f1 d x) y) dst a b ! k =
    (if k div 8 < length dst div 8
     then le_put64 (f2 (f1 (le_get64 (sub_list dst (8 * (k div 8)) 8)) (le_get64 (sub_list a (8 * (k div 8)) 8)))
            (le_get64 (sub_list b (8 * (k div 8)) 8))) ! (k mod 8)
     else dst ! k)"
    unfolding words_loop3_blocks by (rule nth_fold_uniform) (use assms in auto)
  then show ?thesis
    using assms block_byte [of k dst] block_byte [of k a] block_byte [of k b] by (simp add: bytewise2_def)
qed

lemma nth_excess_fold:
  assumes "m \<le> length d" and "k < length d"
  shows "fold (\<lambda>j d. d[length d - j - 1 := F (length d - j - 1) (d ! (length d - j - 1))]) [0..<m] d ! k =
      (if length d - m \<le> k then F k (d ! k) else d ! k)"
  using assms
proof (induction m arbitrary: k)
  case (Suc m)
  let ?d = "fold (\<lambda>j d. d[length d - j - 1 := F (length d - j - 1) (d ! (length d - j - 1))]) [0..<m] d"
  have len: "length ?d = length d" by simp
  have IH: "?d ! i = (if length d - m \<le> i then F i (d ! i) else d ! i)" if "i < length d" for i
    using Suc that by simp
  have at: "?d ! (length d - m - 1) = d ! (length d - m - 1)"
    using Suc.prems by (subst IH) auto
  show ?case
    using Suc.prems at IH [OF Suc.prems(2)] by (auto simp: nth_list_update split: if_splits)
qed simp

lemma length_excess_loop2 [simp]: "length (excess_loop2 g dst a) = length dst"
  by (simp add: excess_loop2_def)

lemma excess_loop3_eq:
  "excess_loop3 g h dst a b =
     fold (\<lambda>j d. d[length d - j - 1 := h (g (d ! (length d - j - 1)) (a ! (length d - j - 1))) (b ! (length d - j - 1))])
       [0..<length dst mod 8] dst"
  unfolding excess_loop3_def
proof (rule fold_cong [OF refl refl])
  fix j assume j: "j \<in> set [0..<length dst mod 8]"
  show "(\<lambda>d. let k = length d - j - 1; d1 = d[k := g (d ! k) (a ! k)] in d1[k := h (d1 ! k) (b ! k)]) =
    (\<lambda>d. d[length d - j - 1 := h (g (d ! (length d - j - 1)) (a ! (length d - j - 1))) (b ! (length d - j - 1))])"
  proof (rule ext)
    fix d :: bytes
    show "(let k = length d - j - 1; d1 = d[k := g (d ! k) (a ! k)] in d1[k := h (d1 ! k) (b ! k)]) =
      d[length d - j - 1 := h (g (d ! (length d - j - 1)) (a ! (length d - j - 1))) (b ! (length d - j - 1))]"
      by (cases "d = []") (simp_all add: Let_def)
  qed
qed

lemma length_excess_loop3 [simp]: "length (excess_loop3 g h dst a b) = length dst"
  by (simp add: excess_loop3_eq)

lemma excess_index: "(length dst - length dst mod 8 \<le> k) = (\<not> k div 8 < length dst div 8)" if "k < length dst"
proof -
  have "length dst - length dst mod 8 = 8 * (length dst div 8)" by (simp add: minus_mod_eq_mult_div)
  then show ?thesis using that by (metis linorder_not_less less_mult_imp_div_less mult.commute
        div_less_iff_less_mult zero_less_numeral)
qed

lemma loops2_bytewise:
  assumes "bytewise2 f g" and "length a = length dst"
  shows "excess_loop2 g (words_loop2 f dst a) a = map2 g dst a"
proof (rule map2_nth_eqI)
  fix k assume "k < length dst"
  then show "excess_loop2 g (words_loop2 f dst a) a ! k = g (dst ! k) (a ! k)"
    using nth_excess_fold [of "length dst mod 8" "words_loop2 f dst a" k "\<lambda>k x. g x (a ! k)"] assms
    by (simp add: excess_loop2_def nth_words_loop2 excess_index)
qed (use assms in auto)

lemma loops3_bytewise:
  assumes "bytewise2 f1 g" "bytewise2 f2 h" and "length a = length dst" "length b = length dst"
  shows "excess_loop3 g h (words_loop3 (\<lambda>d x y. f2 (f1 d x) y) dst a b) a b = map2 h (map2 g dst a) b"
proof (rule map2_nth_eqI)
  fix k assume "k < length (map2 g dst a)"
  then show "excess_loop3 g h (words_loop3 (\<lambda>d x y. f2 (f1 d x) y) dst a b) a b ! k = h (map2 g dst a ! k) (b ! k)"
    using nth_excess_fold [of "length dst mod 8" "words_loop3 (\<lambda>d x y. f2 (f1 d x) y) dst a b" k
        "\<lambda>k x. h (g x (a ! k)) (b ! k)"] assms
    by (simp add: excess_loop3_eq nth_words_loop3 excess_index)
qed (use assms in auto)

lemma Xor_eq:
  "Xor dst a = (if length dst \<noteq> length a then Inl ErrByteLengthMissMatch else Inr (map2 (XOR) dst a))"
  by (simp add: Xor_def loops2_bytewise [OF bytewise2_xor])

lemma And_eq:
  "And dst a = (if length dst \<noteq> length a then Inl ErrByteLengthMissMatch else Inr (map2 (AND) dst a))"
  by (simp add: And_def loops2_bytewise [OF bytewise2_and])

lemma DoubleXor_eq:
  "DoubleXor dst a b =
    (if length dst \<noteq> length a \<or> length dst \<noteq> length b then Inl ErrByteLengthMissMatch
     else Inr (map2 (XOR) (map2 (XOR) dst a) b))"
  by (simp add: DoubleXor_def loops3_bytewise [OF bytewise2_xor bytewise2_xor])

lemma AndXor_eq:
  "AndXor dst a b =
    (if length dst \<noteq> length a \<or> length dst \<noteq> length b then Inl ErrByteLengthMissMatch
     else Inr (map2 (XOR) (map2 (AND) dst a) b))"
  by (simp add: AndXor_def loops3_bytewise [OF bytewise2_and bytewise2_xor])

section \<open>The two build variants agree\<close>

lemma casts_leD:
  assumes "casts_le u"
  shows "length (cast u bs) = length bs div 8"
    and "i < length bs div 8 \<Longrightarrow> cast u bs ! i = le_get64 (sub_list bs (8 * i) 8)"
    and "length ws = length bs div 8 \<Longrightarrow> store u bs ws = concat (map le_put64 ws) @ drop (8 * length ws) bs"
    and "bytes_of u vs = concat (map le_put64 vs)"
  using assms by (auto simp: casts_le_def)

lemma length_concat_le_put64 [simp]: "length (concat (map le_put64 ws)) = 8 * length ws"
  by (induction ws) auto

lemma length_store:
  assumes "casts_le u" and "length ws = length bs div 8"
  shows "length (store u bs ws) = length bs"
  using assms by (simp add: casts_leD(3))

lemma nth_store:
  assumes "casts_le u" and "length ws = length bs div 8" and "k < length bs"
  shows "store u bs ws ! k = (if k div 8 < length bs div 8 then le_put64 (ws ! (k div 8)) ! (k mod 8) else bs ! k)"
proof (cases "k div 8 < length bs div 8")
  case True
  then have k: "k < 8 * length (map le_put64 ws)" using assms(2) by simp
  have "concat (map le_put64 ws) ! k = map le_put64 ws ! (k div 8) ! (k mod 8)"
    using k by (intro nth_concat_uniform) auto
  with True assms k show ?thesis
    by (simp add: casts_leD(3) nth_append)
next
  case False
  then have "8 * (length bs div 8) \<le> k" by linarith
  with False assms show ?thesis
    by (simp add: casts_leD(3) nth_append)
qed

text \<open>Overwriting the words seen in \<open>dst\<close> gives the same bytes as the LittleEndian loop.\<close>

lemma store_words:
  assumes "casts_le u" and "length dst = length a"
  shows "store u dst (fold (\<lambda>i w. w[i := f (w ! i) (cast u a ! i)]) [0..<length (cast u dst)] (cast u dst))
    = words_loop2 f dst a"
proof (rule nth_equalityI)
  let ?ws = "fold (\<lambda>i w. w[i := f (w ! i) (cast u a ! i)]) [0..<length (cast u dst)] (cast u dst)"
  have len: "length ?ws = length dst div 8" using assms by (simp add: casts_leD)
  then show "length (store u dst ?ws) = length (words_loop2 f dst a)"
    using assms by (simp add: length_store)
  fix k assume "k < length (store u dst ?ws)"
  then have k: "k < length dst" using assms len by (simp add: length_store)
  have "words_loop2 f dst a ! k =
    (if k div 8 < length dst div 8
     then le_put64 (f (le_get64 (sub_list dst (8 * (k div 8)) 8)) (le_get64 (sub_list a (8 * (k div 8)) 8))) ! (k mod 8)
     else dst ! k)"
    unfolding words_loop2_blocks by (rule nth_fold_uniform) (use k in auto)
  then show "store u dst ?ws ! k = words_loop2 f dst a ! k"
    using assms k nth_store [OF assms(1) len k] nth_fold_update_upt [of "length dst div 8" "cast u dst" "k div 8" "\<lambda>i x. f x (cast u a ! i)"]
    by (simp add: casts_leD(1,2))
qed

lemma store_words3:
  assumes "casts_le u" and "length dst = length a" and "length dst = length b"
  shows "store u dst (fold (\<lambda>i w. let w1 = w[i := f (w ! i) (cast u a ! i)] in w1[i := g (w1 ! i) (cast u b ! i)])
           [0..<length (cast u dst)] (cast u dst))
    = words_loop3 (\<lambda>d x y. g (f d x) y) dst a b"
proof -
  have eq: "fold (\<lambda>i w. let w1 = w[i := f (w ! i) (cast u a ! i)] in w1[i := g (w1 ! i) (cast u b ! i)]) [0..<n] ws =
    fold (\<lambda>i w. w[i := g (f (w ! i) (cast u a ! i)) (cast u b ! i)]) [0..<n] ws" if "n \<le> length ws" for n ws
    using that by (induction n) (auto simp: Let_def)
  let ?ws = "fold (\<lambda>i w. w[i := g (f (w ! i) (cast u a ! i)) (cast u b ! i)]) [0..<length (cast u dst)] (cast u dst)"
  have len: "length ?ws = length dst div 8" using assms by (simp add: casts_leD)
  have "store u dst ?ws = words_loop3 (\<lambda>d x y. g (f d x) y) dst a b"
  proof (rule nth_equalityI)
    show "length (store u dst ?ws) = length (words_loop3 (\<lambda>d x y. g (f d x) y) dst a b)"
      using assms len by (simp add: length_store)
    fix k assume "k < length (store u dst ?ws)"
    then have k: "k < length dst" using assms len by (simp add: length_store)
    have "words_loop3 (\<lambda>d x y. g (f d x) y) dst a b ! k =
      (if k div 8 < length dst div 8
       then le_put64 (g (f (le_get64 (sub_list dst (8 * (k div 8)) 8)) (le_get64 (sub_list a (8 * (k div 8)) 8)))
              (le_get64 (sub_list b (8 * (k div 8)) 8))) ! (k mod 8)
       else dst ! k)"
      unfolding words_loop3_blocks by (rule nth_fold_uniform) (use k in auto)
    then show "store u dst ?ws ! k = words_loop3 (\<lambda>d x y. g (f d x) y) dst a b ! k"
      using assms k nth_store [OF assms(1) len k] nth_fold_update_upt [of "length dst div 8" "cast u dst" "k div 8"
          "\<lambda>i x. g (f x (cast u a ! i)) (cast u b ! i)"]
      by (simp add: casts_leD(1,2))
  qed
  then show ?thesis using eq [OF order_refl, of "cast u dst"] by simp
qed

lemma Xor_amd64_eq: "casts_le u \<Longrightarrow> Xor_amd64 u dst a = Xor dst a"
  by (simp add: Xor_amd64_def Xor_def store_words)

lemma And_amd64_eq: "casts_le u \<Longrightarrow> And_amd64 u dst a = And dst a"
  by (simp add: And_amd64_def And_def store_words)

lemma DoubleXor_amd64_eq: "casts_le u \<Longrightarrow> DoubleXor_amd64 u dst a b = DoubleXor dst a b"
  using store_words3 [of u dst a b "(XOR)" "(XOR)"] by (simp add: DoubleXor_amd64_def DoubleXor_def Let_def)

lemma AndXor_amd64_eq: "casts_le u \<Longrightarrow> AndXor_amd64 u dst a b = AndXor dst a b"
  using store_words3 [of u dst a b "(AND)" "(XOR)"] by (simp add: AndXor_amd64_def AndXor_def Let_def)

section \<open>The worker pools compute what one call computes\<close>

text \<open>
  The interface the pools rely on: \<open>f\<close> panics on slices of different lengths and otherwise
  combines them element by element.
\<close>

locale bit_op =
  fixes f :: "bytes \<Rightarrow> bytes \<Rightarrow> bytes result" and g :: "byte \<Rightarrow> byte \<Rightarrow> byte"
  assumes op_eq: "f dst a = (if length dst \<noteq> length a then Inl ErrByteLengthMissMatch else Inr (map2 g dst a))"

locale double_bit_op =
  fixes f :: "bytes \<Rightarrow> bytes \<Rightarrow> bytes \<Rightarrow> bytes result" and g h :: "byte \<Rightarrow> byte \<Rightarrow> byte"
  assumes double_op_eq: "f dst a b =
    (if length dst \<noteq> length a \<or> length dst \<noteq> length b then Inl ErrByteLengthMissMatch
     else Inr (map2 h (map2 g dst a) b))"

definition pool_lo :: "nat \<Rightarrow> nat \<Rightarrow> nat \<Rightarrow> nat" where
  "pool_lo nworkers len w = fst (block_bounds nworkers len w)"

definition pool_sz :: "nat \<Rightarrow> nat \<Rightarrow> nat \<Rightarrow> nat" where
  "pool_sz nworkers len w = snd (block_bounds nworkers len w) - fst (block_bounds nworkers len w)"

lemma block_bounds_le:
  assumes "w < n"
  shows "fst (block_bounds n len w) \<le> snd (block_bounds n len w)" and "snd (block_bounds n len w) \<le> len"
proof -
  have "len div n * Suc w \<le> len div n * n" using assms by (intro mult_le_mono2) simp
  also have "\<dots> \<le> len" by simp
  finally have "len div n * w + len div n \<le> len" by simp
  then show "fst (block_bounds n len w) \<le> snd (block_bounds n len w)" "snd (block_bounds n len w) \<le> len"
    by (auto simp: block_bounds_def Let_def)
qed

lemma pool_blocks_ok:
  assumes "mset ord = mset [0..<n]"
    and "\<And>w ys. w < n \<Longrightarrow> length ys = pool_sz n len w \<Longrightarrow> length (H w ys) = pool_sz n len w"
  shows "blocks_ok (pool_lo n len) (pool_sz n len) H ord len"
proof -
  note ord = mset_eq_upt_distinct [OF assms(1)]
  have le: "pool_lo n len w + pool_sz n len w \<le> len" if "w < n" for w
    using block_bounds_le [OF that, of len] by (simp add: pool_lo_def pool_sz_def)
  have dis: "pool_lo n len v + pool_sz n len v \<le> pool_lo n len w" if "v < w" "w < n" for v w
  proof -
    have "len div n * Suc v \<le> len div n * w" using that by (intro mult_le_mono2) simp
    with that show ?thesis by (auto simp: pool_lo_def pool_sz_def block_bounds_def Let_def)
  qed
  show ?thesis
    unfolding blocks_ok_def using ord le dis assms(2)
    by (auto simp: Ball_def) (metis linorder_neqE_nat)
qed

lemma pool_block_of:
  assumes "0 < n" and "k < len"
  shows "\<exists>w<n. pool_lo n len w \<le> k \<and> k < pool_lo n len w + pool_sz n len w"
proof (cases "k < len div n * (n - 1)")
  case True
  then have pos: "0 < len div n" by (cases "len div n") auto
  have kw: "k div (len div n) < n - 1"
    using True pos by (simp add: less_mult_imp_div_less mult.commute)
  have "len div n * (k div (len div n)) \<le> k" by simp
  moreover have "k < len div n * (k div (len div n)) + len div n"
    using dividend_less_times_div [OF pos, of k] by (simp add: add.commute)
  ultimately show ?thesis using kw
    by (intro exI [of _ "k div (len div n)"]) (auto simp: pool_lo_def pool_sz_def block_bounds_def Let_def)
next
  case False
  then show ?thesis using assms
    by (intro exI [of _ "n - 1"]) (auto simp: pool_lo_def pool_sz_def block_bounds_def Let_def)
qed

lemma sub_list_map2: "sub_list (map2 g xs ys) lo n = map2 g (sub_list xs lo n) (sub_list ys lo n)"
  by (simp add: sub_list_def drop_map take_map drop_zip take_zip)

text \<open>A pool whose workers put the right contents into their blocks produces the whole result.\<close>

lemma pool_result:
  assumes ord: "mset ord = mset [0..<n]" and "0 < n" and "length dst = len" and "length res = len"
    and H: "\<And>w. w < n \<Longrightarrow>
       H w (sub_list dst (pool_lo n len w) (pool_sz n len w)) = sub_list res (pool_lo n len w) (pool_sz n len w)"
    and lenH: "\<And>w ys. w < n \<Longrightarrow> length ys = pool_sz n len w \<Longrightarrow> length (H w ys) = pool_sz n len w"
  shows "fold (write_block (pool_lo n len) (pool_sz n len) H) ord dst = res"
proof (rule nth_equalityI)
  have ok: "blocks_ok (pool_lo n len) (pool_sz n len) H ord (length dst)"
    unfolding assms(3) by (rule pool_blocks_ok [OF ord lenH])
  then show "length (fold (write_block (pool_lo n len) (pool_sz n len) H) ord dst) = length res"
    using assms(3,4) by (simp add: length_fold_blocks)
  fix k assume "k < length (fold (write_block (pool_lo n len) (pool_sz n len) H) ord dst)"
  then have k: "k < len" using ok assms(3) by (simp add: length_fold_blocks)
  then obtain w where w: "w < n" "pool_lo n len w \<le> k" "k < pool_lo n len w + pool_sz n len w"
    using pool_block_of [OF \<open>0 < n\<close>] by blast
  then have "w \<in> set ord" using mset_eq_upt_distinct(2) [OF ord] by simp
  from nth_fold_blocks_in [OF ok this w(2,3)]
  show "fold (write_block (pool_lo n len) (pool_sz n len) H) ord dst ! k = res ! k"
    using w k assms(4) by (simp add: H)
qed

context bit_op
begin

lemma worker_eq:
  assumes "w < n" and "length dst = len" and "length a = len"
  shows "bit_op_worker n f a w dst =
    Inr (write_block (pool_lo n len) (pool_sz n len)
      (\<lambda>w ys. map2 g ys (sub_list a (pool_lo n len w) (pool_sz n len w))) w dst)"
  using block_bounds_le [OF assms(1), of len] assms
  by (auto simp: bit_op_worker_def Let_def split_def go_slice_sub_list op_eq write_block_def
      pool_lo_def pool_sz_def block_bounds_def)

lemma worker_length:
  assumes "w < n" and "length dst = len" and "bit_op_worker n f a w dst = Inr dst'"
  shows "length dst' = len"
proof -
  obtain lo hi where b: "block_bounds n len w = (lo, hi)" by (cases "block_bounds n len w")
  have bounds: "lo \<le> hi" "hi \<le> len" using block_bounds_le [OF assms(1), of len] by (simp_all add: b)
  from assms(2,3) obtain d x r where d: "go_slice dst lo hi = Inr d" and r: "f d x = Inr r"
    and dst': "dst' = write_at dst lo r"
    by (auto simp: bit_op_worker_def b bind_res_Inr_iff)
  from d bounds have "length d = hi - lo" by (auto simp: go_slice_def split: if_splits)
  with r have "length r = hi - lo" by (auto simp: op_eq split: if_splits)
  with bounds dst' assms(2) show ?thesis by simp
qed

lemma last_worker_panics:
  assumes "0 < n" and "length dst \<noteq> length a"
  shows "\<exists>e. bit_op_worker n f a (n - 1) dst = Inl e \<and> is_panic e"
  using assms block_bounds_le [of "n - 1" n "length dst"]
  by (auto simp: bit_op_worker_def Let_def block_bounds_def go_slice_def op_eq bind_res_def)

lemma worker_error_panics: "bit_op_worker n f a w dst = Inl e \<Longrightarrow> is_panic e"
  by (auto simp: bit_op_worker_def Let_def go_slice_def op_eq bind_res_def split: if_splits prod.splits)

lemma pool_panics:
  assumes "0 < n" and "mset ord = mset [0..<n]" and "length dst \<noteq> length a"
  shows "\<exists>e. ConcurrentBitOp n ord f dst a = Inl e \<and> is_panic e"
proof -
  have "\<exists>e. fold_res (bit_op_worker n f a) ws s = Inl e \<and> is_panic e"
    if "n - 1 \<in> set ws" "set ws \<subseteq> {0..<n}" "length s = length dst" for ws s
    using that
  proof (induction ws arbitrary: s)
    case (Cons w ws)
    show ?case
    proof (cases "bit_op_worker n f a w s")
      case (Inl e)
      then show ?thesis using worker_error_panics by auto
    next
      case (Inr s')
      with Cons.prems have "length s' = length dst" using worker_length [of w n s _ a s'] by auto
      moreover have "w \<noteq> n - 1"
        using Inr Cons.prems(3) assms last_worker_panics [of n s a] by auto
      ultimately show ?thesis using Cons Inr by auto
    qed
  qed simp
  from this [of ord dst] show ?thesis
    using assms mset_eq_upt_distinct(2) [OF assms(2)]
    by (auto simp: ConcurrentBitOp_def op_eq)
qed

lemma pool_eq:
  assumes "0 < n" and "mset ord = mset [0..<n]" and "length dst = length a"
  shows "ConcurrentBitOp n ord f dst a = f dst a"
proof -
  let ?len = "length dst"
  let ?H = "\<lambda>w ys. map2 g ys (sub_list a (pool_lo n ?len w) (pool_sz n ?len w))"
  let ?step = "write_block (pool_lo n ?len) (pool_sz n ?len) ?H"
  have sz: "length (sub_list a (pool_lo n ?len w) (pool_sz n ?len w)) = pool_sz n ?len w" if "w < n" for w
    using block_bounds_le [OF that, of ?len] assms(3) by (simp add: pool_lo_def pool_sz_def)
  have ok: "blocks_ok (pool_lo n ?len) (pool_sz n ?len) ?H ord ?len"
    by (rule pool_blocks_ok [OF assms(2)]) (simp add: sz del: length_sub_list)
  have "fold_res (bit_op_worker n f a) ord dst = Inr (fold ?step ord dst) \<and> length (fold ?step ord dst) = ?len"
  proof (rule fold_res_pure)
    fix w and s :: bytes assume w: "w \<in> set ord" and s: "length s = ?len"
    then have "w < n" using mset_eq_upt_distinct(2) [OF assms(2)] by simp
    then show "bit_op_worker n f a w s = Inr (?step w s) \<and> length (?step w s) = ?len"
      using assms(3) s w ok length_write_block [of _ _ _ ord s w] by (simp add: worker_eq)
  qed simp
  moreover have "fold ?step ord dst = map2 g dst a"
    by (rule pool_result [OF assms(2,1)]) (auto simp: sub_list_map2 sz [unfolded assms(3)] assms(3) simp del: length_sub_list)
  ultimately show ?thesis
    using assms(3) by (simp add: ConcurrentBitOp_def op_eq)
qed

end

context double_bit_op
begin

lemma double_worker_eq:
  assumes "w < n" and "length dst = len" and "length a = len" and "length b = len"
  shows "double_bit_op_worker n f a b w dst =
    Inr (write_block (pool_lo n len) (pool_sz n len)
      (\<lambda>w ys. map2 h (map2 g ys (sub_list a (pool_lo n len w) (pool_sz n len w)))
                 (sub_list b (pool_lo n len w) (pool_sz n len w))) w dst)"
  using block_bounds_le [OF assms(1), of len] assms
  by (auto simp: double_bit_op_worker_def Let_def split_def go_slice_sub_list double_op_eq write_block_def
      pool_lo_def pool_sz_def block_bounds_def)

lemma double_pool_eq:
  assumes "0 < n" and "mset ord = mset [0..<n]" and "length dst = length a" and "length dst = length b"
  shows "ConcurrentDoubleBitOp n ord f dst a b = f dst a b"
proof -
  let ?len = "length dst"
  let ?H = "\<lambda>w ys. map2 h (map2 g ys (sub_list a (pool_lo n ?len w) (pool_sz n ?len w)))
                 (sub_list b (pool_lo n ?len w) (pool_sz n ?len w))"
  let ?step = "write_block (pool_lo n ?len) (pool_sz n ?len) ?H"
  have sz: "length (sub_list x (pool_lo n ?len w) (pool_sz n ?len w)) = pool_sz n ?len w"
    if "w < n" "length x = ?len" for w and x :: bytes
    using block_bounds_le [OF that(1), of ?len] that(2) by (simp add: pool_lo_def pool_sz_def)
  have ok: "blocks_ok (pool_lo n ?len) (pool_sz n ?len) ?H ord ?len"
    by (rule pool_blocks_ok [OF assms(2)])
      (simp add: sz assms(3,4) [symmetric] del: length_sub_list)
  have "fold_res (double_bit_op_worker n f a b) ord dst = Inr (fold ?step ord dst) \<and> length (fold ?step ord dst) = ?len"
  proof (rule fold_res_pure)
    fix w and s :: bytes assume w: "w \<in> set ord" and s: "length s = ?len"
    then have "w < n" using mset_eq_upt_distinct(2) [OF assms(2)] by simp
    then show "double_bit_op_worker n f a b w s = Inr (?step w s) \<and> length (?step w s) = ?len"
      using assms(3,4) s w ok length_write_block [of _ _ _ ord s w] by (simp add: double_worker_eq)
  qed simp
  moreover have "fold ?step ord dst = map2 h (map2 g dst a) b"
    by (rule pool_result [OF assms(2,1) refl])
      (simp_all add: sub_list_map2 sz assms(3,4) [symmetric] del: length_sub_list)
  ultimately show ?thesis
    using assms(3,4) by (simp add: ConcurrentDoubleBitOp_def double_op_eq)
qed

end

interpretation xor_op: bit_op Xor "(XOR)"
  by unfold_locales (rule Xor_eq)

interpretation and_op: bit_op And "(AND)"
  by unfold_locales (rule And_eq)

interpretation double_xor_op: double_bit_op DoubleXor "(XOR)" "(XOR)"
  by unfold_locales (rule DoubleXor_eq)

interpretation and_xor_op: double_bit_op AndXor "(AND)" "(XOR)"
  by unfold_locales (rule AndXor_eq)

lemma IsBitSet_eq:
  "IsBitSet b i = (if i div 8 < length b then Inr (bit (b ! (i div 8)) (i mod 8)) else Inl IndexOutOfRange)"
proof -
  have "(x AND push_bit (i mod 8) 1 > 0) = bit x (i mod 8)" for x :: byte
  proof -
    have "x AND push_bit (i mod 8) 1 = of_bool (bit x (i mod 8)) * 2 ^ (i mod 8)"
      by (simp add: and_exp_eq_0_iff_not_bit [symmetric] push_bit_eq_mult)
        (auto intro!: bit_eqI simp: bit_simps)
    moreover have "(2::byte) ^ (i mod 8) \<noteq> 0"
      by (simp add: exp_eq_zero_iff)
    ultimately show ?thesis by (simp add: word_neq_0_conv [symmetric] del: word_neq_0_conv)
  qed
  then show ?thesis by (simp add: IsBitSet_def go_nth_def)
qed

lemma Pad_eq:
  assumes "0 \<le> n" and "0 < m"
  shows "Pad n m = Inr (if n mod m = 0 then n else n + (m - n mod m))"
proof -
  have "n smod m = n mod m" using assms by (cases "n = 0") (simp_all add: smod_int_alt_def)
  then show ?thesis using assms by (simp add: Pad_def)
qed

lemma Pad_cases:
  assumes "0 \<le> n" and "0 < m"
  shows "\<exists>r. Pad n m = Inr r \<and> m dvd r \<and> n \<le> r \<and> r < n + m"
proof (cases "n mod m = 0")
  case True
  then show ?thesis using assms by (simp add: Pad_eq dvd_eq_mod_eq_0)
next
  case False
  have "n + (m - n mod m) = m * (n div m + 1)"
    using mult_div_mod_eq [of m n] by (simp add: algebra_simps)
  then have "m dvd n + (m - n mod m)" by (metis dvd_triv_left)
  moreover have "0 < n mod m" "n mod m \<le> m"
    using False assms(2) pos_mod_sign [of m n] pos_mod_bound [of m n] by linarith+
  ultimately show ?thesis using assms False by (simp add: Pad_eq)
qed

section \<open>Properties\<close>

text \<open>
  Each of the four bit operations panics with ErrByteLengthMissMatch when its slices
  differ in length and otherwise overwrites \<open>dst\<close> with the operation applied byte by byte,
  although the code works on eight bytes at a time and treats the last \<open>len%8\<close> bytes apart.
\<close>

theorem bit_ops_bytewise:
  "Xor dst a = (if length dst = length a then Inr (map2 (XOR) dst a) else Inl ErrByteLengthMissMatch) \<and>
   And dst a = (if length dst = length a then Inr (map2 (AND) dst a) else Inl ErrByteLengthMissMatch) \<and>
   DoubleXor dst a b =
     (if length dst = length a \<and> length dst = length b then Inr (map2 (XOR) (map2 (XOR) dst a) b)
      else Inl ErrByteLengthMissMatch) \<and>
   AndXor dst a b =
     (if length dst = length a \<and> length dst = length b then Inr (map2 (XOR) (map2 (AND) dst a) b)
      else Inl ErrByteLengthMissMatch)"
  by (simp add: Xor_eq And_eq DoubleXor_eq AndXor_eq)

text \<open>
  Property C12. The amd64 build, which reinterprets the slices as words, and the generic build,
  which goes through LittleEndian, compute the same result for every input.
\<close>

theorem build_variants_agree:
  assumes "casts_le u"
  shows "Xor_amd64 u dst a = Xor dst a \<and> And_amd64 u dst a = And dst a \<and>
    DoubleXor_amd64 u dst a b = DoubleXor dst a b \<and> AndXor_amd64 u dst a b = AndXor dst a b"
  using assms by (simp add: Xor_amd64_eq And_amd64_eq DoubleXor_amd64_eq AndXor_amd64_eq)

definition le_cast :: unsafe_cast where
  "le_cast = \<lparr>cast = \<lambda>bs. map (\<lambda>i. le_get64 (sub_list bs (8 * i) 8)) [0..<length bs div 8],
              store = \<lambda>bs ws. concat (map le_put64 ws) @ drop (8 * length ws) bs,
              bytes_of = \<lambda>ws. concat (map le_put64 ws)\<rparr>"

theorem build_variants_agree_witness:
  "casts_le le_cast \<and>
   Xor_amd64 le_cast [1, 2, 3, 4, 5, 6, 7, 8, 9] [1, 1, 1, 1, 1, 1, 1, 1, 1] = Inr [0, 3, 2, 5, 4, 7, 6, 9, 8]"
proof -
  have ok: "casts_le le_cast" by (auto simp: casts_le_def le_cast_def)
  then show ?thesis
    using build_variants_agree [OF ok, of "[1, 2, 3, 4, 5, 6, 7, 8, 9]" "[1, 1, 1, 1, 1, 1, 1, 1, 1]" "[]"]
    by (simp add: Xor_eq)
qed

text \<open>
  Property C11. ConcurrentBitOp on Xor and on And gives, for every number of workers and every
  order in which they run, the bytewise result of the whole slices, and it panics when the slices
  differ in length; ConcurrentDoubleBitOp likewise gives the result of DoubleXor and of AndXor.
\<close>

theorem concurrent_bit_ops:
  assumes "0 < nworkers" and "mset ord = mset [0..<nworkers]"
  shows "(if length dst = length a
          then ConcurrentBitOp nworkers ord Xor dst a = Inr (map2 (XOR) dst a) \<and>
               ConcurrentBitOp nworkers ord And dst a = Inr (map2 (AND) dst a)
          else (\<exists>e. ConcurrentBitOp nworkers ord Xor dst a = Inl e \<and> is_panic e) \<and>
               (\<exists>e. ConcurrentBitOp nworkers ord And dst a = Inl e \<and> is_panic e)) \<and>
     (length dst = length a \<longrightarrow> length dst = length b \<longrightarrow>
       ConcurrentDoubleBitOp nworkers ord DoubleXor dst a b = Inr (map2 (XOR) (map2 (XOR) dst a) b) \<and>
       ConcurrentDoubleBitOp nworkers ord AndXor dst a b = Inr (map2 (XOR) (map2 (AND) dst a) b))"
  using assms xor_op.pool_panics [OF assms] and_op.pool_panics [OF assms]
  by (simp add: xor_op.pool_eq and_op.pool_eq double_xor_op.double_pool_eq and_xor_op.double_pool_eq
      Xor_eq And_eq DoubleXor_eq AndXor_eq)

theorem concurrent_bit_ops_witness:
  "ConcurrentBitOp 2 [1, 0] Xor (replicate 40000 1) (replicate 40000 3) = Inr (replicate 40000 2) \<and>
   ConcurrentDoubleBitOp 2 [1, 0] AndXor (replicate 40000 1) (replicate 40000 3) (replicate 40000 4)
     = Inr (replicate 40000 5)"
proof -
  have ord: "(0::nat) < 2" "mset [1, 0] = mset [0..<2]" by (simp_all add: numeral_2_eq_2)
  show ?thesis
    using concurrent_bit_ops [OF ord, of "replicate 40000 1" "replicate 40000 3" "replicate 40000 4"]
    by (simp add: map2_map_map zip_replicate map_replicate)
qed

text \<open>
  Pad rounds a length up to the next multiple: for \<open>n \<ge> 0\<close> and a positive multiple
  the result is the one multiple in \<open>[n, n + multiple)\<close>.
\<close>

theorem Pad_least_multiple:
  assumes "0 \<le> n" and "0 < multiple"
  shows "\<exists>r. Pad n multiple = Inr r \<and> multiple dvd r \<and> n \<le> r \<and> r < n + multiple"
  using assms by (rule Pad_cases)

theorem Pad_least_multiple_witness: "\<exists>r. Pad 700 512 = Inr r \<and> 512 dvd r \<and> 700 \<le> r \<and> r < 700 + 512"
  by (rule Pad_least_multiple) simp_all

end
