(* ===== verification/Crypto.thy ===== *)
theory Crypto
  imports Bits Conn
begin

text \<open>
  The package \<open>internal/crypto\<close>: the pseudorandom code in both build variants, the xor cipher and the
  pseudorandom generator over Blake3, and points of the curve P-256. AES, Blake3, Murmur3 and the
  curve are parameters.
\<close>

section \<open>Pseudorandom code\<close>

text \<open>\<open>cipher.Block.Encrypt(dst, src)\<close> encrypts the first block of \<open>src\<close>; \<open>aes\<close> is the keyed block function.\<close>

abbreviation BlockSize :: nat where
  "BlockSize \<equiv> 16"

definition Encrypt :: "(bytes \<Rightarrow> bytes) \<Rightarrow> bytes \<Rightarrow> nat \<Rightarrow> bytes \<Rightarrow> bytes" where
  "Encrypt aes dst off s = write_at dst off (aes (take BlockSize s))"

text \<open>The four encryptions, whose source differs only in its first byte.\<close>

definition encrypt_blocks :: "(bytes \<Rightarrow> bytes) \<Rightarrow> bytes \<Rightarrow> bytes \<Rightarrow> bytes" where
  "encrypt_blocks aes dst s =
     (let s = s[0 := 1]; dst = Encrypt aes dst 0 s;
          s = s[0 := 2]; dst = Encrypt aes dst BlockSize s;
          s = s[0 := 3]; dst = Encrypt aes dst (BlockSize * 2) s;
          s = s[0 := 4]; dst = Encrypt aes dst (BlockSize * 3) s
      in dst)"

definition PseudorandomCode :: "(u64 \<Rightarrow> u64 \<Rightarrow> bytes \<Rightarrow> u64 \<times> u64) \<Rightarrow> (bytes \<Rightarrow> bytes) \<Rightarrow> bytes \<Rightarrow> byte \<Rightarrow> bytes" where
  "PseudorandomCode SeedSum128 aes src hIdx =
     (let dst = replicate (BlockSize * 4) 0;
          (lo, hi) = SeedSum128 (ucast hIdx) (ucast hIdx) src;
          s = replicate (1 + BlockSize) 0;
          s = write_at s 1 (le_put64 lo);
          s = write_at s 9 (le_put64 hi)
      in encrypt_blocks aes dst s)"

text \<open>On amd64 the words are reinterpreted as bytes and moved up by one byte.\<close>

definition PseudorandomCode_amd64 ::
  "unsafe_cast \<Rightarrow> (u64 \<Rightarrow> u64 \<Rightarrow> bytes \<Rightarrow> u64 \<times> u64) \<Rightarrow> (bytes \<Rightarrow> bytes) \<Rightarrow> bytes \<Rightarrow> byte \<Rightarrow> bytes" where
  "PseudorandomCode_amd64 u SeedSum128 aes src hIdx =
     (let dst = replicate (BlockSize * 4) 0;
          (lo, hi) = SeedSum128 (ucast hIdx) (ucast hIdx) src;
          s = bytes_of u [lo, hi];
          s = take 1 s @ go_copy (drop 1 s) s
      in encrypt_blocks aes dst s)"

section \<open>Xor cipher and pseudorandom generator\<close>

text \<open>
  Blake3: \<open>XOF bs n\<close> are the first \<open>n\<close> bytes of the extended output after \<open>bs\<close> has been written,
  \<open>Sum256\<close> is the plain digest.
\<close>

record blake3 =
  XOF :: "bytes \<Rightarrow> nat \<Rightarrow> bytes"
  Sum256 :: "bytes \<Rightarrow> bytes"

definition blake3_ok :: "blake3 \<Rightarrow> bool" where
  "blake3_ok h \<longleftrightarrow> (\<forall>bs n. length (XOF h bs n) = n)"

definition getBlake3Hash :: "blake3 \<Rightarrow> bytes \<Rightarrow> byte \<Rightarrow> bytes \<Rightarrow> bytes" where
  "getBlake3Hash h key ind dst = XOF h (key @ [ind]) (length dst)"

text \<open>\<open>nworkers\<close> and \<open>ord\<close> are the workers of \<open>ConcurrentBitOp\<close> and the order in which they run.\<close>

definition XorCipherWithBlake3 :: "nat \<Rightarrow> nat list \<Rightarrow> blake3 \<Rightarrow> bytes \<Rightarrow> byte \<Rightarrow> bytes \<Rightarrow> bytes result" where
  "XorCipherWithBlake3 nworkers ord h key ind src =
     (let hash = replicate (length src) 0; hash = getBlake3Hash h key ind hash
      in ConcurrentBitOp nworkers ord Xor hash src)"

definition PseudorandomGenerate :: "blake3 \<Rightarrow> bytes \<Rightarrow> bytes \<Rightarrow> bytes" where
  "PseudorandomGenerate h dst seed =
     (if length dst < length seed then go_copy dst seed else XOF h seed (length dst))"

section \<open>Points of the curve\<close>

text \<open>
  What is used of \<open>crypto/elliptic\<close> for P-256. The point at infinity is (0, 0), as documented there;
  \<open>UnmarshalCompressed\<close> gives nil on malformed input.
\<close>

record curve =
  MarshalCompressed :: "int \<Rightarrow> int \<Rightarrow> bytes"
  UnmarshalCompressed :: "bytes \<Rightarrow> (int \<times> int) option"
  curve_Add :: "int \<Rightarrow> int \<Rightarrow> int \<Rightarrow> int \<Rightarrow> int \<times> int"
  curve_ScalarMult :: "int \<Rightarrow> int \<Rightarrow> bytes \<Rightarrow> int \<times> int"
  IsOnCurve :: "int \<Rightarrow> int \<Rightarrow> bool"
  params_P :: int
  params_Gx :: int
  params_Gy :: int

definition encodeLen :: "curve \<Rightarrow> nat" where
  "encodeLen c = length (MarshalCompressed c (params_Gx c) (params_Gy c))"

record Point =
  px :: int
  py :: int

definition NewPoint :: Point where
  "NewPoint = \<lparr>px = 0, py = 0\<rparr>"

definition Marshal :: "curve \<Rightarrow> Point \<Rightarrow> bytes" where
  "Marshal c p = MarshalCompressed c (px p) (py p)"

definition Unmarshal :: "curve \<Rightarrow> bytes \<Rightarrow> Point result" where
  "Unmarshal c bs = (case UnmarshalCompressed c bs of None \<Rightarrow> Inl ErrUnmarshalPoint | Some (x, y) \<Rightarrow> Inr \<lparr>px = x, py = y\<rparr>)"

definition Add :: "curve \<Rightarrow> Point \<Rightarrow> Point \<Rightarrow> Point" where
  "Add c p q = (let (x, y) = curve_Add c (px p) (py p) (px q) (py q) in \<lparr>px = x, py = y\<rparr>)"

definition ScalarMult :: "curve \<Rightarrow> Point \<Rightarrow> bytes \<Rightarrow> Point" where
  "ScalarMult c p scalar = (let (x, y) = curve_ScalarMult c (px p) (py p) scalar in \<lparr>px = x, py = y\<rparr>)"

definition Sub :: "curve \<Rightarrow> Point \<Rightarrow> Point \<Rightarrow> Point" where
  "Sub c p q =
     (let negQy = - py q; negQy = negQy mod params_P c;
          (x, y) = curve_Add c (px p) (py p) (px q) negQy
      in \<lparr>px = x, py = y\<rparr>)"

text \<open>\<open>big.Int.Bytes\<close>: the absolute value, big endian, without leading zeros.\<close>

fun nat_bytes :: "nat \<Rightarrow> bytes" where
  "nat_bytes n = (if n = 0 then [] else nat_bytes (n div 256) @ [of_nat (n mod 256)])"

declare nat_bytes.simps [simp del]

definition DeriveKeyFromECPoint :: "blake3 \<Rightarrow> Point \<Rightarrow> bytes" where
  "DeriveKeyFromECPoint h p = Sum256 h (nat_bytes (nat \<bar>px p\<bar>))"

text \<open>\<open>draw\<close> is what \<open>elliptic.GenerateKey\<close> returns.\<close>

definition GenerateKey :: "(bytes \<times> int \<times> int) result \<Rightarrow> (bytes \<times> Point) result" where
  "GenerateKey draw = bind_res draw (\<lambda>(secret, x, y). Inr (secret, \<lparr>px = x, py = y\<rparr>))"

definition Write_point :: "curve \<Rightarrow> Point \<Rightarrow> io_writer \<Rightarrow> io_writer result" where
  "Write_point c p w = write_conn (Marshal c p) w"

definition Read_point :: "curve \<Rightarrow> io_reader \<Rightarrow> (Point \<times> io_reader) result" where
  "Read_point c r = bind_res (ReadFull (encodeLen c) r) (\<lambda>(pt, r). bind_res (Unmarshal c pt) (\<lambda>p. Inr (p, r)))"

definition equal_point :: "Point \<Rightarrow> Point \<Rightarrow> bool" where
  "equal_point p q \<longleftrightarrow> px p = px q \<and> py p = py q"

section \<open>The group of points\<close>

text \<open>
  What the oblivious transfer needs of the points: they form an abelian group under \<open>add\<close> with the
  inverse that \<open>Sub\<close> computes, and multiplication with scalars is additive and commutes.
\<close>

locale curve_group =
  fixes ok :: "'c \<Rightarrow> bool"
    and pts :: "'c \<Rightarrow> 'p \<Rightarrow> bool"
    and add :: "'c \<Rightarrow> 'p \<Rightarrow> 'p \<Rightarrow> 'p"
    and neg :: "'c \<Rightarrow> 'p \<Rightarrow> 'p"
    and zero :: 'p
    and smult :: "'c \<Rightarrow> 'p \<Rightarrow> 'k \<Rightarrow> 'p"
  assumes add_pts: "ok c \<Longrightarrow> pts c p \<Longrightarrow> pts c q \<Longrightarrow> pts c (add c p q)"
    and neg_pts: "ok c \<Longrightarrow> pts c p \<Longrightarrow> pts c (neg c p)"
    and zero_pts: "ok c \<Longrightarrow> pts c zero"
    and smult_pts: "ok c \<Longrightarrow> pts c p \<Longrightarrow> pts c (smult c p k)"
    and add_assoc: "ok c \<Longrightarrow> pts c p \<Longrightarrow> pts c q \<Longrightarrow> pts c r \<Longrightarrow> add c (add c p q) r = add c p (add c q r)"
    and add_comm: "ok c \<Longrightarrow> pts c p \<Longrightarrow> pts c q \<Longrightarrow> add c p q = add c q p"
    and add_zero: "ok c \<Longrightarrow> pts c p \<Longrightarrow> add c p zero = p"
    and add_neg: "ok c \<Longrightarrow> pts c p \<Longrightarrow> add c p (neg c p) = zero"
    and smult_add: "ok c \<Longrightarrow> pts c p \<Longrightarrow> pts c q \<Longrightarrow> smult c (add c p q) k = add c (smult c p k) (smult c q k)"
    and smult_comm: "ok c \<Longrightarrow> pts c p \<Longrightarrow> smult c (smult c p j) k = smult c (smult c p k) j"
begin

lemmas closed = add_pts neg_pts zero_pts smult_pts

lemma neg_unique:
  assumes "ok c" "pts c p" "pts c q" "add c p q = zero"
  shows "p = neg c q"
proof -
  have "p = add c p (add c q (neg c q))" using assms by (simp add: add_neg add_zero)
  also have "\<dots> = add c (add c p q) (neg c q)"
    by (rule add_assoc [symmetric]) (use assms in \<open>simp_all add: closed\<close>)
  also have "\<dots> = neg c q" using assms by (metis add_comm add_zero closed(2,3))
  finally show ?thesis .
qed

lemma smult_zero:
  assumes "ok c"
  shows "smult c zero k = zero"
proof -
  let ?z = "smult c zero k"
  have z: "pts c ?z" using assms by (simp add: closed)
  have "add c ?z ?z = ?z" using assms by (simp add: closed add_zero flip: smult_add)
  then have "add c (add c ?z ?z) (neg c ?z) = add c ?z (neg c ?z)" by simp
  then show ?thesis using assms z by (simp add: add_assoc closed add_neg add_zero)
qed

lemma smult_neg:
  assumes "ok c" "pts c p"
  shows "smult c (neg c p) k = neg c (smult c p k)"
proof (rule neg_unique)
  have "add c (smult c (neg c p) k) (smult c p k) = smult c (add c (neg c p) p) k"
    using assms by (simp add: smult_add closed)
  also have "add c (neg c p) p = zero" using assms by (metis add_comm add_neg neg_pts)
  finally show "add c (smult c (neg c p) k) (smult c p k) = zero" using assms by (simp add: smult_zero)
qed (use assms in \<open>simp_all add: closed\<close>)

lemma smult_diff:
  "ok c \<Longrightarrow> pts c p \<Longrightarrow> pts c q \<Longrightarrow> smult c (add c p (neg c q)) k = add c (smult c p k) (neg c (smult c q k))"
  by (simp add: smult_add smult_neg closed)

lemma diff_diff:
  assumes "ok c" "pts c p" "pts c q"
  shows "add c p (neg c (add c p (neg c q))) = q"
proof -
  let ?u = "add c p (neg c q)"
  have u: "pts c ?u" using assms by (simp add: closed)
  have "add c q ?u = add c (add c q p) (neg c q)" using assms by (simp add: add_assoc closed)
  also have "\<dots> = add c p (add c q (neg c q))" using assms by (simp add: add_comm [of c q p] add_assoc closed)
  finally have p: "add c q ?u = p" using assms by (simp add: add_neg add_zero)
  have "add c p (neg c ?u) = add c (add c q ?u) (neg c ?u)" by (simp only: p)
  also have "\<dots> = add c q (add c ?u (neg c ?u))" using assms u by (simp add: add_assoc closed)
  finally show ?thesis using assms u by (simp add: add_neg add_zero)
qed

lemma diff_zero:
  assumes "ok c" "pts c p" "pts c q" "add c p (neg c q) = zero"
  shows "p = q"
  using diff_diff [OF assms(1-3)] assms by (metis add_neg add_zero closed(2,3) neg_unique)

end

definition is_point :: "curve \<Rightarrow> Point \<Rightarrow> bool" where
  "is_point c p \<longleftrightarrow> IsOnCurve c (px p) (py p) \<or> p = NewPoint"

definition Neg :: "curve \<Rightarrow> Point \<Rightarrow> Point" where
  "Neg c q = \<lparr>px = px q, py = (- py q) mod params_P c\<rparr>"

text \<open>
  The documented behaviour of the curve: its points and the point at infinity are an abelian group in
  which \<open>(x, -y)\<close> is the inverse of \<open>(x, y)\<close>, scalar multiplication is repeated addition, and
  encoding a point of the curve can be undone and has a fixed length.
\<close>

definition curve_ok :: "curve \<Rightarrow> bool" where
  "curve_ok c \<longleftrightarrow>
     (\<forall>p q. is_point c p \<longrightarrow> is_point c q \<longrightarrow> is_point c (Add c p q) \<and> Add c p q = Add c q p) \<and>
     (\<forall>p q r. is_point c p \<longrightarrow> is_point c q \<longrightarrow> is_point c r \<longrightarrow> Add c (Add c p q) r = Add c p (Add c q r)) \<and>
     (\<forall>p. is_point c p \<longrightarrow> is_point c (Neg c p) \<and> Add c p NewPoint = p \<and> Add c p (Neg c p) = NewPoint) \<and>
     (\<forall>p k. is_point c p \<longrightarrow> is_point c (ScalarMult c p k)) \<and>
     (\<forall>p q k. is_point c p \<longrightarrow> is_point c q \<longrightarrow> ScalarMult c (Add c p q) k = Add c (ScalarMult c p k) (ScalarMult c q k)) \<and>
     (\<forall>p j k. is_point c p \<longrightarrow> ScalarMult c (ScalarMult c p j) k = ScalarMult c (ScalarMult c p k) j) \<and>
     (\<forall>x y. IsOnCurve c x y \<longrightarrow> UnmarshalCompressed c (MarshalCompressed c x y) = Some (x, y) \<and>
        length (MarshalCompressed c x y) = encodeLen c) \<and>
     IsOnCurve c (params_Gx c) (params_Gy c)"

lemma curve_ok_assoc:
  assumes "curve_ok c" "is_point c p" "is_point c q" "is_point c r"
  shows "Add c (Add c p q) r = Add c p (Add c q r)"
  using assms(1) [unfolded curve_ok_def, THEN conjunct2, THEN conjunct1] assms(2-) by blast

interpretation ec: curve_group curve_ok is_point Add Neg NewPoint ScalarMult
  by unfold_locales (erule curve_ok_assoc; assumption | simp add: curve_ok_def is_point_def [of _ NewPoint])+

lemma Sub_eq: "Sub c p q = Add c p (Neg c q)"
  by (simp add: Sub_def Add_def Neg_def Let_def)

definition on_curve :: "curve \<Rightarrow> Point \<Rightarrow> bool" where
  "on_curve c p \<longleftrightarrow> IsOnCurve c (px p) (py p)"

lemma on_curve_point: "on_curve c p \<Longrightarrow> is_point c p"
  by (simp add: on_curve_def is_point_def)

lemma on_curve_Sub:
  assumes "curve_ok c" "is_point c p" "is_point c q" "p \<noteq> q"
  shows "on_curve c (Sub c p q)"
  using assms ec.diff_zero [OF assms(1-3)] ec.closed(1,2) [OF assms(1)]
  unfolding Sub_eq by (auto simp: is_point_def on_curve_def)

lemma Unmarshal_Marshal:
  assumes "curve_ok c" "on_curve c p"
  shows "Unmarshal c (Marshal c p) = Inr p" and "length (Marshal c p) = encodeLen c"
proof -
  have "UnmarshalCompressed c (MarshalCompressed c (px p) (py p)) = Some (px p, py p) \<and>
      length (MarshalCompressed c (px p) (py p)) = encodeLen c"
    using assms unfolding curve_ok_def on_curve_def by blast
  then show "Unmarshal c (Marshal c p) = Inr p" "length (Marshal c p) = encodeLen c"
    by (simp_all add: Unmarshal_def Marshal_def)
qed

lemma Read_point_Marshal:
  assumes "curve_ok c" "on_curve c p" "concat r = Marshal c p @ rest"
  shows "\<exists>r'. Read_point c r = Inr (p, r') \<and> concat r' = rest"
  using ReadFull_spec [OF assms(3) Unmarshal_Marshal(2) [OF assms(1,2)]] Unmarshal_Marshal(1) [OF assms(1,2)]
  by (auto simp: Read_point_def)

section \<open>Ciphers\<close>

definition pool_ok :: "nat \<Rightarrow> nat list \<Rightarrow> bool" where
  "pool_ok nworkers ord \<longleftrightarrow> 0 < nworkers \<and> mset ord = mset [0..<nworkers]"

lemma XorCipher_eq:
  assumes "blake3_ok h" "pool_ok nworkers ord"
  shows "XorCipherWithBlake3 nworkers ord h key ind src = Inr (map2 (XOR) (XOF h (key @ [ind]) (length src)) src)"
  using assms
  by (simp add: XorCipherWithBlake3_def getBlake3Hash_def blake3_ok_def pool_ok_def xor_op.pool_eq Xor_eq Let_def)

lemma map2_xor_cancel: "length xs = length ys \<Longrightarrow> map2 (XOR) xs (map2 (XOR) xs ys) = (ys :: byte list)"
  by (rule nth_equalityI) (simp_all flip: xor.assoc)

lemma XorCipher_roundtrip:
  assumes "blake3_ok h" "pool_ok n ord" "pool_ok n' ord'"
  shows "bind_res (XorCipherWithBlake3 n ord h key ind src) (XorCipherWithBlake3 n' ord' h key ind) = Inr src"
proof -
  have "length (XOF h (key @ [ind]) (length src)) = length src" using assms(1) by (simp add: blake3_ok_def)
  then show ?thesis using assms by (simp add: XorCipher_eq map2_xor_cancel)
qed

lemma length_PseudorandomGenerate: "blake3_ok h \<Longrightarrow> length (PseudorandomGenerate h dst seed) = length dst"
  by (simp add: PseudorandomGenerate_def go_copy_def blake3_ok_def)

section \<open>The pseudorandom code\<close>

definition prc_block :: "(bytes \<Rightarrow> bytes) \<Rightarrow> bytes \<Rightarrow> byte \<Rightarrow> bytes" where
  "prc_block aes hx i = aes (i # take 15 hx)"

lemma encrypt_blocks_eq:
  assumes "\<And>s. length (aes s) = BlockSize" and "length dst = 64" and "\<And>i. take BlockSize (s[0 := i]) = i # take 15 hx"
  shows "encrypt_blocks aes dst s = concat (map (prc_block aes hx) [1, 2, 3, 4])"
  using assms by (simp add: encrypt_blocks_def Encrypt_def prc_block_def write_at_def Let_def)

lemma le_cast_ok: "casts_le le_cast"
  by (auto simp: casts_le_def le_cast_def)

lemma PseudorandomCode_eq:
  assumes "\<And>s. length (aes s) = BlockSize" and "casts_le u"
  shows "let (lo, hi) = SeedSum128 (ucast hIdx) (ucast hIdx) src; hx = le_put64 lo @ le_put64 hi;
             code = concat (map (\<lambda>i. aes (i # take 15 hx)) [1, 2, 3, 4])
         in PseudorandomCode SeedSum128 aes src hIdx = code \<and> PseudorandomCode_amd64 u SeedSum128 aes src hIdx = code \<and>
            length code = 64"
proof -
  obtain lo hi where h: "SeedSum128 (ucast hIdx) (ucast hIdx) src = (lo, hi)" by (cases "SeedSum128 (ucast hIdx) (ucast hIdx) src")
  let ?hx = "le_put64 lo @ le_put64 hi"
  let ?g = "write_at (write_at (replicate (1 + BlockSize) 0) 1 (le_put64 lo)) 9 (le_put64 hi)"
  let ?a = "take 1 (bytes_of u [lo, hi]) @ go_copy (drop 1 (bytes_of u [lo, hi])) (bytes_of u [lo, hi])"
  have "?g = 0 # ?hx" by (simp add: write_at_def)
  then have g: "take BlockSize (?g[0 := i]) = i # take 15 ?hx" for i by (simp add: take_Cons')
  have hx: "bytes_of u [lo, hi] = ?hx" using assms(2) by (simp add: casts_le_def)
  have a: "take BlockSize (?a[0 := i]) = i # take 15 ?hx" for i
  proof -
    obtain x xs where "?hx = x # xs" "length xs = 15" by (cases ?hx) (auto dest: arg_cong [of _ _ length])
    then show ?thesis unfolding hx by (simp add: go_copy_def)
  qed
  have len: "length (replicate (BlockSize * 4) (0 :: byte)) = 64" by simp
  show ?thesis
    using encrypt_blocks_eq [OF assms(1) len g] encrypt_blocks_eq [OF assms(1) len a] h assms(1)
    by (simp add: PseudorandomCode_def PseudorandomCode_amd64_def Let_def prc_block_def)
qed

lemma PseudorandomCode_length:
  assumes "\<And>s. length (aes s) = BlockSize"
  shows "length (PseudorandomCode SeedSum128 aes src hIdx) = 64"
  using PseudorandomCode_eq [of aes le_cast SeedSum128 hIdx src, OF assms le_cast_ok]
  by (cases "SeedSum128 (ucast hIdx) (ucast hIdx) src") (auto simp: Let_def)

section \<open>Properties\<close>

text \<open>
  The pseudorandom code is the same in both builds: the concatenation of the four blocks
  \<open>AES(i || h(x)[:15])\<close> for i = 1, 2, 3, 4, where \<open>h(x)\<close> are the two words of Murmur3 with the hash
  index as both seeds, in little endian order; it has 64 bytes.
\<close>
theorem PseudorandomCode_spec:
  assumes "\<And>s. length (aes s) = BlockSize" and "casts_le u"
  shows "let (lo, hi) = SeedSum128 (ucast hIdx) (ucast hIdx) src; hx = le_put64 lo @ le_put64 hi;
             code = concat (map (\<lambda>i. aes (i # take 15 hx)) [1, 2, 3, 4])
         in PseudorandomCode SeedSum128 aes src hIdx = code \<and> PseudorandomCode_amd64 u SeedSum128 aes src hIdx = code \<and>
            length code = 64"
  using assms by (rule PseudorandomCode_eq)

theorem PseudorandomCode_spec_witness:
  "PseudorandomCode (\<lambda>_ _ _. (1, 2)) (\<lambda>s. rev (take 16 (s @ replicate 16 0))) [7] 1 =
   PseudorandomCode_amd64 le_cast (\<lambda>_ _ _. (1, 2)) (\<lambda>s. rev (take 16 (s @ replicate 16 0))) [7] 1"
proof -
  have l: "length (rev (take 16 (s @ replicate 16 (0 :: byte)))) = BlockSize" for s by simp
  show ?thesis using PseudorandomCode_spec [of "\<lambda>s. rev (take 16 (s @ replicate 16 0))", OF l le_cast_ok, of "\<lambda>_ _ _. (1, 2)" 1 "[7]"]
    by (simp only: Let_def prod.case)
qed

end
