(* ===== verification/OT.thy ===== *)
theory OT
  imports Crypto
begin

text \<open>
  The base oblivious transfer of \<open>internal/ot\<close>: the Naor-Pinkas protocol over the curve. The sender
  and the receiver run concurrently; each is a function of the bytes that arrive from the other.
\<close>

section \<open>The protocol\<close>

text \<open>
  What the environment provides: the libraries, the number of workers of the bit operations, the order
  in which they run in the \<open>i\<close>-th call, and the keys that \<open>GenerateKey\<close> draws.
\<close>

record ot_env =
  ot_curve :: curve
  ot_hash :: blake3
  ot_nworkers :: nat
  ot_ord :: "nat \<Rightarrow> nat list"
  draw :: "nat \<Rightarrow> (bytes \<times> int \<times> int) result"

type_synonym OTMessage = "bytes \<times> bytes"

definition naor_cipher :: "ot_env \<Rightarrow> nat \<Rightarrow> Point \<Rightarrow> byte \<Rightarrow> bytes \<Rightarrow> bytes result" where
  "naor_cipher env i p choice text =
     XorCipherWithBlake3 (ot_nworkers env) (ot_ord env i) (ot_hash env) (DeriveKeyFromECPoint (ot_hash env) p) choice text"

text \<open>The body of the sender's loop for the message pair \<open>i\<close>.\<close>

definition naor_send_step :: "ot_env \<Rightarrow> bytes \<Rightarrow> Point \<Rightarrow> OTMessage list \<Rightarrow> nat \<Rightarrow> io_reader \<times> io_writer \<Rightarrow>
    (io_reader \<times> io_writer) result" where
  "naor_send_step env secretR pointA otMessages i = (\<lambda>(r, w).
     bind_res (wrap_err ''error reading point'' (Read_point (ot_curve env) r)) (\<lambda>(keyMaterial, r).
       let key0 = ScalarMult (ot_curve env) keyMaterial secretR;
           key1 = Sub (ot_curve env) pointA key0 in
       bind_res (naor_cipher env (2 * i) key0 0 (fst (otMessages ! i))) (\<lambda>ciphertext.
       bind_res (wrap_err ''error writing bytes'' (write_conn ciphertext w)) (\<lambda>w.
       bind_res (naor_cipher env (2 * i + 1) key1 1 (snd (otMessages ! i))) (\<lambda>ciphertext.
       bind_res (wrap_err ''error writing bytes'' (write_conn ciphertext w)) (\<lambda>w.
         Inr (r, w)))))))"

definition Send_naorPinkas :: "ot_env \<Rightarrow> nat list \<Rightarrow> OTMessage list \<Rightarrow> io_reader \<Rightarrow> io_writer \<Rightarrow>
    (io_reader \<times> io_writer) result" where
  "Send_naorPinkas env msgLens otMessages r w =
     (if length msgLens \<noteq> length otMessages then Inl ErrBaseCountMissMatch
      else
        bind_res (wrap_err ''error generating keys'' (GenerateKey (draw env 0))) (\<lambda>(_, pointA).
        bind_res (wrap_err ''error generating keys'' (GenerateKey (draw env 1))) (\<lambda>(secretR, pointR).
        bind_res (wrap_err ''error writing point'' (Write_point (ot_curve env) pointA w)) (\<lambda>w.
        bind_res (wrap_err ''error writing point'' (Write_point (ot_curve env) pointR w)) (\<lambda>w.
          let pointA = ScalarMult (ot_curve env) pointA secretR in
          fold_res (naor_send_step env secretR pointA otMessages) [0..<length otMessages] (r, w))))))"

definition naor_receive_step :: "ot_env \<Rightarrow> nat list \<Rightarrow> bytes \<Rightarrow> Point \<Rightarrow> Point \<Rightarrow> nat \<Rightarrow>
    bytes list \<times> io_reader \<times> io_writer \<Rightarrow> (bytes list \<times> io_reader \<times> io_writer) result" where
  "naor_receive_step env msgLens choices pointA pointR i = (\<lambda>(messages, r, w).
     bind_res (wrap_err ''error generating keys'' (GenerateKey (draw env i))) (\<lambda>(secretB, pointB).
     bind_res (IsBitSet choices i) (\<lambda>isset.
     bind_res (wrap_err ''error writing point''
        (Write_point (ot_curve env) (if \<not> isset then pointB else Sub (ot_curve env) pointA pointB) w)) (\<lambda>w.
     bind_res (wrap_err ''error reading bytes'' (ReadFull (msgLens ! i) r)) (\<lambda>(enc0, r).
     bind_res (wrap_err ''error writing point'' (ReadFull (msgLens ! i) r)) (\<lambda>(enc1, r).
       let pointK = ScalarMult (ot_curve env) pointR secretB in
       bind_res (BitExtract choices i) (\<lambda>choiceBit.
       bind_res (naor_cipher env i pointK choiceBit (if choiceBit = 0 then enc0 else enc1)) (\<lambda>m.
         Inr (messages[i := m], r, w)))))))))"

definition Receive_naorPinkas :: "ot_env \<Rightarrow> nat list \<Rightarrow> bytes \<Rightarrow> bytes list \<Rightarrow> io_reader \<Rightarrow> io_writer \<Rightarrow>
    (bytes list \<times> io_reader \<times> io_writer) result" where
  "Receive_naorPinkas env msgLens choices messages r w =
     (if length choices * 8 \<noteq> length messages \<or> length choices * 8 \<noteq> length msgLens then Inl ErrBaseCountMissMatch
      else
        bind_res (wrap_err ''error reading point'' (Read_point (ot_curve env) r)) (\<lambda>(pointA, r).
        bind_res (wrap_err ''error reading point'' (Read_point (ot_curve env) r)) (\<lambda>(pointR, r).
          fold_res (naor_receive_step env msgLens choices pointA pointR) [0..<length messages] (messages, r, w))))"

section \<open>Keys\<close>

definition secret_of :: "ot_env \<Rightarrow> nat \<Rightarrow> bytes" where
  "secret_of env i = (case draw env i of Inr (s, _) \<Rightarrow> s | Inl _ \<Rightarrow> [])"

definition point_of :: "ot_env \<Rightarrow> nat \<Rightarrow> Point" where
  "point_of env i = (case draw env i of Inr (_, x, y) \<Rightarrow> \<lparr>px = x, py = y\<rparr> | Inl _ \<Rightarrow> NewPoint)"

definition base_point :: "curve \<Rightarrow> Point" where
  "base_point c = \<lparr>px = params_Gx c, py = params_Gy c\<rparr>"

text \<open>\<open>GenerateKey\<close> has returned a secret and its multiple of the base point, not the point at infinity.\<close>

definition valid_draw :: "ot_env \<Rightarrow> nat \<Rightarrow> bool" where
  "valid_draw env i \<longleftrightarrow> (\<exists>k. draw env i = Inr k) \<and> on_curve (ot_curve env) (point_of env i) \<and>
     point_of env i = ScalarMult (ot_curve env) (base_point (ot_curve env)) (secret_of env i)"

lemma valid_drawD:
  assumes "valid_draw env i"
  shows "on_curve (ot_curve env) (point_of env i)"
    and "point_of env i = ScalarMult (ot_curve env) (base_point (ot_curve env)) (secret_of env i)"
  using assms unfolding valid_draw_def by blast+

lemma GenerateKey_valid: "valid_draw env i \<Longrightarrow> GenerateKey (draw env i) = Inr (secret_of env i, point_of env i)"
  by (auto simp: valid_draw_def GenerateKey_def secret_of_def point_of_def)

definition choice_bit :: "bytes \<Rightarrow> nat \<Rightarrow> bool" where
  "choice_bit choices i = bit (choices ! (i div 8)) (i mod 8)"

definition material :: "curve \<Rightarrow> bool \<Rightarrow> Point \<Rightarrow> Point \<Rightarrow> Point" where
  "material c b pointA pointB = (if b then Sub c pointA pointB else pointB)"

definition enc_key :: "curve \<Rightarrow> bytes \<Rightarrow> Point \<Rightarrow> Point \<Rightarrow> bool \<Rightarrow> Point" where
  "enc_key c r pointA k j = (if j then Sub c (ScalarMult c pointA r) (ScalarMult c k r) else ScalarMult c k r)"

text \<open>The key that the sender derives for the chosen message is the one the receiver computes.\<close>

lemma chosen_key:
  assumes ok: "curve_ok c" and A: "is_point c A" and R: "R = ScalarMult c (base_point c) r" and B: "B = ScalarMult c (base_point c) b"
  shows "enc_key c r A (material c j A B) j = ScalarMult c R b"
proof -
  have G: "is_point c (base_point c)" using ok by (simp add: is_point_def base_point_def curve_ok_def)
  then have pB: "is_point c B" using ok B by (simp add: ec.closed)
  have shared: "ScalarMult c R b = ScalarMult c B r" using ok G R B by (simp add: ec.smult_comm)
  show ?thesis
  proof (cases j)
    case True
    have "enc_key c r A (material c j A B) j =
        Sub c (ScalarMult c A r) (Sub c (ScalarMult c A r) (ScalarMult c B r))"
      using True ok A pB by (simp add: enc_key_def material_def Sub_eq ec.smult_diff)
    also have "\<dots> = ScalarMult c B r" using ok A pB by (simp add: Sub_eq ec.diff_diff ec.closed)
    finally show ?thesis by (simp add: shared)
  qed (simp add: enc_key_def material_def shared)
qed

section \<open>The loops\<close>

definition ot_env_ok :: "ot_env \<Rightarrow> bool" where
  "ot_env_ok env \<longleftrightarrow> curve_ok (ot_curve env) \<and> blake3_ok (ot_hash env) \<and> (\<forall>i. pool_ok (ot_nworkers env) (ot_ord env i))"

definition pad_with :: "blake3 \<Rightarrow> Point \<Rightarrow> bool \<Rightarrow> bytes \<Rightarrow> bytes" where
  "pad_with h p j m = map2 (XOR) (XOF h (DeriveKeyFromECPoint h p @ [of_bool j]) (length m)) m"

lemma naor_cipher_eq: "ot_env_ok env \<Longrightarrow> naor_cipher env i p (of_bool j) m = Inr (pad_with (ot_hash env) p j m)"
  by (simp add: naor_cipher_def ot_env_ok_def XorCipher_eq pad_with_def)

lemma length_pad_with [simp]: "blake3_ok h \<Longrightarrow> length (pad_with h p j m) = length m"
  by (simp add: pad_with_def blake3_ok_def)

lemma pad_with_twice: "blake3_ok h \<Longrightarrow> pad_with h p j (pad_with h p j m) = m"
proof -
  assume h: "blake3_ok h"
  then have "length (XOF h (DeriveKeyFromECPoint h p @ [of_bool j]) (length m)) = length m" by (simp add: blake3_ok_def)
  moreover have "length (pad_with h p j m) = length m" using h by simp
  ultimately show ?thesis unfolding pad_with_def [of _ _ _ "pad_with h p j m"] by (simp add: pad_with_def map2_xor_cancel)
qed

definition ciphertexts :: "blake3 \<Rightarrow> curve \<Rightarrow> bytes \<Rightarrow> Point \<Rightarrow> Point \<Rightarrow> OTMessage \<Rightarrow> bytes" where
  "ciphertexts h c r pointA k m = pad_with h (enc_key c r pointA k False) False (fst m) @ pad_with h (enc_key c r pointA k True) True (snd m)"

lemma naor_send_loop:
  assumes env: "ot_env_ok env" and K: "\<And>i. i \<in> set is \<Longrightarrow> on_curve (ot_curve env) (K i)"
    and "concat rd = concat (map (\<lambda>i. Marshal (ot_curve env) (K i)) is) @ rest" and "2 * length is \<le> budget w"
  shows "\<exists>rd' w'. fold_res (naor_send_step env r (ScalarMult (ot_curve env) A r) msgs) is (rd, w) = Inr (rd', w') \<and>
    concat rd' = rest \<and> budget w' + 2 * length is = budget w \<and>
    wrote w' = wrote w @ concat (map (\<lambda>i. ciphertexts (ot_hash env) (ot_curve env) r A (K i) (msgs ! i)) is)"
  using K assms(3,4)
proof (induction "is" arbitrary: rd w)
  case (Cons i "is")
  let ?c = "ot_curve env" and ?h = "ot_hash env"
  have c: "curve_ok ?c" using env by (simp add: ot_env_ok_def)
  from Read_point_Marshal [OF c, of "K i" rd] Cons.prems obtain rd1 where
    rd1: "Read_point ?c rd = Inr (K i, rd1)" "concat rd1 = concat (map (\<lambda>i. Marshal ?c (K i)) is) @ rest" by auto
  define w1 where "w1 = \<lparr>wrote = wrote w @ ciphertexts ?h ?c r A (K i) (msgs ! i), budget = budget w - 2\<rparr>"
  have "naor_send_step env r (ScalarMult ?c A r) msgs i (rd, w) = Inr (rd1, w1)"
    using rd1(1) Cons.prems(3) naor_cipher_eq [OF env, of _ _ False] naor_cipher_eq [OF env, of _ _ True]
    by (simp add: naor_send_step_def write_conn_ok w1_def ciphertexts_def enc_key_def Let_def numeral_2_eq_2)
  moreover have "2 * length is \<le> budget w1" using Cons.prems(3) by (simp add: w1_def)
  note Cons.IH [OF _ rd1(2) this]
  ultimately show ?case using Cons.prems(1,3) by (auto simp: w1_def)
qed simp

lemma naor_receive_loop:
  assumes env: "ot_env_ok env" and "\<And>i. i \<in> set is \<Longrightarrow> valid_draw env i \<and> i div 8 < length choices \<and>
      length (fst (msgs ! i)) = msgLens ! i \<and> length (snd (msgs ! i)) = msgLens ! i \<and>
      K i = material (ot_curve env) (choice_bit choices i) A (point_of env i)"
    and AR: "is_point (ot_curve env) A" "R = ScalarMult (ot_curve env) (base_point (ot_curve env)) r"
    and "concat rd = concat (map (\<lambda>i. ciphertexts (ot_hash env) (ot_curve env) r A (K i) (msgs ! i)) is) @ rest"
    and "length is \<le> budget w"
  shows "\<exists>rd' w'. fold_res (naor_receive_step env msgLens choices A R) is (ms, rd, w) =
      Inr (fold (\<lambda>i ms. ms[i := (if choice_bit choices i then snd (msgs ! i) else fst (msgs ! i))]) is ms, rd', w') \<and>
    concat rd' = rest \<and> budget w' + length is = budget w \<and>
    wrote w' = wrote w @ concat (map (\<lambda>i. Marshal (ot_curve env) (K i)) is)"
  using assms(2,5,6)
proof (induction "is" arbitrary: rd w ms)
  case (Cons i "is")
  let ?c = "ot_curve env" and ?h = "ot_hash env" and ?j = "choice_bit choices i"
  have ok: "curve_ok ?c" "blake3_ok ?h" using env by (simp_all add: ot_env_ok_def)
  have i: "valid_draw env i" "i div 8 < length choices" "length (fst (msgs ! i)) = msgLens ! i"
      "length (snd (msgs ! i)) = msgLens ! i" "K i = material ?c ?j A (point_of env i)" using Cons.prems(1) by simp_all
  define ct where "ct j = pad_with ?h (enc_key ?c r A (K i) j) j (if j then snd (msgs ! i) else fst (msgs ! i))" for j
  have "concat rd = ct False @ ct True @ concat (map (\<lambda>i. ciphertexts ?h ?c r A (K i) (msgs ! i)) is) @ rest"
    using Cons.prems(2) by (simp add: ciphertexts_def ct_def)
  moreover have lct: "length (ct j) = msgLens ! i" for j using i(3,4) ok by (simp add: ct_def)
  ultimately obtain rd1 where rd1: "ReadFull (msgLens ! i) rd = Inr (ct False, rd1)"
      "concat rd1 = ct True @ concat (map (\<lambda>i. ciphertexts ?h ?c r A (K i) (msgs ! i)) is) @ rest"
    using ReadFull_spec by blast
  from ReadFull_spec [OF rd1(2) lct] obtain rd2 where rd2: "ReadFull (msgLens ! i) rd1 = Inr (ct True, rd2)"
      "concat rd2 = concat (map (\<lambda>i. ciphertexts ?h ?c r A (K i) (msgs ! i)) is) @ rest" by blast
  define w1 where "w1 = \<lparr>wrote = wrote w @ Marshal ?c (K i), budget = budget w - 1\<rparr>"
  have B: "point_of env i = ScalarMult ?c (base_point ?c) (secret_of env i)" using i(1) by (simp add: valid_draw_def)
  have key: "enc_key ?c r A (K i) ?j = ScalarMult ?c R (secret_of env i)"
    using chosen_key [OF ok(1) AR B, of ?j] i(5) by simp
  have "naor_cipher env i (ScalarMult ?c R (secret_of env i)) (of_bool ?j) (ct ?j) =
      Inr (if ?j then snd (msgs ! i) else fst (msgs ! i))"
    unfolding naor_cipher_eq [OF env] key [symmetric] ct_def pad_with_twice [OF ok(2)] ..
  moreover have "IsBitSet choices i = Inr ?j" "BitExtract choices i = Inr (of_bool ?j)"
    using i(2) by (simp_all add: IsBitSet_eq BitExtract_def choice_bit_def)
  moreover have "Write_point ?c (if \<not> ?j then point_of env i else Sub ?c A (point_of env i)) w = Inr w1"
    using i(5) Cons.prems(3) by (simp add: Write_point_def write_conn_ok w1_def material_def)
  ultimately have "naor_receive_step env msgLens choices A R i (ms, rd, w) =
      Inr (ms[i := (if ?j then snd (msgs ! i) else fst (msgs ! i))], rd2, w1)"
    using rd1(1) rd2(1) i(1) by (cases ?j) (simp_all add: naor_receive_step_def GenerateKey_valid Let_def)
  moreover have "length is \<le> budget w1" using Cons.prems(3) by (simp add: w1_def)
  note Cons.IH [OF _ rd2(2) this, of "ms[i := (if ?j then snd (msgs ! i) else fst (msgs ! i))]"]
  ultimately show ?case using Cons.prems(1,3) by (auto simp: w1_def)
qed simp

section \<open>A complete run\<close>

text \<open>The two environments agree on the libraries; all keys are proper, and no key of the receiver is the sender's point.\<close>

definition ot_run_ok :: "ot_env \<Rightarrow> ot_env \<Rightarrow> nat \<Rightarrow> bool" where
  "ot_run_ok es er n \<longleftrightarrow> ot_env_ok es \<and> ot_env_ok er \<and> ot_curve er = ot_curve es \<and> ot_hash er = ot_hash es \<and>
     valid_draw es 0 \<and> valid_draw es 1 \<and> (\<forall>i<n. valid_draw er i \<and> point_of er i \<noteq> point_of es 0)"

lemma fold_update_map:
  assumes "length ms = n"
  shows "fold (\<lambda>i ms. ms[i := f i]) [0..<n] ms = map f [0..<n]"
proof (rule nth_equalityI)
  show len: "length (fold (\<lambda>i ms. ms[i := f i]) [0..<n] ms) = length (map f [0..<n])"
    using fold_invariant [of "[0..<n]" "\<lambda>ms. length ms = n" "\<lambda>i ms. ms[i := f i]" ms] assms by simp
  fix k assume "k < length (fold (\<lambda>i ms. ms[i := f i]) [0..<n] ms)"
  then show "fold (\<lambda>i ms. ms[i := f i]) [0..<n] ms ! k = map f [0..<n] ! k"
    using len assms nth_fold_update_upt [of n ms k "\<lambda>i _. f i"] by simp
qed

lemma naor_pinkas_run:
  assumes ok: "ot_run_ok es er (length msgs)" and lens: "length msgLens = length msgs" "length msgs = length choices * 8"
    and msgs: "\<And>i. i < length msgs \<Longrightarrow> length (fst (msgs ! i)) = msgLens ! i \<and> length (snd (msgs ! i)) = msgLens ! i"
    and budgets: "2 * length msgs + 2 \<le> budget w" "length msgs \<le> budget v"
  shows "\<exists>s t. \<forall>rs rr rest rest'. concat rs = t @ rest \<and> concat rr = s @ rest' \<longrightarrow>
    (\<exists>rs' w' rr' v'.
      Send_naorPinkas es msgLens msgs rs w = Inr (rs', w') \<and> concat rs' = rest \<and> wrote w' = wrote w @ s \<and>
      budget w' + 2 * length msgs + 2 = budget w \<and>
      Receive_naorPinkas er msgLens choices (replicate (length msgs) []) rr v =
        Inr (map (\<lambda>i. if choice_bit choices i then snd (msgs ! i) else fst (msgs ! i)) [0..<length msgs], rr', v') \<and>
      concat rr' = rest' \<and> wrote v' = wrote v @ t \<and> budget v' + length msgs = budget v)"
proof -
  let ?c = "ot_curve es" and ?h = "ot_hash es" and ?n = "length msgs"
  let ?A = "point_of es 0" and ?R = "point_of es 1" and ?r = "secret_of es 1"
  have same: "ot_curve er = ?c" "ot_hash er = ?h" and env: "ot_env_ok es" "ot_env_ok er"
    and draws: "valid_draw es 0" "valid_draw es 1" "\<And>i. i < ?n \<Longrightarrow> valid_draw er i \<and> point_of er i \<noteq> ?A"
    using ok by (simp_all add: ot_run_ok_def)
  have c: "curve_ok ?c" using env by (simp add: ot_env_ok_def)
  have A: "on_curve ?c ?A" and R: "on_curve ?c ?R" "?R = ScalarMult ?c (base_point ?c) ?r"
    by (fact valid_drawD(1) [OF draws(1)] valid_drawD(1) [OF draws(2)] valid_drawD(2) [OF draws(2)])+
  define K where "K i = material ?c (choice_bit choices i) ?A (point_of er i)" for i
  have K: "on_curve ?c (K i)" if "i < ?n" for i
  proof -
    have "on_curve ?c (point_of er i)" using valid_drawD(1) [of er i] draws(3) [OF that] same by simp
    then show ?thesis
      using draws(3) [OF that] on_curve_Sub [OF c on_curve_point [OF A] on_curve_point, of "point_of er i"]
      by (auto simp: K_def material_def)
  qed
  define t where "t = concat (map (\<lambda>i. Marshal ?c (K i)) [0..<?n])"
  define s where "s = concat (map (\<lambda>i. ciphertexts ?h ?c ?r ?A (K i) (msgs ! i)) [0..<?n])"
  have sender: "\<exists>rs' w'. Send_naorPinkas es msgLens msgs rs w = Inr (rs', w') \<and> concat rs' = rest \<and>
      wrote w' = wrote w @ Marshal ?c ?A @ Marshal ?c ?R @ s \<and> budget w' + 2 * ?n + 2 = budget w"
    if rs: "concat rs = t @ rest" for rs rest
  proof -
    let ?w = "\<lparr>wrote = wrote w @ Marshal ?c ?A @ Marshal ?c ?R, budget = budget w - 2\<rparr>"
    have b: "2 * length [0..<?n] \<le> budget ?w" using budgets(1) by simp
    obtain rs' w' where "fold_res (naor_send_step es ?r (ScalarMult ?c ?A ?r) msgs) [0..<?n] (rs, ?w) = Inr (rs', w')"
        "concat rs' = rest" "wrote w' = wrote ?w @ s" "budget w' + 2 * length [0..<?n] = budget ?w"
      using naor_send_loop [OF env(1) _ rs [unfolded t_def] b, of ?r ?A msgs] K unfolding s_def by auto
    with lens(1) budgets(1) draws(1,2) show ?thesis
      by (auto simp: Send_naorPinkas_def GenerateKey_valid Write_point_def write_conn_ok numeral_2_eq_2)
  qed
  have receiver: "\<exists>rr' v'. Receive_naorPinkas er msgLens choices (replicate ?n []) rr v =
        Inr (map (\<lambda>i. if choice_bit choices i then snd (msgs ! i) else fst (msgs ! i)) [0..<?n], rr', v') \<and>
      concat rr' = rest \<and> wrote v' = wrote v @ t \<and> budget v' + ?n = budget v"
    if rr: "concat rr = (Marshal ?c ?A @ Marshal ?c ?R @ s) @ rest" for rr rest
  proof -
    obtain r1 where r1: "Read_point ?c rr = Inr (?A, r1)" "concat r1 = Marshal ?c ?R @ s @ rest"
      using Read_point_Marshal [OF c A, of rr "Marshal ?c ?R @ s @ rest"] rr by auto
    obtain r2 where r2: "Read_point ?c r1 = Inr (?R, r2)" "concat r2 = s @ rest"
      using Read_point_Marshal [OF c R(1) r1(2)] by blast
    have i: "valid_draw er i \<and> i div 8 < length choices \<and> length (fst (msgs ! i)) = msgLens ! i \<and>
        length (snd (msgs ! i)) = msgLens ! i \<and> K i = material (ot_curve er) (choice_bit choices i) ?A (point_of er i)"
      if "i \<in> set [0..<?n]" for i
      using that draws(3) [of i] msgs [of i] lens(2) same by (simp add: K_def)
    have AR: "is_point (ot_curve er) ?A" "?R = ScalarMult (ot_curve er) (base_point (ot_curve er)) ?r"
      using A R(2) on_curve_point same by simp_all
    have "length [0..<?n] \<le> budget v" using budgets(2) by simp
    from naor_receive_loop [OF env(2) i AR _ this, of r2 rest "replicate ?n []"] r2(2)
    obtain rd' v' where "fold_res (naor_receive_step er msgLens choices ?A ?R) [0..<?n] (replicate ?n [], r2, v) =
        Inr (map (\<lambda>i. if choice_bit choices i then snd (msgs ! i) else fst (msgs ! i)) [0..<?n], rd', v')"
        "concat rd' = rest" "budget v' + ?n = budget v" "wrote v' = wrote v @ t"
      unfolding s_def t_def same fold_update_map [OF length_replicate] by auto
    with r1 r2 lens show ?thesis by (simp add: Receive_naorPinkas_def same)
  qed
  show ?thesis using sender receiver
    by (intro exI [of _ "Marshal ?c ?A @ Marshal ?c ?R @ s"] exI [of _ t]) blast
qed

section \<open>Properties\<close>

text \<open>
  Property C7. The Naor-Pinkas oblivious transfer is correct: there are byte streams \<open>s\<close> and \<open>t\<close>
  such that a sender that receives \<open>t\<close> writes \<open>s\<close> and a receiver that receives \<open>s\<close> writes \<open>t\<close>, both
  end without error in whatever pieces the bytes arrive, and the receiver gets of each pair of
  messages the one that its choice bit selects. Bytes that follow are left in the stream.
\<close>
theorem naor_pinkas_correct:
  assumes "ot_run_ok es er (length msgs)" and "length msgLens = length msgs" and "length msgs = length choices * 8"
    and "\<forall>i<length msgs. length (fst (msgs ! i)) = msgLens ! i \<and> length (snd (msgs ! i)) = msgLens ! i"
    and "2 * length msgs + 2 \<le> budget w" and "length msgs \<le> budget v"
  shows "\<exists>s t. \<forall>rs rr rest rest'. concat rs = t @ rest \<and> concat rr = s @ rest' \<longrightarrow>
    (\<exists>rs' w' rr' v'.
      Send_naorPinkas es msgLens msgs rs w = Inr (rs', w') \<and> concat rs' = rest \<and> wrote w' = wrote w @ s \<and>
      Receive_naorPinkas er msgLens choices (replicate (length msgs) []) rr v =
        Inr (map (\<lambda>i. if choice_bit choices i then snd (msgs ! i) else fst (msgs ! i)) [0..<length msgs], rr', v') \<and>
      concat rr' = rest' \<and> wrote v' = wrote v @ t)"
  using naor_pinkas_run [OF assms(1-3) _ assms(5,6)] assms(4) by blast

text \<open>The additive group of the integers modulo 101 in place of the curve, and a simple stream in place of Blake3.\<close>

definition toy_curve :: curve where
  "toy_curve = \<lparr>MarshalCompressed = (\<lambda>x y. [word_of_int y]), UnmarshalCompressed = (\<lambda>bs. Some (0, uint (hd bs))),
     curve_Add = (\<lambda>x1 y1 x2 y2. (0, (y1 + y2) mod 101)), curve_ScalarMult = (\<lambda>x y k. (0, y * uint (hd k) mod 101)),
     IsOnCurve = (\<lambda>x y. x = 0 \<and> 0 < y \<and> y < 101), params_P = 101, params_Gx = 0, params_Gy = 1\<rparr>"

definition toy_blake3 :: blake3 where
  "toy_blake3 = \<lparr>XOF = (\<lambda>bs n. replicate n (fold (+) bs 1)), Sum256 = (\<lambda>bs. bs)\<rparr>"

definition toy_ot :: "byte \<Rightarrow> byte \<Rightarrow> ot_env" where
  "toy_ot k0 k1 = \<lparr>ot_curve = toy_curve, ot_hash = toy_blake3, ot_nworkers = 1, ot_ord = (\<lambda>_. [0]),
     draw = (\<lambda>i. let k = (if i = 0 then k0 else k1) in Inr ([k], 0, uint k))\<rparr>"

lemma toy_point: "is_point toy_curve p \<longleftrightarrow> px p = 0 \<and> 0 \<le> py p \<and> py p < 101"
  by (cases p) (auto simp: is_point_def toy_curve_def NewPoint_def)

lemma toy_curve_ok: "curve_ok toy_curve"
proof -
  have add: "Add toy_curve p q = \<lparr>px = 0, py = (py p + py q) mod 101\<rparr>" for p q by (simp add: Add_def toy_curve_def)
  have mult: "ScalarMult toy_curve p k = \<lparr>px = 0, py = py p * uint (hd k) mod 101\<rparr>" for p k
    by (simp add: ScalarMult_def toy_curve_def)
  have neg: "Neg toy_curve p = \<lparr>px = px p, py = (- py p) mod 101\<rparr>" for p by (simp add: Neg_def toy_curve_def)
  have small: "IsOnCurve toy_curve x y \<Longrightarrow> UnmarshalCompressed toy_curve (MarshalCompressed toy_curve x y) = Some (x, y) \<and>
      length (MarshalCompressed toy_curve x y) = encodeLen toy_curve" for x y
    by (auto simp: toy_curve_def encodeLen_def uint_word_of_int)
  show ?thesis unfolding curve_ok_def toy_point add mult neg
    using small by (auto simp: toy_curve_def NewPoint_def mod_simps algebra_simps)
qed

lemma toy_draws:
  assumes "0 < uint (if i = 0 then k0 else k1)" and "uint (if i = 0 then k0 else k1) < 101"
  shows "valid_draw (toy_ot k0 k1) i" and "point_of (toy_ot k0 k1) i = \<lparr>px = 0, py = uint (if i = 0 then k0 else k1)\<rparr>"
  using assms by (auto simp: valid_draw_def point_of_def secret_of_def base_point_def toy_ot_def toy_curve_def
      on_curve_def ScalarMult_def Let_def split: if_splits)

lemma toy_run_ok: "ot_run_ok (toy_ot 5 7) (toy_ot 9 11) n"
proof -
  have "ot_env_ok (toy_ot k0 k1)" for k0 k1
    using toy_curve_ok by (simp add: ot_env_ok_def toy_ot_def toy_blake3_def blake3_ok_def pool_ok_def)
  moreover have "valid_draw (toy_ot 9 11) i \<and> point_of (toy_ot 9 11) i \<noteq> point_of (toy_ot 5 7) 0" for i
    using toy_draws [of i 9 11] toy_draws [of 0 5 7] by (cases "i = 0") simp_all
  moreover have "valid_draw (toy_ot 5 7) 0" "valid_draw (toy_ot 5 7) 1" using toy_draws [of _ 5 7] by simp_all
  ultimately show ?thesis by (simp add: ot_run_ok_def) (simp add: toy_ot_def)
qed

theorem naor_pinkas_correct_witness:
  "\<exists>s t. \<forall>rs rr rest rest'. concat rs = t @ rest \<and> concat rr = s @ rest' \<longrightarrow>
    (\<exists>rs' w' rr' v'.
      Send_naorPinkas (toy_ot 5 7) (replicate 8 1) (replicate 8 ([1], [2])) rs \<lparr>wrote = [], budget = 18\<rparr> = Inr (rs', w') \<and>
      concat rs' = rest \<and> wrote w' = s \<and>
      Receive_naorPinkas (toy_ot 9 11) (replicate 8 1) [10] (replicate 8 []) rr \<lparr>wrote = [], budget = 8\<rparr> =
        Inr ([[1], [2], [1], [2], [1], [1], [1], [1]], rr', v') \<and> concat rr' = rest' \<and> wrote v' = t)"
proof -
  let ?m = "replicate 8 ([1 :: byte], [2 :: byte])"
  have l: "length (replicate 8 (1 :: nat)) = length ?m" "length ?m = length [10 :: byte] * 8"
    "2 * length ?m + 2 \<le> budget \<lparr>wrote = [], budget = 18\<rparr>" "length ?m \<le> budget \<lparr>wrote = [], budget = 8\<rparr>"
    by simp_all
  have m: "\<forall>i<length ?m. length (fst (?m ! i)) = replicate 8 1 ! i \<and> length (snd (?m ! i)) = replicate 8 1 ! i"
    by simp
  have chosen: "map (\<lambda>i. if choice_bit [10] i then snd (?m ! i) else fst (?m ! i)) [0..<length ?m] =
      [[1], [2], [1], [2], [1], [1], [1], [1]]"
    by (simp add: upt_rec choice_bit_def)
  have n: "replicate (length ?m) ([] :: bytes) = replicate 8 []" by simp
  show ?thesis using naor_pinkas_correct [OF toy_run_ok l(1,2) m l(3,4)]
    unfolding chosen n by (simp only: io_writer.simps append_Nil)
qed

end
