(* ===== verification/Hash.thy ===== *)
theory Hash
  imports Bits
begin

text \<open>
  The salted hashers of \<open>internal/hash/hash.go\<close>. The hash functions themselves,
  \<open>metro.Hash64\<close> and \<open>murmur3.Sum64\<close>, are third-party code and parameters of the model.
\<close>

unbundle bit_operations_syntax

record hash_lib =
  metro_Hash64 :: "bytes \<Rightarrow> u64 \<Rightarrow> u64"
  murmur3_Sum64 :: "bytes \<Rightarrow> u64"

abbreviation SaltLength :: nat where
  "SaltLength \<equiv> 32"

text \<open>The implementations of the interface Hasher.\<close>

datatype Hasher = Murmur64 (salt: bytes) | Metro64 (seed: u64)

definition NewMurmur3Hasher :: "bytes \<Rightarrow> Hasher result" where
  "NewMurmur3Hasher s = (if length s \<noteq> SaltLength then Inl ErrSaltLengthMismatch else Inr (Murmur64 s))"

definition NewMetroHasher :: "bytes \<Rightarrow> Hasher result" where
  "NewMetroHasher s =
     (if length s \<noteq> SaltLength then Inl ErrSaltLengthMismatch
      else let seed0 = take 8 s in
        bind_res (go_slice s 8 16) (\<lambda>a. bind_res (Xor seed0 a) (\<lambda>seed1.
        bind_res (go_slice s 16 24) (\<lambda>b. bind_res (Xor seed1 b) (\<lambda>seed2.
        bind_res (go_slice s 24 (length s)) (\<lambda>c. bind_res (Xor seed2 c) (\<lambda>seed3.
        Inr (Metro64 (le_get64 seed3)))))))))"

fun Hash64 :: "hash_lib \<Rightarrow> Hasher \<Rightarrow> bytes \<Rightarrow> u64" where
  "Hash64 H (Murmur64 s) p = murmur3_Sum64 H (s @ p)"
| "Hash64 H (Metro64 s) p = metro_Hash64 H p s"

text \<open>The seed of a metro hasher is the exclusive or of the four words of the salt.\<close>

lemma le_get64_xor:
  assumes "length a = 8" and "length b = 8"
  shows "le_get64 (map2 (XOR) a b) = le_get64 a XOR le_get64 b"
proof (rule bit_eqI)
  fix n assume "possible_bit TYPE(u64) n"
  then have "n < 64" by (simp add: possible_bit_word)
  then have "n div 8 < 8" by simp
  with \<open>n < 64\<close> assms show "bit (le_get64 (map2 (XOR) a b)) n = bit (le_get64 a XOR le_get64 b) n"
    by (simp add: bit_le_get64 bit_xor_iff)
qed

lemma NewMetroHasher_eq:
  "NewMetroHasher s =
     (if length s = 32
      then Inr (Metro64 (((le_get64 (sub_list s 0 8) XOR le_get64 (sub_list s 8 8)) XOR le_get64 (sub_list s 16 8))
                           XOR le_get64 (sub_list s 24 8)))
      else Inl ErrSaltLengthMismatch)"
proof (cases "length s = 32")
  case True
  then show ?thesis
    by (simp add: NewMetroHasher_def go_slice_sub_list Xor_eq le_get64_xor) (simp add: sub_list_def le_get64_xor)
qed (simp add: NewMetroHasher_def)

text \<open>
  NewMetroHasher rejects every salt that is not 32 bytes long and otherwise condenses
  all four words of the salt into the seed.
\<close>
theorem metro_seed:
  "NewMetroHasher s =
     (if length s = 32
      then Inr (Metro64 (((le_get64 (sub_list s 0 8) XOR le_get64 (sub_list s 8 8)) XOR le_get64 (sub_list s 16 8))
                           XOR le_get64 (sub_list s 24 8)))
      else Inl ErrSaltLengthMismatch)"
  by (rule NewMetroHasher_eq)

end
