(* ===== verification/Cuckoo.thy ===== *)
theory Cuckoo
  imports Hash
begin

text \<open>
  The 3-way cuckoo hash table of \<open>internal/cuckoo/cuckoo.go\<close>. Indices and sizes (uint64 in the
  code) are natural numbers; a nil item is the empty byte slice, which \<open>bytes.Equal\<close> does not
  tell apart. The random choice of the slot to evict in iteration \<open>i\<close> is \<open>rnd i\<close>. An operation
  that returns an error has changed the table nevertheless, so the error is returned beside the new
  table; panics are the left side of the result type.
\<close>

section \<open>Floating point size\<close>

text \<open>
  \<open>Factor*float64(size)\<close> is computed in IEEE double precision: a natural number (here, a multiple
  of \<open>2^-52\<close>) is rounded to 53 significant bits, ties to even. The constant 1.4 is the double
  \<open>6305039478318694 / 2^52\<close>.
\<close>

fun bit_len :: "nat \<Rightarrow> nat" where
  "bit_len n = (if n = 0 then 0 else Suc (bit_len (n div 2)))"

declare bit_len.simps [simp del]

definition round53 :: "nat \<Rightarrow> nat" where
  "round53 n =
     (let s = bit_len n - 53; q = n div 2 ^ s; r = n mod 2 ^ s in
      if s = 0 then n
      else if 2 * r > 2 ^ s \<or> 2 * r = 2 ^ s \<and> odd q then (q + 1) * 2 ^ s
      else q * 2 ^ s)"

definition factor_mul :: "nat \<Rightarrow> nat" where
  "factor_mul sz = round53 (round53 sz * 6305039478318694) div 2 ^ 52"

section \<open>The hasher\<close>

abbreviation Nhash :: nat where
  "Nhash \<equiv> 3"

abbreviation ReInsertLimit :: nat where
  "ReInsertLimit \<equiv> 200"

record CuckooHasher =
  bucketSize :: nat
  hashers :: "Hasher list"

definition NewCuckooHasher :: "nat \<Rightarrow> bytes list \<Rightarrow> CuckooHasher result" where
  "NewCuckooHasher sz seeds =
     bind_res (fold_res (\<lambda>s hs. case NewMetroHasher s of Inl err \<Rightarrow> Inl (PanicValue err) | Inr h \<Rightarrow> Inr (hs @ [h])) seeds []) (\<lambda>hs.
       Inr \<lparr>bucketSize = max 1 (factor_mul sz), hashers = hs\<rparr>)"

definition GetHasher :: "CuckooHasher \<Rightarrow> Hasher" where
  "GetHasher h = hashers h ! 0"

definition BucketIndices :: "hash_lib \<Rightarrow> CuckooHasher \<Rightarrow> bytes \<Rightarrow> nat list result" where
  "BucketIndices H h item =
     (if bucketSize h = 0 then Inl DivideByZero
      else Inr (map (\<lambda>hs. unat (Hash64 H hs item) mod bucketSize h) (hashers h)))"

section \<open>The table\<close>

record Cuckoo =
  items :: "bytes list"
  inserted :: nat
  hashIndices :: "nat list"
  bucketLookup :: "nat list"
  cHasher :: CuckooHasher

text \<open>\<open>rb\<close> is the outcome of reading the seed of math/rand from crypto/rand.\<close>

definition NewCuckoo :: "bytes result \<Rightarrow> nat \<Rightarrow> bytes list \<Rightarrow> Cuckoo result" where
  "NewCuckoo rb sz seeds =
     bind_res (NewCuckooHasher sz seeds) (\<lambda>h.
     bind_res rb (\<lambda>_.
       Inr \<lparr>items = replicate (sz + 1) [], inserted = 0, hashIndices = replicate (sz + 1) 0,
            bucketLookup = replicate (bucketSize h) 0, cHasher = h\<rparr>))"

definition GetBucket :: "Cuckoo \<Rightarrow> nat \<Rightarrow> nat result" where
  "GetBucket c bIdx = (if bIdx > bucketSize (cHasher c) then Inl BadBucket else go_nth (bucketLookup c) bIdx)"

definition GetItemWithHash :: "Cuckoo \<Rightarrow> nat \<Rightarrow> (bytes \<times> nat) result" where
  "GetItemWithHash c idx =
     (if idx > length (items c) - 1 then Inl BadItem
      else bind_res (go_nth (items c) idx) (\<lambda>item. bind_res (go_nth (hashIndices c) idx) (\<lambda>h. Inr (item, h))))"

fun exists_loop :: "Cuckoo \<Rightarrow> bytes \<Rightarrow> nat \<Rightarrow> nat list \<Rightarrow> (bool \<times> nat) result" where
  "exists_loop c item hIdx [] = Inr (False, 0)"
| "exists_loop c item hIdx (bIdx # bs) =
     bind_res (go_nth (bucketLookup c) bIdx) (\<lambda>i.
     bind_res (go_nth (items c) i) (\<lambda>x.
       if x = item then Inr (True, hIdx) else exists_loop c item (Suc hIdx) bs))"

definition Exists :: "hash_lib \<Rightarrow> Cuckoo \<Rightarrow> bytes \<Rightarrow> (bool \<times> nat) result" where
  "Exists H c item = bind_res (BucketIndices H (cHasher c) item) (exists_loop c item 0)"

definition isEmpty :: "Cuckoo \<Rightarrow> nat \<Rightarrow> bool result" where
  "isEmpty c bidx = bind_res (go_nth (bucketLookup c) bidx) (\<lambda>i. Inr (i = 0))"

fun tryAdd_loop :: "nat \<Rightarrow> bool \<Rightarrow> nat \<Rightarrow> nat \<Rightarrow> nat list \<Rightarrow> Cuckoo \<Rightarrow> (bool \<times> Cuckoo) result" where
  "tryAdd_loop idx ign exceptBIdx hIdx [] c = Inr (False, c)"
| "tryAdd_loop idx ign exceptBIdx hIdx (bIdx # bs) c =
     (if ign \<and> exceptBIdx = bIdx then tryAdd_loop idx ign exceptBIdx (Suc hIdx) bs c
      else bind_res (isEmpty c bIdx) (\<lambda>e.
        if e
        then bind_res (go_set (bucketLookup c) bIdx idx) (\<lambda>bl.
             bind_res (go_set (hashIndices c) idx hIdx) (\<lambda>hi.
               Inr (True, c\<lparr>bucketLookup := bl, hashIndices := hi\<rparr>)))
        else tryAdd_loop idx ign exceptBIdx (Suc hIdx) bs c))"

definition tryAdd :: "nat \<Rightarrow> nat list \<Rightarrow> bool \<Rightarrow> nat \<Rightarrow> Cuckoo \<Rightarrow> (bool \<times> Cuckoo) result" where
  "tryAdd idx bucketIndices ign exceptBIdx c = tryAdd_loop idx ign exceptBIdx 0 bucketIndices c"

text \<open>The body of the eviction loop runs for \<open>i = 1, ..., ReInsertLimit - 1\<close>; \<open>n\<close> iterations are left.\<close>

fun tryGreedyAdd_loop ::
  "hash_lib \<Rightarrow> (nat \<Rightarrow> nat) \<Rightarrow> nat \<Rightarrow> nat \<Rightarrow> nat list \<Rightarrow> Cuckoo \<Rightarrow> (nat \<times> bool \<times> Cuckoo) result" where
  "tryGreedyAdd_loop H rnd 0 idx bucketIndices c = Inr (idx, False, c)"
| "tryGreedyAdd_loop H rnd (Suc n) idx bucketIndices c =
     (let evictedHIdx = rnd (ReInsertLimit - Suc n) mod Nhash in
      bind_res (go_nth bucketIndices evictedHIdx) (\<lambda>evictedBIdx.
      bind_res (go_nth (bucketLookup c) evictedBIdx) (\<lambda>evictedIdx.
      bind_res (go_set (bucketLookup c) evictedBIdx idx) (\<lambda>bl.
      bind_res (go_set (hashIndices c) idx evictedHIdx) (\<lambda>hi.
      let c = c\<lparr>bucketLookup := bl, hashIndices := hi\<rparr> in
      bind_res (go_nth (items c) evictedIdx) (\<lambda>evicted.
      bind_res (BucketIndices H (cHasher c) evicted) (\<lambda>evictedBucketIndices.
      bind_res (tryAdd evictedIdx evictedBucketIndices True evictedBIdx c) (\<lambda>(added, c).
        if added then Inr (0, True, c)
        else tryGreedyAdd_loop H rnd n evictedIdx evictedBucketIndices c))))))))"

definition tryGreedyAdd ::
  "hash_lib \<Rightarrow> (nat \<Rightarrow> nat) \<Rightarrow> nat \<Rightarrow> nat list \<Rightarrow> Cuckoo \<Rightarrow> (nat \<times> bool \<times> Cuckoo) result" where
  "tryGreedyAdd H rnd idx bucketIndices c = tryGreedyAdd_loop H rnd (ReInsertLimit - 1) idx bucketIndices c"

definition Insert :: "hash_lib \<Rightarrow> (nat \<Rightarrow> nat) \<Rightarrow> bytes \<Rightarrow> Cuckoo \<Rightarrow> (error option \<times> Cuckoo) result" where
  "Insert H rnd item c =
     (if inserted c = length (items c) then Inr (Some ErrCuckooFull, c)
      else
        bind_res (go_set (items c) (inserted c + 1) item) (\<lambda>is.
        let c = c\<lparr>items := is\<rparr> in
        bind_res (BucketIndices H (cHasher c) item) (\<lambda>bucketIndices.
        bind_res (Exists H c item) (\<lambda>(found, _).
          if found then Inr (None, c)
          else bind_res (tryAdd (inserted c + 1) bucketIndices False 0 c) (\<lambda>(added, c).
            if added then Inr (None, c\<lparr>inserted := inserted c + 1\<rparr>)
            else bind_res (tryGreedyAdd H rnd (inserted c + 1) bucketIndices c) (\<lambda>(homelessIdx, added, c).
              if added then Inr (None, c\<lparr>inserted := inserted c + 1\<rparr>)
              else Inr (Some (ErrCuckooHomeless homelessIdx), c)))))))"

text \<open>LoadFactor divides \<open>occupation\<close> by the bucket size.\<close>

definition occupation :: "Cuckoo \<Rightarrow> nat" where
  "occupation c = fold (\<lambda>v n. if v \<noteq> 0 then n + 1 else n) (bucketLookup c) 0"

definition Len :: "Cuckoo \<Rightarrow> nat" where
  "Len c = bucketSize (cHasher c)"

section \<open>Invariant\<close>

definition indices_of :: "hash_lib \<Rightarrow> Cuckoo \<Rightarrow> bytes \<Rightarrow> nat list" where
  "indices_of H c item = map (\<lambda>hs. unat (Hash64 H hs item) mod bucketSize (cHasher c)) (hashers (cHasher c))"

definition table_ok :: "Cuckoo \<Rightarrow> bool" where
  "table_ok c \<longleftrightarrow> 0 < bucketSize (cHasher c) \<and> length (hashers (cHasher c)) = Nhash \<and>
     length (bucketLookup c) = bucketSize (cHasher c) \<and> length (hashIndices c) = length (items c) \<and> items c \<noteq> []"

text \<open>Item \<open>idx\<close> sits in bucket \<open>b\<close> when its hash index says so.\<close>

definition homed :: "hash_lib \<Rightarrow> Cuckoo \<Rightarrow> nat \<Rightarrow> nat \<Rightarrow> bool" where
  "homed H c b idx \<longleftrightarrow> hashIndices c ! idx < Nhash \<and> indices_of H c (items c ! idx) ! (hashIndices c ! idx) = b"

text \<open>The buckets hold exactly the items of the index set \<open>P\<close>, each where it belongs.\<close>

definition placed :: "hash_lib \<Rightarrow> Cuckoo \<Rightarrow> nat set \<Rightarrow> bool" where
  "placed H c P \<longleftrightarrow> P \<subseteq> {1..<length (items c)} \<and>
     (\<forall>b<bucketSize (cHasher c). bucketLookup c ! b \<noteq> 0 \<longrightarrow>
        bucketLookup c ! b \<in> P \<and> homed H c b (bucketLookup c ! b)) \<and>
     (\<forall>i\<in>P. \<exists>b<bucketSize (cHasher c). bucketLookup c ! b = i)"

definition cuckoo_inv :: "hash_lib \<Rightarrow> Cuckoo \<Rightarrow> bool" where
  "cuckoo_inv H c \<longleftrightarrow> table_ok c \<and> inserted c < length (items c) \<and> placed H c {1..inserted c} \<and>
     items c ! 0 = [] \<and> inj_on (\<lambda>i. items c ! i) {1..inserted c}"

text \<open>The identifiers in the table.\<close>

definition contents :: "Cuckoo \<Rightarrow> bytes set" where
  "contents c = (\<lambda>i. items c ! i) ` {1..inserted c}"

definition frame :: "Cuckoo \<Rightarrow> Cuckoo \<Rightarrow> bool" where
  "frame c c' \<longleftrightarrow> items c' = items c \<and> inserted c' = inserted c \<and> cHasher c' = cHasher c"

lemma frame_refl [simp]: "frame c c"
  by (simp add: frame_def)

lemma frame_trans: "frame a b \<Longrightarrow> frame b c \<Longrightarrow> frame a c"
  by (simp add: frame_def)

lemma BucketIndices_eq [simp]: "table_ok c \<Longrightarrow> BucketIndices H (cHasher c) item = Inr (indices_of H c item)"
  by (simp add: BucketIndices_def table_ok_def indices_of_def)

lemma length_indices_of [simp]: "table_ok c \<Longrightarrow> length (indices_of H c item) = Nhash"
  by (simp add: indices_of_def table_ok_def)

lemma indices_of_less:
  assumes "table_ok c" and "b \<in> set (indices_of H c item)"
  shows "b < bucketSize (cHasher c)" and "b < length (bucketLookup c)"
  using assms by (auto simp: indices_of_def table_ok_def)

lemma indices_of_nth_less: "table_ok c \<Longrightarrow> h < Nhash \<Longrightarrow> indices_of H c item ! h < bucketSize (cHasher c)"
  by (simp add: indices_of_def table_ok_def)

lemma indices_of_cong [simp]:
  "indices_of H (c\<lparr>bucketLookup := bl, hashIndices := hi\<rparr>) = indices_of H c"
  "indices_of H (c\<lparr>inserted := n\<rparr>) = indices_of H c"
  "indices_of H (c\<lparr>items := its\<rparr>) = indices_of H c"
  by (simp_all add: indices_of_def fun_eq_iff)

lemma indices_of_frame: "frame c c' \<Longrightarrow> indices_of H c' = indices_of H c"
  by (simp add: frame_def indices_of_def fun_eq_iff)

lemma placedD:
  assumes "placed H c P"
  shows "b < bucketSize (cHasher c) \<Longrightarrow> bucketLookup c ! b \<noteq> 0 \<Longrightarrow> bucketLookup c ! b \<in> P"
    and "b < bucketSize (cHasher c) \<Longrightarrow> bucketLookup c ! b \<noteq> 0 \<Longrightarrow> homed H c b (bucketLookup c ! b)"
    and "i \<in> P \<Longrightarrow> \<exists>b<bucketSize (cHasher c). bucketLookup c ! b = i"
    and "i \<in> P \<Longrightarrow> 0 < i" and "i \<in> P \<Longrightarrow> i < length (items c)"
  using assms unfolding placed_def by (blast, blast, blast, auto)

text \<open>
  Writing index \<open>idx\<close> into one of its buckets, whether free or occupied by \<open>v\<close>, exchanges
  \<open>v\<close> for \<open>idx\<close> among the placed items.
\<close>

definition put :: "nat \<Rightarrow> nat \<Rightarrow> nat \<Rightarrow> Cuckoo \<Rightarrow> Cuckoo" where
  "put b idx h c = c\<lparr>bucketLookup := (bucketLookup c)[b := idx], hashIndices := (hashIndices c)[idx := h]\<rparr>"

lemma put_simps [simp]:
  "frame c (put b idx h c)" "table_ok (put b idx h c) \<longleftrightarrow> table_ok c"
  "bucketLookup (put b idx h c) = (bucketLookup c)[b := idx]"
  by (simp_all add: put_def frame_def table_ok_def)

lemma placed_put:
  assumes ok: "table_ok c" and p: "placed H c P" and idx: "idx \<notin> P" "0 < idx" "idx < length (items c)"
    and h: "h < Nhash" "indices_of H c (items c ! idx) ! h = b"
  shows "placed H (put b idx h c) (insert idx (P - {bucketLookup c ! b}))"
proof -
  let ?L = "bucketLookup c" and ?B = "bucketSize (cHasher c)" and ?c = "put b idx h c"
  have b: "b < ?B" "b < length ?L" using indices_of_nth_less [OF ok h(1)] h(2) ok by (auto simp: table_ok_def)
  have len: "length ?L = ?B" "idx < length (hashIndices c)" using ok idx by (auto simp: table_ok_def)
  have homed': "homed H ?c b' i \<longleftrightarrow> homed H c b' i" if "i \<noteq> idx" for b' i
    using that by (simp add: homed_def put_def)
  have at: "?L ! b' \<in> insert idx (P - {?L ! b}) \<and> homed H ?c b' (?L ! b')" if "b' < ?B" "b' \<noteq> b" "?L ! b' \<noteq> 0" for b'
  proof -
    have "?L ! b' \<in> P" and hb: "homed H c b' (?L ! b')" using p that by (auto simp: placed_def)
    moreover have "?L ! b' \<noteq> ?L ! b"
    proof
      assume eq: "?L ! b' = ?L ! b"
      with that(3) p b have "homed H c b (?L ! b')" by (auto simp: placed_def)
      with hb that(2) show False by (simp add: homed_def)
    qed
    moreover from calculation have "?L ! b' \<noteq> idx" using idx(1) by metis
    ultimately show ?thesis using homed' by simp
  qed
  have "homed H ?c b idx" using h len by (simp add: homed_def put_def)
  with at b len have "?L[b := idx] ! b' \<in> insert idx (P - {?L ! b}) \<and> homed H ?c b' (?L[b := idx] ! b')"
    if "b' < ?B" "?L[b := idx] ! b' \<noteq> 0" for b'
    using that by (cases "b' = b") auto
  moreover have "\<exists>b'<?B. ?L[b := idx] ! b' = i" if "i \<in> insert idx (P - {?L ! b})" for i
  proof (cases "i = idx")
    case True
    with b show ?thesis by (intro exI [of _ b]) simp
  next
    case False
    with that p obtain b' where "b' < ?B" "?L ! b' = i" by (auto simp: placed_def)
    with that False show ?thesis by (intro exI [of _ b']) (cases "b' = b", auto)
  qed
  moreover have "insert idx (P - {?L ! b}) \<subseteq> {1..<length (items c)}" using p idx by (auto simp: placed_def)
  ultimately show ?thesis by (simp add: placed_def put_def)
qed

section \<open>Adding\<close>

lemma tryAdd_loop_spec:
  assumes ok: "table_ok c" and p: "placed H c P" and idx: "idx \<notin> P" "0 < idx" "idx < length (items c)"
    and "bs = drop h (indices_of H c (items c ! idx))"
  shows "(\<exists>c'. tryAdd_loop idx ign ex h bs c = Inr (True, c') \<and> frame c c' \<and> table_ok c' \<and> placed H c' (insert idx P)) \<or>
    tryAdd_loop idx ign ex h bs c = Inr (False, c) \<and> (\<forall>b\<in>set bs. ign \<and> b = ex \<or> bucketLookup c ! b \<noteq> 0)"
  using assms(6)
proof (induction bs arbitrary: h)
  case (Cons b bs)
  let ?I = "indices_of H c (items c ! idx)"
  have h: "h < Nhash" "?I ! h = b" "bs = drop (Suc h) ?I"
  proof -
    have "h < length ?I" using Cons.prems by (metis drop_eq_Nil list.distinct(1) not_less)
    then show "h < Nhash" "?I ! h = b" "bs = drop (Suc h) ?I"
      using Cons.prems ok by (auto simp flip: Cons_nth_drop_Suc)
  qed
  then have b: "b < bucketSize (cHasher c)" "b < length (bucketLookup c)"
    using indices_of_nth_less [OF ok h(1), of H "items c ! idx"] ok by (auto simp: table_ok_def)
  have step: "tryAdd_loop idx ign ex h (b # bs) c =
      (if ign \<and> ex = b then tryAdd_loop idx ign ex (Suc h) bs c
       else if bucketLookup c ! b = 0 then Inr (True, put b idx h c) else tryAdd_loop idx ign ex (Suc h) bs c)"
    using b idx(3) ok by (simp add: isEmpty_def table_ok_def put_def)
  show ?case
  proof (cases "\<not> (ign \<and> ex = b) \<and> bucketLookup c ! b = 0")
    case True
    have "0 \<notin> P" using p by (auto simp: placed_def)
    then have "placed H (put b idx h c) (insert idx P)"
      using placed_put [OF ok p idx h(1,2)] True by simp
    with True step ok show ?thesis by auto
  next
    case False
    with step Cons.IH [OF h(3)] show ?thesis by auto
  qed
qed simp

lemma tryAdd_spec:
  assumes "table_ok c" and "placed H c P" and "idx \<notin> P" "0 < idx" "idx < length (items c)"
  obtains (added) c' where "tryAdd idx (indices_of H c (items c ! idx)) ign ex c = Inr (True, c')"
      "frame c c'" "table_ok c'" "placed H c' (insert idx P)"
    | (stuck) "tryAdd idx (indices_of H c (items c ! idx)) ign ex c = Inr (False, c)"
      "\<forall>b\<in>set (indices_of H c (items c ! idx)). ign \<and> b = ex \<or> bucketLookup c ! b \<noteq> 0"
  using tryAdd_loop_spec [OF assms, of _ 0 ign ex] by (auto simp: tryAdd_def)

lemma tryGreedyAdd_loop_spec:
  assumes "table_ok c" and "placed H c P" and "idx \<notin> P" "0 < idx" "idx < length (items c)"
    and "\<forall>b\<in>set (indices_of H c (items c ! idx)). bucketLookup c ! b \<noteq> 0"
  shows "\<exists>home added c'. tryGreedyAdd_loop H rnd n idx (indices_of H c (items c ! idx)) c = Inr (home, added, c') \<and>
    frame c c' \<and> table_ok c' \<and> (if added then placed H c' (insert idx P)
      else home \<in> insert idx P \<and> placed H c' (insert idx P - {home}))"
  using assms
proof (induction n arbitrary: c P idx)
  case 0
  then have "insert idx P - {idx} = P" by auto
  with 0 show ?case by (intro exI [of _ idx] exI [of _ False] exI [of _ c]) simp
next
  case (Suc n)
  note ok = Suc.prems(1) and p = Suc.prems(2) and idx = Suc.prems(3-5)
  let ?I = "indices_of H c (items c ! idx)"
  let ?h = "rnd (199 - n) mod Nhash"
  let ?b = "?I ! ?h" let ?v = "bucketLookup c ! ?b" let ?c = "put ?b idx ?h c"
  let ?P = "insert idx (P - {?v})"
  have h: "?h < Nhash" by simp
  have b: "?b < bucketSize (cHasher c)" "?b < length (bucketLookup c)" "?b \<in> set ?I"
    using indices_of_nth_less [OF ok h] ok by (auto simp: table_ok_def)
  have v: "?v \<noteq> 0" "?v \<in> P" "?v < length (items c)" "?v \<noteq> idx"
  proof -
    show "?v \<noteq> 0" using Suc.prems(6) b(3) by blast
    then show "?v \<in> P" using placedD(1) [OF p b(1)] by blast
    then show "?v < length (items c)" "?v \<noteq> idx" using placedD(5) [OF p] idx(1) by (blast, metis)
  qed
  have p1: "placed H ?c ?P" using placed_put [OF ok p idx h] by simp
  have J: "indices_of H ?c (items ?c ! ?v) = indices_of H c (items c ! ?v)" by (simp add: put_def)
  have step: "tryGreedyAdd_loop H rnd (Suc n) idx ?I c =
      bind_res (tryAdd ?v (indices_of H c (items c ! ?v)) True ?b ?c) (\<lambda>(added, c').
        if added then Inr (0, True, c') else tryGreedyAdd_loop H rnd n ?v (indices_of H c (items c ! ?v)) c')"
  proof -
    have "BucketIndices H (cHasher ?c) x = Inr (indices_of H ?c x)" for x using ok by simp
    then show ?thesis using h ok b v idx(3)
      by (simp add: table_ok_def Let_def put_def)
  qed
  have v': "?v \<notin> ?P" "0 < ?v" "?v < length (items ?c)" using v by (auto simp: put_def)
  have P: "insert ?v ?P = insert idx P" using v(2) by auto
  from ok have ok1: "table_ok ?c" by simp
  show ?case
  proof (cases rule: tryAdd_spec [OF ok1 p1 v', of True ?b, case_names added stuck])
    case (added c')
    then have "frame c c'" using frame_trans [OF put_simps(1)] by blast
    with added step [folded J] P show ?thesis by auto
  next
    case stuck
    have "\<forall>b\<in>set (indices_of H ?c (items ?c ! ?v)). bucketLookup ?c ! b \<noteq> 0"
      using stuck(2) idx(2) b(2) by auto
    from Suc.IH [OF ok1 p1 v' this] stuck(1) step [folded J] P frame_trans [OF put_simps(1) [of c ?b idx ?h]]
    show ?thesis by (simp only: bind_res_simps prod.case if_False) blast
  qed
qed

section \<open>Looking up\<close>

lemma exists_loop_spec:
  assumes "\<forall>b\<in>set bs. b < length (bucketLookup c) \<and> bucketLookup c ! b < length (items c)"
  shows "\<exists>k. exists_loop c item h bs = Inr (\<exists>b\<in>set bs. items c ! (bucketLookup c ! b) = item, k) \<and>
    ((\<exists>b\<in>set bs. items c ! (bucketLookup c ! b) = item) \<longrightarrow>
      h \<le> k \<and> k < h + length bs \<and> items c ! (bucketLookup c ! (bs ! (k - h))) = item)"
  using assms
proof (induction bs arbitrary: h)
  case (Cons b bs)
  show ?case
  proof (cases "items c ! (bucketLookup c ! b) = item")
    case True
    with Cons.prems show ?thesis by auto
  next
    case False
    from Cons obtain k where k: "exists_loop c item (Suc h) bs = Inr (\<exists>b\<in>set bs. items c ! (bucketLookup c ! b) = item, k)"
      "(\<exists>b\<in>set bs. items c ! (bucketLookup c ! b) = item) \<longrightarrow>
        Suc h \<le> k \<and> k < Suc h + length bs \<and> items c ! (bucketLookup c ! (bs ! (k - Suc h))) = item"
      by (metis (mono_tags, lifting) list.set_intros(2))
    have "Suc h \<le> k \<Longrightarrow> (b # bs) ! (k - h) = bs ! (k - Suc h)" by (simp add: Suc_diff_le flip: Suc_diff_Suc)
    with k False Cons.prems show ?thesis by (intro exI [of _ k]) auto
  qed
qed simp

lemma lookup_less:
  assumes "placed H c P" and "table_ok c" and "b < bucketSize (cHasher c)"
  shows "bucketLookup c ! b < length (items c)"
  using assms by (cases "bucketLookup c ! b = 0") (auto simp: placed_def table_ok_def)

lemma Exists_loop:
  assumes "table_ok c" and "placed H c P"
  obtains k where "Exists H c item = Inr (\<exists>b\<in>set (indices_of H c item). items c ! (bucketLookup c ! b) = item, k)"
    and "(\<exists>b\<in>set (indices_of H c item). items c ! (bucketLookup c ! b) = item) \<Longrightarrow>
      k < Nhash \<and> items c ! (bucketLookup c ! (indices_of H c item ! k)) = item"
proof -
  have "\<forall>b\<in>set (indices_of H c item). b < length (bucketLookup c) \<and> bucketLookup c ! b < length (items c)"
    using indices_of_less [OF assms(1)] lookup_less [OF assms(2,1)] by blast
  from exists_loop_spec [OF this, of item 0] assms(1) that show ?thesis by (auto simp: Exists_def)
qed

lemma placed_found:
  assumes "table_ok c" and "placed H c P" and "i \<in> P"
  shows "\<exists>b\<in>set (indices_of H c (items c ! i)). bucketLookup c ! b = i"
proof -
  obtain b where b: "b < bucketSize (cHasher c)" "bucketLookup c ! b = i" "i \<noteq> 0"
    using placedD(3,4) [OF assms(2,3)] by auto
  then have "homed H c b i" using placedD(2) [OF assms(2), of b] by simp
  then have "b \<in> set (indices_of H c (items c ! i))"
    using length_indices_of [OF assms(1)] by (metis homed_def nth_mem)
  with b show ?thesis by blast
qed

lemma found_contents:
  assumes "cuckoo_inv H c"
  shows "item \<in> contents c \<Longrightarrow> \<exists>b\<in>set (indices_of H c item). items c ! (bucketLookup c ! b) = item"
    and "item \<noteq> [] \<Longrightarrow> \<exists>b\<in>set (indices_of H c item). items c ! (bucketLookup c ! b) = item \<Longrightarrow> item \<in> contents c"
proof -
  have inv: "table_ok c" "placed H c {1..inserted c}" "items c ! 0 = []" using assms by (simp_all add: cuckoo_inv_def)
  show "\<exists>b\<in>set (indices_of H c item). items c ! (bucketLookup c ! b) = item" if "item \<in> contents c"
    using that placed_found [OF inv(1,2)] by (fastforce simp: contents_def)
  show "item \<in> contents c" if ne: "item \<noteq> []" and ex: "\<exists>b\<in>set (indices_of H c item). items c ! (bucketLookup c ! b) = item"
  proof -
    obtain b where b: "b \<in> set (indices_of H c item)" "items c ! (bucketLookup c ! b) = item" using ex by blast
    then have "bucketLookup c ! b \<noteq> 0" using ne inv(3) by metis
    with placedD(1) [OF inv(2)] indices_of_less [OF inv(1) b(1)] have "bucketLookup c ! b \<in> {1..inserted c}" by blast
    with b(2) show ?thesis unfolding contents_def by blast
  qed
qed

section \<open>Inserting\<close>

definition stage :: "bytes \<Rightarrow> Cuckoo \<Rightarrow> Cuckoo" where
  "stage item c = c\<lparr>items := (items c)[inserted c + 1 := item]\<rparr>"

lemma stage_inv:
  assumes "cuckoo_inv H c" and "inserted c + 1 < length (items c)"
  shows "cuckoo_inv H (stage item c)" and "contents (stage item c) = contents c"
    and "items (stage item c) ! (inserted c + 1) = item"
proof -
  have *: "items (stage item c) ! i = items c ! i" if "i \<le> inserted c" for i using that by (simp add: stage_def)
  then show "contents (stage item c) = contents c" by (simp add: contents_def) (simp add: stage_def)
  have "homed H (stage item c) b i \<longleftrightarrow> homed H c b i" if "i \<le> inserted c" for b i
    using * [OF that] unfolding homed_def by (simp add: stage_def)
  moreover have "placed H c {1..inserted c}" using assms(1) by (simp add: cuckoo_inv_def)
  ultimately have "placed H (stage item c) {1..inserted c}"
    unfolding placed_def by (simp add: stage_def)
  moreover have "inj_on (\<lambda>i. items (stage item c) ! i) {1..inserted c}"
    using assms(1) by (subst inj_on_cong [OF *]) (simp_all add: cuckoo_inv_def)
  moreover have "table_ok (stage item c)" "items (stage item c) ! 0 = []" "length (items (stage item c)) = length (items c)"
    using assms * [of 0] by (simp_all add: cuckoo_inv_def table_ok_def) (simp_all add: stage_def)
  ultimately show "cuckoo_inv H (stage item c)"
    using assms(2) by (simp add: cuckoo_inv_def) (simp add: stage_def)
  show "items (stage item c) ! (inserted c + 1) = item" using assms(2) by (simp add: stage_def)
qed

text \<open>A table whose buckets hold the next item as well, after the counter is incremented.\<close>

lemma commit:
  assumes inv: "cuckoo_inv H c" and "inserted c + 1 < length (items c)" and new: "items c ! (inserted c + 1) \<notin> contents c"
    and "frame c c'" and "table_ok c'" and "placed H c' (insert (inserted c + 1) {1..inserted c})"
  shows "cuckoo_inv H (c'\<lparr>inserted := inserted c' + 1\<rparr>)"
    and "contents (c'\<lparr>inserted := inserted c' + 1\<rparr>) = insert (items c ! (inserted c + 1)) (contents c)"
proof -
  have *: "insert (inserted c + 1) {1..inserted c} = {1..inserted c + 1}" by auto
  have f: "items c' = items c" "inserted c' = inserted c" "cHasher c' = cHasher c" using assms(4) by (auto simp: frame_def)
  show "contents (c'\<lparr>inserted := inserted c' + 1\<rparr>) = insert (items c ! (inserted c + 1)) (contents c)"
    using f * unfolding contents_def by (simp del: One_nat_def) (metis image_insert)
  have "inj_on (\<lambda>i. items c ! i) {1..inserted c + 1}"
    using inv new unfolding * [symmetric] by (auto simp: cuckoo_inv_def contents_def)
  moreover have "placed H (c'\<lparr>inserted := n\<rparr>) Q \<longleftrightarrow> placed H c' Q" for n Q
    by (simp add: placed_def homed_def)
  ultimately show "cuckoo_inv H (c'\<lparr>inserted := inserted c' + 1\<rparr>)"
    using assms(2,5,6) inv f unfolding * by (simp add: cuckoo_inv_def table_ok_def)
qed

text \<open>Insert on a table with room: it does not panic, and either adds the identifier or leaves one homeless.\<close>

lemma Insert_spec:
  assumes inv: "cuckoo_inv H c" and room: "inserted c + 1 < length (items c)"
  shows "(\<exists>c'. Insert H rnd item c = Inr (None, c') \<and> cuckoo_inv H c' \<and> length (items c') = length (items c) \<and>
           contents c' = contents c \<and> inserted c' = inserted c \<and> (item \<in> contents c \<or> item = [])) \<or>
    (\<exists>c'. Insert H rnd item c = Inr (None, c') \<and> cuckoo_inv H c' \<and> length (items c') = length (items c) \<and>
           contents c' = insert item (contents c) \<and> inserted c' = inserted c + 1 \<and> item \<notin> contents c) \<or>
    (\<exists>home c'. Insert H rnd item c = Inr (Some (ErrCuckooHomeless home), c') \<and>
           placed H c' ({1..inserted c + 1} - {home}) \<and> home \<in> {1..inserted c + 1} \<and> item \<notin> contents c)"
proof -
  let ?c = "stage item c" and ?n = "inserted c + 1"
  note st = stage_inv [OF inv room, of item]
  have ok: "table_ok ?c" "placed H ?c {1..inserted c}" using st(1) by (auto simp: cuckoo_inv_def) (simp add: stage_def)
  have f: "inserted ?c = inserted c" "length (items ?c) = length (items c)" by (simp_all add: stage_def)
  have n: "?n \<notin> {1..inserted c}" "0 < ?n" "?n < length (items ?c)" using room f by auto
  have P: "insert ?n {1..inserted c} = {1..?n}" by auto
  let ?I = "indices_of H ?c (items ?c ! ?n)"
  obtain k where ex: "Exists H ?c item = Inr (\<exists>b\<in>set (indices_of H ?c item). items ?c ! (bucketLookup ?c ! b) = item, k)"
    by (rule Exists_loop [OF ok])
  have step: "Insert H rnd item c =
     (if \<exists>b\<in>set (indices_of H ?c item). items ?c ! (bucketLookup ?c ! b) = item then Inr (None, ?c)
      else bind_res (tryAdd ?n ?I False 0 ?c) (\<lambda>(added, c).
         if added then Inr (None, c\<lparr>inserted := inserted c + 1\<rparr>)
         else bind_res (tryGreedyAdd H rnd (inserted c + 1) ?I c) (\<lambda>(home, added, c).
           if added then Inr (None, c\<lparr>inserted := inserted c + 1\<rparr>) else Inr (Some (ErrCuckooHomeless home), c))))"
  proof -
    have "inserted c \<noteq> length (items c)" "go_set (items c) (inserted c + 1) item = Inr ((items c)[inserted c + 1 := item])"
      using room by simp_all
    then have "Insert H rnd item c =
      bind_res (BucketIndices H (cHasher ?c) item) (\<lambda>bi. bind_res (Exists H ?c item) (\<lambda>(found, _).
        if found then Inr (None, ?c)
        else bind_res (tryAdd (inserted ?c + 1) bi False 0 ?c) (\<lambda>(added, c).
          if added then Inr (None, c\<lparr>inserted := inserted c + 1\<rparr>)
          else bind_res (tryGreedyAdd H rnd (inserted c + 1) bi c) (\<lambda>(home, added, c).
            if added then Inr (None, c\<lparr>inserted := inserted c + 1\<rparr>) else Inr (Some (ErrCuckooHomeless home), c)))))"
      unfolding Insert_def stage_def Let_def by (simp only: if_False bind_res_simps)
    then show ?thesis by (simp only: BucketIndices_eq [OF ok(1)] ex bind_res_simps prod.case st(3) f)
  qed
  show ?thesis
  proof (cases "\<exists>b\<in>set (indices_of H ?c item). items ?c ! (bucketLookup ?c ! b) = item")
    case True
    then have "item = [] \<or> item \<in> contents c" using found_contents(2) [OF st(1)] st(2) by metis
    with True step st f show ?thesis by auto
  next
    case False
    then have new: "item \<notin> contents c" using found_contents(1) [OF st(1)] st(2) by metis
    then have new': "items ?c ! (inserted ?c + 1) \<notin> contents ?c" using st f by simp
    have room': "inserted ?c + 1 < length (items ?c)" using room f by simp
    have fin: ?thesis if "frame ?c c'" "table_ok c'" "placed H c' {1..?n}"
      "Insert H rnd item c = Inr (None, c'\<lparr>inserted := inserted c' + 1\<rparr>)" for c'
      using commit [OF st(1) room' new' that(1,2)] that new st f P by (simp add: frame_def)
    show ?thesis
    proof (cases rule: tryAdd_spec [OF ok n, of False 0, case_names added stuck])
      case (added c')
      with False step P show ?thesis by (intro fin) simp_all
    next
      case stuck
      from tryGreedyAdd_loop_spec [OF ok n, of rnd "ReInsertLimit - 1"] stuck(2) obtain home added c' where
        g: "tryGreedyAdd H rnd ?n ?I ?c = Inr (home, added, c')" "frame ?c c'" "table_ok c'"
          "if added then placed H c' {1..?n} else home \<in> {1..?n} \<and> placed H c' ({1..?n} - {home})"
        unfolding P tryGreedyAdd_def by blast
      have "Insert H rnd item c = (if added then Inr (None, c'\<lparr>inserted := inserted c' + 1\<rparr>)
          else Inr (Some (ErrCuckooHomeless home), c'))"
        using False step stuck(1) g(1) f by simp
      with g new fin show ?thesis by (cases added) auto
    qed
  qed
qed

section \<open>Construction and size\<close>

lemma NewCuckooHasher_spec:
  assumes "length seeds = Nhash" and "\<forall>s\<in>set seeds. length s = SaltLength"
  shows "\<exists>h. NewCuckooHasher sz seeds = Inr h \<and> length (hashers h) = Nhash \<and> bucketSize h = max 1 (factor_mul sz)"
proof -
  have "\<exists>hs. NewMetroHasher s = Inr hs" if "s \<in> set seeds" for s using that assms(2) by (simp add: NewMetroHasher_eq)
  moreover obtain a b c where "seeds = [a, b, c]" using assms(1) by (auto simp: numeral_3_eq_3 length_Suc_conv)
  ultimately obtain ha hb hc where "NewMetroHasher a = Inr ha" "NewMetroHasher b = Inr hb" "NewMetroHasher c = Inr hc"
    by fastforce
  with \<open>seeds = [a, b, c]\<close> show ?thesis by (simp add: NewCuckooHasher_def)
qed

lemma NewCuckoo_spec:
  assumes "length seeds = Nhash" and "\<forall>s\<in>set seeds. length s = SaltLength"
  shows "\<exists>c. NewCuckoo (Inr rb) sz seeds = Inr c \<and> cuckoo_inv H c \<and> contents c = {} \<and>
    length (items c) = sz + 1 \<and> Len c = max 1 (factor_mul sz)"
proof -
  obtain h where h: "NewCuckooHasher sz seeds = Inr h" "length (hashers h) = Nhash" "bucketSize h = max 1 (factor_mul sz)"
    using NewCuckooHasher_spec [OF assms] by blast
  then show ?thesis
    by (simp add: NewCuckoo_def cuckoo_inv_def table_ok_def placed_def contents_def Len_def)
qed

lemma bit_len_le: "n < 2 ^ k \<Longrightarrow> bit_len n \<le> k"
proof (induction k arbitrary: n)
  case (Suc k)
  then have "n div 2 < 2 ^ k" by (simp add: less_mult_imp_div_less mult.commute)
  with Suc.IH show ?case by (subst bit_len.simps) simp
qed (simp add: bit_len.simps)

text \<open>Rounding to 53 bits stays on the same side of every multiple of the last kept bit.\<close>

lemma round53_bounds:
  assumes "2 ^ (bit_len n - 53) dvd m"
  shows "m \<le> n \<Longrightarrow> m \<le> round53 n" and "n < m \<Longrightarrow> round53 n \<le> m"
proof -
  let ?p = "2 ^ (bit_len n - 53) :: nat"
  obtain k where m: "m = ?p * k" using assms by (elim dvdE)
  have n: "?p * (n div ?p) \<le> n" "n < ?p * (n div ?p) + ?p"
    using mult_div_mod_eq [of ?p n] mod_less_divisor [of ?p n] zero_less_power [of "2 :: nat" "bit_len n - 53"] by linarith+
  have r: "?p * (n div ?p) \<le> round53 n \<and> round53 n \<le> ?p * (n div ?p) + ?p"
    using n by (auto simp: round53_def Let_def algebra_simps)
  show "m \<le> round53 n" if "m \<le> n"
  proof -
    have "k \<le> n div ?p" using that m by (simp add: less_eq_div_iff_mult_less_eq mult.commute)
    then have "m \<le> ?p * (n div ?p)" unfolding m by (rule mult_le_mono2)
    with r show ?thesis by linarith
  qed
  show "round53 n \<le> m" if "n < m"
  proof -
    have "n div ?p < k" using that m by (simp add: div_less_iff_less_mult mult.commute)
    then have "?p * (n div ?p + 1) \<le> m" unfolding m by (intro mult_le_mono2) simp
    with r show ?thesis by simp
  qed
qed

lemma factor_mul_bounds:
  assumes "0 < sz" and "sz < 2 ^ 52"
  shows "sz \<le> factor_mul sz" and "factor_mul sz \<le> 2 * sz"
proof -
  let ?n = "sz * 6305039478318694"
  have sz: "round53 sz = sz" using bit_len_le [OF assms(2)] by (simp add: round53_def)
  have "?n < 2 ^ 52 * 2 ^ 53" using assms(2) by (intro mult_strict_mono) simp_all
  then have "bit_len ?n \<le> 105" by (intro bit_len_le) (simp add: power_add [symmetric])
  then have "bit_len ?n - 53 \<le> 52" by simp
  then have dvd: "2 ^ (bit_len ?n - 53) dvd k * (2 ^ 52 :: nat)" for k by (intro dvd_mult le_imp_power_dvd)
  have "sz * 2 ^ 52 \<le> round53 ?n" by (rule round53_bounds(1) [OF dvd]) simp
  moreover have "round53 ?n \<le> 2 * sz * 2 ^ 52" using assms(1) by (intro round53_bounds(2) [OF dvd]) simp
  ultimately show "sz \<le> factor_mul sz" and "factor_mul sz \<le> 2 * sz"
    unfolding factor_mul_def sz
    by (metis div_le_mono nonzero_mult_div_cancel_right power_not_zero zero_neq_numeral)+
qed

section \<open>Properties\<close>

text \<open>
  Property C18. Insert on a table with room implements insertion into a set: it does not panic; on
  success the table satisfies its invariant (every identifier sits in exactly one of its three
  buckets, with the right hash index) and holds exactly the old identifiers and the new one, counted
  once; on failure the error names the one item that is left without a bucket, all others are placed.
\<close>
theorem Insert_refines_set:
  assumes "cuckoo_inv H c" and "inserted c + 1 < length (items c)" and "item \<noteq> []"
  shows "\<exists>e c'. Insert H rnd item c = Inr (e, c') \<and>
    (case e of
       None \<Rightarrow> cuckoo_inv H c' \<and> contents c' = insert item (contents c) \<and>
               inserted c' = inserted c + (if item \<in> contents c then 0 else 1)
     | Some err \<Rightarrow> \<exists>home. err = ErrCuckooHomeless home \<and> home \<in> {1..inserted c + 1} \<and>
               placed H c' ({1..inserted c + 1} - {home}))"
  using Insert_spec [OF assms(1,2), of rnd item] assms(3) by (elim disjE exE conjE) (auto simp: insert_absorb)

text \<open>A library for the witnesses: the hash is the sum of seed and first byte.\<close>

definition toy_lib :: hash_lib where
  "toy_lib = \<lparr>metro_Hash64 = \<lambda>p s. s + (case p of [] \<Rightarrow> 0 | b # _ \<Rightarrow> ucast b), murmur3_Sum64 = \<lambda>p. 0\<rparr>"

definition toy_table :: Cuckoo where
  "toy_table = \<lparr>items = [[], [], []], inserted = 0, hashIndices = [0, 0, 0], bucketLookup = [0, 0],
     cHasher = \<lparr>bucketSize = 2, hashers = [Metro64 0, Metro64 1, Metro64 2]\<rparr>\<rparr>"

lemma toy_table_inv: "cuckoo_inv H toy_table"
  by (simp add: cuckoo_inv_def table_ok_def placed_def toy_table_def less_2_cases_iff)

theorem Insert_refines_set_witness:
  "\<exists>c'. Insert toy_lib (\<lambda>_. 0) [5] toy_table = Inr (None, c') \<and> contents c' = {[5]} \<and> bucketLookup c' = [0, 1]"
proof -
  have "Insert toy_lib (\<lambda>_. 0) [5] toy_table = Inr (None, toy_table\<lparr>items := [[], [5], []], inserted := 1, bucketLookup := [0, 1]\<rparr>)"
    by (simp add: Insert_def toy_table_def toy_lib_def BucketIndices_def Exists_def tryAdd_def isEmpty_def go_nth_def go_set_def)
  then show ?thesis
    using Insert_refines_set [OF toy_table_inv, of "[5]" toy_lib "\<lambda>_. 0"] by (simp add: toy_table_def contents_def)
qed

text \<open>
  Property C19. Exists answers membership: for every identifier but the empty one, Exists returns
  whether the identifier has been inserted, and when it has, the hash index that leads to its bucket.
\<close>
theorem Exists_iff_inserted:
  assumes "cuckoo_inv H c" and "item \<noteq> []"
  shows "\<exists>h. Exists H c item = Inr (item \<in> contents c, h) \<and>
    (item \<in> contents c \<longrightarrow> h < Nhash \<and> items c ! (bucketLookup c ! (indices_of H c item ! h)) = item)"
proof -
  have ok: "table_ok c" "placed H c {1..inserted c}" using assms(1) by (auto simp: cuckoo_inv_def)
  have "(\<exists>b\<in>set (indices_of H c item). items c ! (bucketLookup c ! b) = item) \<longleftrightarrow> item \<in> contents c"
    using found_contents [OF assms(1), of item] assms(2) by blast
  moreover obtain k where "Exists H c item = Inr (\<exists>b\<in>set (indices_of H c item). items c ! (bucketLookup c ! b) = item, k)"
    "(\<exists>b\<in>set (indices_of H c item). items c ! (bucketLookup c ! b) = item) \<Longrightarrow>
      k < Nhash \<and> items c ! (bucketLookup c ! (indices_of H c item ! k)) = item"
    using Exists_loop [OF ok] by blast
  ultimately show ?thesis by auto
qed

theorem Exists_iff_inserted_witness: "\<exists>h. Exists toy_lib toy_table [5] = Inr (False, h)"
  using Exists_iff_inserted [OF toy_table_inv, of "[5]" toy_lib] by (simp add: toy_table_def contents_def)

text \<open>
  NewCuckoo with three seeds of the salt length gives an empty table that satisfies the
  invariant, with a slot for every item and, for \<open>0 < size < 2^52\<close>, between \<open>size\<close> and \<open>2 * size\<close>
  buckets although the number of buckets is computed in floating point.
\<close>
theorem NewCuckoo_ok:
  assumes "length seeds = Nhash" and "\<forall>s\<in>set seeds. length s = SaltLength" and "0 < sz" and "sz < 2 ^ 52"
  shows "\<exists>c. NewCuckoo (Inr rb) sz seeds = Inr c \<and> cuckoo_inv H c \<and> contents c = {} \<and>
    length (items c) = sz + 1 \<and> sz \<le> Len c \<and> Len c \<le> 2 * sz"
  using NewCuckoo_spec [OF assms(1,2), of rb sz H] factor_mul_bounds [OF assms(3,4)] assms(3)
  by (auto simp: max_def)

theorem NewCuckoo_ok_witness:
  "\<exists>c. NewCuckoo (Inr []) 10 (replicate 3 (replicate 32 0)) = Inr c \<and> cuckoo_inv toy_lib c \<and> contents c = {} \<and>
    length (items c) = 11 \<and> 10 \<le> Len c \<and> Len c \<le> 20"
  using NewCuckoo_ok [of "replicate 3 (replicate 32 0)" 10 "[]" toy_lib] by simp

text \<open>
  Property C20. Every inserted identifier is found in exactly one bucket by GetBucket and
  GetItemWithHash, and that bucket is the one its hash index selects among its bucket indices.
\<close>
theorem unique_bucket:
  assumes "cuckoo_inv H c" and "item \<in> contents c" and "item \<noteq> []"
  shows "\<exists>!b. b < Len c \<and> (\<exists>idx h bs. GetBucket c b = Inr idx \<and> GetItemWithHash c idx = Inr (item, h) \<and>
    BucketIndices H (cHasher c) item = Inr bs \<and> h < length bs \<and> bs ! h = b)"
proof -
  have ok: "table_ok c" "placed H c {1..inserted c}" and inj: "inj_on (\<lambda>i. items c ! i) {1..inserted c}"
      and keeper: "items c ! 0 = []" and ins: "inserted c < length (items c)"
    using assms(1) by (auto simp: cuckoo_inv_def)
  obtain i where i: "i \<in> {1..inserted c}" "items c ! i = item" using assms(2) by (auto simp: contents_def)
  have get: "GetBucket c b = Inr idx \<longleftrightarrow> bucketLookup c ! b = idx" if "b < Len c" for b idx
    using that ok(1) by (simp add: GetBucket_def Len_def table_ok_def)
  have item: "GetItemWithHash c idx = Inr (item, h) \<longleftrightarrow> items c ! idx = item \<and> hashIndices c ! idx = h"
    if "idx < length (items c)" for idx h
    using that ok(1) by (auto simp: GetItemWithHash_def table_ok_def)
  obtain b where b: "b < Len c" "bucketLookup c ! b = i" using placedD(3) [OF ok(2) i(1)] by (auto simp: Len_def)
  then have "homed H c b i" using placedD(2) [OF ok(2), of b] i(1) by (simp add: Len_def)
  with b i ins ok show ?thesis
  proof (intro ex1I [of _ b], goal_cases)
    case 1
    then show ?case by (auto simp: get item homed_def)
  next
    case (2 b')
    then obtain idx h where "bucketLookup c ! b' = idx" "GetItemWithHash c idx = Inr (item, h)"
      "BucketIndices H (cHasher c) item = Inr (indices_of H c item)" "indices_of H c item ! h = b'"
      by (auto simp: get)
    moreover have less: "idx < length (items c)"
      using lookup_less [OF ok(2,1), of b'] 2 calculation(1) by (simp add: Len_def)
    ultimately have idx: "items c ! idx = item" "hashIndices c ! idx = h" by (simp_all add: item)
    then have "idx \<noteq> 0" using keeper assms(3) by metis
    then have "idx \<in> {1..inserted c}" using placedD(1) [OF ok(2), of b'] 2 \<open>bucketLookup c ! b' = idx\<close> by (auto simp: Len_def)
    then have "idx = i" using inj_onD [OF inj] idx(1) i by metis
    with idx i \<open>homed H c b i\<close> \<open>indices_of H c item ! h = b'\<close> show ?case by (simp add: homed_def)
  qed
qed

definition toy_full :: Cuckoo where
  "toy_full = toy_table\<lparr>items := [[], [5], [6]], inserted := 2, hashIndices := [0, 0, 0], bucketLookup := [2, 1]\<rparr>"

lemma toy_full_inv: "cuckoo_inv toy_lib toy_full"
proof -
  have *: "{Suc 0..2} = {1, 2}" by auto
  have "placed toy_lib toy_full {1..2}"
    by (auto simp: placed_def toy_full_def toy_table_def toy_lib_def homed_def indices_of_def less_2_cases_iff *)
  moreover have "inj_on (\<lambda>i. items toy_full ! i) {1..2}"
    by (auto simp: inj_on_def toy_full_def *)
  ultimately show ?thesis by (simp add: cuckoo_inv_def) (simp add: toy_full_def toy_table_def table_ok_def)
qed

theorem unique_bucket_witness:
  "\<exists>!b. b < Len toy_full \<and> (\<exists>idx h bs. GetBucket toy_full b = Inr idx \<and> GetItemWithHash toy_full idx = Inr ([5], h) \<and>
    BucketIndices toy_lib (cHasher toy_full) [5] = Inr bs \<and> h < length bs \<and> bs ! h = b)"
  by (rule unique_bucket [OF toy_full_inv]) (auto simp: contents_def toy_full_def intro!: image_eqI [of _ _ 1])

text \<open>
  When as many items as the table was made for have been inserted, the next Insert of
  any item panics with an index out of range: the guard compares the counter with the length of the
  items slice, which has one element more for the keeper, and so never reports the full table.
\<close>
theorem Insert_on_full_table_panics:
  assumes "inserted c + 1 = length (items c)"
  shows "Insert H rnd item c = Inl IndexOutOfRange"
  using assms by (simp add: Insert_def go_set_def)

theorem Insert_on_full_table_panics_witness:
  "inserted toy_full + 1 = length (items toy_full) \<and> Insert toy_lib (\<lambda>_. 0) [7] toy_full = Inl IndexOutOfRange"
  using Insert_on_full_table_panics [of toy_full toy_lib "\<lambda>_. 0" "[7]"] by (simp add: toy_full_def)

end
