(* ===== verification/BitVect.thy ===== *)
theory BitVect
  imports Bits
begin

text \<open>
  The in-place bit transposition of \<open>internal/util/bitvect.go\<close>. A BitVect is a 512 by 512 bit matrix
  held as 4096 words, eight per row. The theory shows that the stages of \<open>transpose\<close> together exchange
  the row and the column of every bit; the conversions from and to byte matrices and the concurrent
  drivers are in Transpose.
\<close>

unbundle bit_operations_syntax

section \<open>The in-place transposition of one block\<close>

text \<open>The struct BitVect has the single field \<open>set [bitVectWidth * 8]uint64\<close>.\<close>

type_synonym BitVect = "u64 list"

abbreviation bitVectWidth :: nat where
  "bitVectWidth \<equiv> 512"

definition zero_vect :: BitVect where
  "zero_vect = replicate (bitVectWidth * 8) 0"

definition swap :: "nat \<Rightarrow> nat \<Rightarrow> BitVect \<Rightarrow> u64 \<Rightarrow> nat \<Rightarrow> BitVect" where
  "swap a b vect msk width =
     (let t = (vect ! a XOR push_bit width (vect ! b)) AND msk;
          vect1 = vect[a := vect ! a XOR t]
      in vect1[b := vect1 ! b XOR drop_bit width t])"

text \<open>
  The calls of \<open>swap\<close> in the unrolled \<open>transpose64\<close>, stage by stage: the pair \<open>(i, j)\<close> stands
  for \<open>swap(jmp+(8*i), jmp+(8*j), vect, mask, width)\<close>.
\<close>

definition swaps32 :: "(nat \<times> nat) list" where
  "swaps32 =
    [(0, 32), (1, 33), (2, 34), (3, 35), (4, 36), (5, 37), (6, 38), (7, 39), (8, 40),
     (9, 41), (10, 42), (11, 43), (12, 44), (13, 45), (14, 46), (15, 47), (16, 48),
     (17, 49), (18, 50), (19, 51), (20, 52), (21, 53), (22, 54), (23, 55), (24, 56),
     (25, 57), (26, 58), (27, 59), (28, 60), (29, 61), (30, 62), (31, 63)]"

definition swaps16 :: "(nat \<times> nat) list" where
  "swaps16 =
    [(0, 16), (1, 17), (2, 18), (3, 19), (4, 20), (5, 21), (6, 22), (7, 23), (8, 24),
     (9, 25), (10, 26), (11, 27), (12, 28), (13, 29), (14, 30), (15, 31), (32, 48),
     (33, 49), (34, 50), (35, 51), (36, 52), (37, 53), (38, 54), (39, 55), (40, 56),
     (41, 57), (42, 58), (43, 59), (44, 60), (45, 61), (46, 62), (47, 63)]"

definition swaps8 :: "(nat \<times> nat) list" where
  "swaps8 =
    [(0, 8), (1, 9), (2, 10), (3, 11), (4, 12), (5, 13), (6, 14), (7, 15), (16, 24),
     (17, 25), (18, 26), (19, 27), (20, 28), (21, 29), (22, 30), (23, 31), (32, 40),
     (33, 41), (34, 42), (35, 43), (36, 44), (37, 45), (38, 46), (39, 47), (48, 56),
     (49, 57), (50, 58), (51, 59), (52, 60), (53, 61), (54, 62), (55, 63)]"

definition swaps4 :: "(nat \<times> nat) list" where
  "swaps4 =
    [(0, 4), (1, 5), (2, 6), (3, 7), (8, 12), (9, 13), (10, 14), (11, 15), (16, 20),
     (17, 21), (18, 22), (19, 23), (24, 28), (25, 29), (26, 30), (27, 31), (32, 36),
     (33, 37), (34, 38), (35, 39), (40, 44), (41, 45), (42, 46), (43, 47), (48, 52),
     (49, 53), (50, 54), (51, 55), (56, 60), (57, 61), (58, 62), (59, 63)]"

definition swaps2 :: "(nat \<times> nat) list" where
  "swaps2 =
    [(0, 2), (1, 3), (4, 6), (5, 7), (8, 10), (9, 11), (12, 14), (13, 15), (16, 18),
     (17, 19), (20, 22), (21, 23), (24, 26), (25, 27), (28, 30), (29, 31), (32, 34),
     (33, 35), (36, 38), (37, 39), (40, 42), (41, 43), (44, 46), (45, 47), (48, 50),
     (49, 51), (52, 54), (53, 55), (56, 58), (57, 59), (60, 62), (61, 63)]"

definition swaps1 :: "(nat \<times> nat) list" where
  "swaps1 =
    [(0, 1), (2, 3), (4, 5), (6, 7), (8, 9), (10, 11), (12, 13), (14, 15), (16, 17),
     (18, 19), (20, 21), (22, 23), (24, 25), (26, 27), (28, 29), (30, 31), (32, 33),
     (34, 35), (36, 37), (38, 39), (40, 41), (42, 43), (44, 45), (46, 47), (48, 49),
     (50, 51), (52, 53), (54, 55), (56, 57), (58, 59), (60, 61), (62, 63)]"

definition swap_stage :: "nat \<Rightarrow> u64 \<Rightarrow> nat \<Rightarrow> (nat \<times> nat) list \<Rightarrow> BitVect \<Rightarrow> BitVect" where
  "swap_stage jmp msk width ps vect =
     fold (\<lambda>(i, j) v. swap (jmp + 8 * i) (jmp + 8 * j) v msk width) ps vect"

definition transpose64 :: "BitVect \<Rightarrow> nat \<Rightarrow> nat \<Rightarrow> BitVect" where
  "transpose64 vect vblock col =
     (let jmp = vblock * (64 * 8) + col;
          v32 = swap_stage jmp 0xFFFFFFFF00000000 32 swaps32 vect;
          v16 = swap_stage jmp 0xFFFF0000FFFF0000 16 swaps16 v32;
          v8 = swap_stage jmp 0xFF00FF00FF00FF00 8 swaps8 v16;
          v4 = swap_stage jmp 0xF0F0F0F0F0F0F0F0 4 swaps4 v8;
          v2 = swap_stage jmp 0xcccccccccccccccc 2 swaps2 v4
      in swap_stage jmp 0xaaaaaaaaaaaaaaaa 1 swaps1 v2)"

text \<open>
  The three \<open>copy\<close> calls through \<open>tmp\<close> that exchange \<open>n\<close> words at \<open>a\<close> with \<open>n\<close> words at \<open>b\<close>.
\<close>

definition swap_range :: "nat \<Rightarrow> nat \<Rightarrow> nat \<Rightarrow> BitVect \<Rightarrow> BitVect" where
  "swap_range a b n v =
     (let tmp = sub_list v a n;
          v1 = write_at v a (sub_list v b n)
      in write_at v1 b tmp)"

text \<open>The body of the loop \<open>for i := 0; i < 256; i++\<close>.\<close>

definition swap_rows256 :: "nat \<Rightarrow> BitVect \<Rightarrow> BitVect" where
  "swap_rows256 i v = (let jmp = i * 8 in swap_range (jmp + 4) (256 * 8 + jmp) 4 v)"

text \<open>The body of the loop \<open>for j := 0; j < 128; j++\<close>.\<close>

definition swap_rows128 :: "nat \<Rightarrow> BitVect \<Rightarrow> BitVect" where
  "swap_rows128 j v =
     (let jmp = j * 8;
          v1 = swap_range (jmp + 2) (128 * 8 + jmp) 2 v;
          v2 = swap_range (jmp + 6) (128 * 8 + jmp + 4) 2 v1;
          v3 = swap_range (256 * 8 + jmp + 2) (384 * 8 + jmp) 2 v2
      in swap_range (256 * 8 + jmp + 6) (384 * 8 + jmp + 4) 2 v3)"

text \<open>
  The body of the loop \<open>for k := 0; k < 64; k++\<close>: sixteen exchanges of one word each, at the
  offsets from \<open>jmp\<close> listed here in the order of the code.
\<close>

definition swaps64_words :: "(nat \<times> nat) list" where
  "swaps64_words =
    [(1, 64 * 8), (3, 64 * 8 + 2), (5, 64 * 8 + 4), (7, 64 * 8 + 6),
     (128 * 8 + 1, 192 * 8), (128 * 8 + 3, 192 * 8 + 2), (128 * 8 + 5, 192 * 8 + 4), (128 * 8 + 7, 192 * 8 + 6),
     (256 * 8 + 1, 320 * 8), (256 * 8 + 3, 320 * 8 + 2), (256 * 8 + 5, 320 * 8 + 4), (256 * 8 + 7, 320 * 8 + 6),
     (384 * 8 + 1, 448 * 8), (384 * 8 + 3, 448 * 8 + 2), (384 * 8 + 5, 448 * 8 + 4), (384 * 8 + 7, 448 * 8 + 6)]"

definition swap_rows64 :: "nat \<Rightarrow> BitVect \<Rightarrow> BitVect" where
  "swap_rows64 k v = (let jmp = k * 8 in fold (\<lambda>(a, b) v. swap_range (jmp + a) (jmp + b) 1 v) swaps64_words v)"

definition transpose :: "BitVect \<Rightarrow> BitVect" where
  "transpose b =
     (let b1 = fold swap_rows256 [0..<256] b;
          b2 = fold swap_rows128 [0..<128] b1;
          b3 = fold swap_rows64 [0..<64] b2
      in fold (\<lambda>blk v. fold (\<lambda>col v. transpose64 v blk col) [0..<8] v) [0..<8] b3)"

section \<open>Exchanging elements in pairs\<close>

text \<open>Every step of the transposition combines two words at a time; no word is used twice in a stage.\<close>

definition upd2 :: "('a \<Rightarrow> 'a \<Rightarrow> 'a) \<Rightarrow> ('a \<Rightarrow> 'a \<Rightarrow> 'a) \<Rightarrow> nat \<times> nat \<Rightarrow> 'a list \<Rightarrow> 'a list" where
  "upd2 F G p v = v[fst p := F (v ! fst p) (v ! snd p), snd p := G (v ! fst p) (v ! snd p)]"

definition indices :: "(nat \<times> nat) list \<Rightarrow> nat list" where
  "indices ps = concat (map (\<lambda>(i, j). [i, j]) ps)"

lemma indices_simps [simp]: "indices [] = []" "indices (p # ps) = fst p # snd p # indices ps"
  by (simp_all add: indices_def split_def)

lemma length_upd2 [simp]: "length (upd2 F G p v) = length v"
  by (simp add: upd2_def)

lemma length_fold_upd2 [simp]: "length (fold (upd2 F G) ps v) = length v"
  by (induction ps arbitrary: v) auto

lemma fold_upd2_out: "k \<notin> set (indices ps) \<Longrightarrow> fold (upd2 F G) ps v ! k = v ! k"
  by (induction ps arbitrary: v) (auto simp: upd2_def)

lemma in_indicesI: "p \<in> set ps \<Longrightarrow> fst p \<in> set (indices ps) \<and> snd p \<in> set (indices ps)"
  by (induction ps) auto

lemma fold_upd2_in:
  assumes "distinct (indices ps)" and "set (indices ps) \<subseteq> {..<length v}" and "(i, j) \<in> set ps"
  shows "fold (upd2 F G) ps v ! i = F (v ! i) (v ! j) \<and> fold (upd2 F G) ps v ! j = G (v ! i) (v ! j)"
  using assms
proof (induction ps arbitrary: v)
  case (Cons p ps)
  show ?case
  proof (cases "p = (i, j)")
    case True
    with Cons.prems have "upd2 F G p v ! i = F (v ! i) (v ! j)" "upd2 F G p v ! j = G (v ! i) (v ! j)"
      by (auto simp: upd2_def)
    with True Cons.prems show ?thesis by (simp add: fold_upd2_out)
  next
    case False
    with Cons.prems have m: "(i, j) \<in> set ps" by auto
    then have "i \<in> set (indices ps)" "j \<in> set (indices ps)" using in_indicesI by force+
    with Cons.prems have "fst p \<noteq> i" "snd p \<noteq> i" "fst p \<noteq> j" "snd p \<noteq> j" by auto
    then have "upd2 F G p v ! i = v ! i" "upd2 F G p v ! j = v ! j" by (simp_all add: upd2_def)
    with Cons.IH [of "upd2 F G p v"] Cons.prems m show ?thesis by auto
  qed
qed simp

lemma indices_map_offset: "indices (map (\<lambda>(i, j). (c + d * i, c + d * j)) ps) = map (\<lambda>i. c + d * i) (indices ps)"
  by (induction ps) auto

section \<open>Exchanging one bit of the row number with one bit of the column number\<close>

text \<open>
  A stage of width \<open>2^k\<close> moves the bit at row \<open>r\<close> and column \<open>c\<close> to the place where bit \<open>k\<close> of
  \<open>r\<close> and bit \<open>k\<close> of \<open>c\<close> are exchanged. After all stages the two numbers are exchanged.
\<close>

definition swp :: "nat \<Rightarrow> nat \<times> nat \<Rightarrow> nat \<times> nat" where
  "swp k p = (if bit (fst p) k = bit (snd p) k then p else (flip_bit k (fst p), flip_bit k (snd p)))"

lemma bit_swp:
  "bit (fst (swp k p)) j \<longleftrightarrow> (if j = k then bit (snd p) j else bit (fst p) j)"
  "bit (snd (swp k p)) j \<longleftrightarrow> (if j = k then bit (fst p) j else bit (snd p) j)"
  by (auto simp: swp_def bit_flip_bit_iff)

lemma bit_swps:
  assumes "distinct ks"
  shows "bit (fst (fold swp ks p)) j \<longleftrightarrow> (if j \<in> set ks then bit (snd p) j else bit (fst p) j)"
    and "bit (snd (fold swp ks p)) j \<longleftrightarrow> (if j \<in> set ks then bit (fst p) j else bit (snd p) j)"
  using assms by (induction ks arbitrary: p) (auto simp: bit_swp)

lemma less_pow_iff_bits: "(x::nat) < 2 ^ n \<longleftrightarrow> (\<forall>j\<ge>n. \<not> bit x j)"
proof
  assume "x < 2 ^ n"
  then have "take_bit n x = x" by (simp add: take_bit_nat_eq_self_iff)
  then show "\<forall>j\<ge>n. \<not> bit x j" by (metis bit_take_bit_iff linorder_not_less)
next
  assume "\<forall>j\<ge>n. \<not> bit x j"
  then have "take_bit n x = x"
    by (intro bit_eqI) (metis bit_take_bit_iff linorder_not_less)
  then show "x < 2 ^ n" by (simp add: take_bit_nat_eq_self_iff)
qed

lemma swp_less:
  assumes "k < n" and "fst p < 2 ^ n" and "snd p < 2 ^ n"
  shows "fst (swp k p) < 2 ^ n" and "snd (swp k p) < 2 ^ n"
  using assms by (auto simp: less_pow_iff_bits bit_swp)

lemma swps_transpose:
  assumes "distinct ks" and "set ks = {..<n}" and "r < 2 ^ n" and "c < 2 ^ n"
  shows "fold swp ks (r, c) = (c, r)"
proof (rule prod_eqI)
  have high: "\<not> bit r j" "\<not> bit c j" if "\<not> j < n" for j
    using assms(3,4) that unfolding less_pow_iff_bits by simp_all
  show "fst (fold swp ks (r, c)) = fst (c, r)"
  proof (rule bit_eqI)
    fix j show "bit (fst (fold swp ks (r, c))) j = bit (fst (c, r)) j"
      using high [of j] by (cases "j < n") (simp_all add: bit_swps [OF assms(1)] assms(2))
  qed
  show "snd (fold swp ks (r, c)) = snd (c, r)"
  proof (rule bit_eqI)
    fix j show "bit (snd (fold swp ks (r, c))) j = bit (snd (c, r)) j"
      using high [of j] by (cases "j < n") (simp_all add: bit_swps [OF assms(1)] assms(2))
  qed
qed

lemma flip_bit_nat: "flip_bit k (x::nat) = (if bit x k then x - 2 ^ k else x + 2 ^ k)"
proof (cases "bit x k")
  case True
  have "set_bit k (unset_bit k x) = x"
    using True by (intro bit_eqI) (auto simp: bit_set_bit_iff bit_unset_bit_iff)
  then have "unset_bit k x + 2 ^ k = x"
    by (simp add: set_bit_eq bit_unset_bit_iff)
  then show ?thesis using True by (simp add: flip_bit_eq_if)
next
  case False
  then show ?thesis by (simp add: flip_bit_eq_if set_bit_eq)
qed

section \<open>The bit stages: transpose64\<close>

definition swap_hi :: "u64 \<Rightarrow> nat \<Rightarrow> u64 \<Rightarrow> u64 \<Rightarrow> u64" where
  "swap_hi m w x y = x XOR ((x XOR push_bit w y) AND m)"

definition swap_lo :: "u64 \<Rightarrow> nat \<Rightarrow> u64 \<Rightarrow> u64 \<Rightarrow> u64" where
  "swap_lo m w x y = y XOR drop_bit w ((x XOR push_bit w y) AND m)"

lemma swap_upd2: "a \<noteq> b \<Longrightarrow> swap a b v m w = upd2 (swap_hi m w) (swap_lo m w) (a, b) v"
  by (simp add: swap_def upd2_def swap_hi_def swap_lo_def Let_def)

text \<open>The mask of the stage of width \<open>2^k\<close> selects the bit numbers whose bit \<open>k\<close> is set.\<close>

definition mask_for :: "nat \<Rightarrow> u64 \<Rightarrow> bool" where
  "mask_for k m \<longleftrightarrow> (\<forall>b<64. bit m b \<longleftrightarrow> bit b k)"

lemma add_pow_bit:
  assumes "\<not> bit (b::nat) k" and "k < 6" and "b < 64"
  shows "b + 2 ^ k < 64" and "bit (b + 2 ^ k) k"
proof -
  have f: "flip_bit k b = b + 2 ^ k" using assms(1) by (simp add: flip_bit_nat)
  have "\<forall>j\<ge>6. \<not> bit (flip_bit k b) j"
    using assms less_pow_iff_bits [of b 6] by (auto simp: bit_flip_bit_iff)
  then have "flip_bit k b < 2 ^ 6" unfolding less_pow_iff_bits .
  then show "b + 2 ^ k < 64" by (simp add: f)
  have "bit (flip_bit k b) k" using assms(1) by (simp add: bit_flip_bit_iff)
  then show "bit (b + 2 ^ k) k" by (simp add: f)
qed

lemma bit_ge_pow: "bit (b::nat) k \<Longrightarrow> 2 ^ k \<le> b"
  by (metis bit_nat_def div_less even_zero linorder_not_less)

lemma bit_swap_hi:
  assumes "mask_for k m" and "k < 6" and "b < 64"
  shows "bit (swap_hi m (2 ^ k) x y) b \<longleftrightarrow> (if bit b k then bit y (b - 2 ^ k) else bit x b)"
  using assms by (auto simp: swap_hi_def mask_for_def bit_simps dest: bit_ge_pow)

lemma bit_swap_lo:
  assumes m: "mask_for k m" and k: "k < 6" and b: "b < 64"
  shows "bit (swap_lo m (2 ^ k) x y) b \<longleftrightarrow> (if bit b k then bit y b else bit x (b + 2 ^ k))"
proof (cases "bit b k")
  case True
  have "\<not> bit m (b + 2 ^ k)"
  proof
    assume bm: "bit m (b + 2 ^ k)"
    then have lt: "b + 2 ^ k < 64" using bit_imp_le_length [of m "b + 2 ^ k"] by simp
    with bm m have "bit (b + 2 ^ k) k" by (simp add: mask_for_def)
    then have "flip_bit k (b + 2 ^ k) = b" by (simp add: flip_bit_nat)
    with \<open>bit (b + 2 ^ k) k\<close> True show False
      by (metis bit_flip_bit_iff)
  qed
  with True show ?thesis by (simp add: swap_lo_def bit_simps add.commute)
next
  case False
  from add_pow_bit [OF False k b] m have "bit m (b + 2 ^ k)" by (simp add: mask_for_def)
  moreover have "b + 2 ^ k < 64" by (rule add_pow_bit(1) [OF False k b])
  ultimately show ?thesis using False by (auto simp: swap_lo_def bit_simps add.commute)
qed

text \<open>What a stage does to the 64 by 64 block whose rows are the words \<open>jmp + 8*i\<close>.\<close>

definition block_bit :: "nat \<Rightarrow> BitVect \<Rightarrow> nat \<times> nat \<Rightarrow> bool" where
  "block_bit jmp v p = bit (v ! (jmp + 8 * fst p)) (snd p)"

definition stage_moves :: "nat \<Rightarrow> (nat \<times> nat \<Rightarrow> nat \<times> nat) \<Rightarrow> BitVect \<Rightarrow> BitVect \<Rightarrow> bool" where
  "stage_moves jmp f v v' \<longleftrightarrow> length v' = length v \<and>
     (\<forall>n. n \<notin> (\<lambda>i. jmp + 8 * i) ` {..<64} \<longrightarrow> v' ! n = v ! n) \<and>
     (\<forall>i<64. \<forall>b<64. block_bit jmp v' (i, b) = block_bit jmp v (f (i, b)))"

definition pairs_for :: "nat \<Rightarrow> (nat \<times> nat) list \<Rightarrow> bool" where
  "pairs_for k ps \<longleftrightarrow> distinct (indices ps) \<and> set ps = (\<lambda>i. (i, i + 2 ^ k)) ` {i. i < 64 \<and> \<not> bit i k}"

lemma pairs_for_less: "pairs_for k ps \<Longrightarrow> k < 6 \<Longrightarrow> i \<in> set (indices ps) \<Longrightarrow> i < 64"
proof -
  assume ps: "pairs_for k ps" "k < 6" and "i \<in> set (indices ps)"
  then obtain a b where "(a, b) \<in> set ps" "i = a \<or> i = b" by (auto simp: indices_def)
  with ps show "i < 64" using add_pow_bit(1) [of _ k] by (auto simp: pairs_for_def)
qed

lemma swap_stage_upd2:
  assumes "distinct (indices ps)"
  shows "swap_stage jmp m w ps v =
    fold (upd2 (swap_hi m w) (swap_lo m w)) (map (\<lambda>(i, j). (jmp + 8 * i, jmp + 8 * j)) ps) v"
  using assms
proof (induction ps arbitrary: v)
  case (Cons p ps)
  then show ?case by (auto simp: swap_stage_def split_def swap_upd2)
qed (simp add: swap_stage_def)

lemma swap_stage_moves:
  assumes ps: "pairs_for k ps" and m: "mask_for k m" and k: "k < 6" and len: "jmp + 8 * 64 \<le> length v + 7"
  shows "stage_moves jmp (swp k) v (swap_stage jmp m (2 ^ k) ps v)"
proof -
  let ?ps = "map (\<lambda>(i, j). (jmp + 8 * i, jmp + 8 * j)) ps"
  let ?F = "swap_hi m (2 ^ k)" and ?G = "swap_lo m (2 ^ k)"
  let ?v = "fold (upd2 ?F ?G) ?ps v"
  have v: "swap_stage jmp m (2 ^ k) ps v = ?v"
    using ps by (intro swap_stage_upd2) (simp add: pairs_for_def)
  have ind: "indices ?ps = map (\<lambda>i. jmp + 8 * i) (indices ps)" by (rule indices_map_offset)
  have dist: "distinct (indices ?ps)"
    using ps by (auto simp: ind pairs_for_def distinct_map inj_on_def)
  have "jmp + 8 * i < length v" if "i < 64" for i using that len by linarith
  then have range: "set (indices ?ps) \<subseteq> {..<length v}"
    using pairs_for_less [OF ps k] by (auto simp: ind)
  have out: "?v ! n = v ! n" if "n \<notin> (\<lambda>i. jmp + 8 * i) ` {..<64}" for n
    using that pairs_for_less [OF ps k] by (intro fold_upd2_out) (auto simp: ind)
  have pair: "?v ! (jmp + 8 * i) = ?F (v ! (jmp + 8 * i)) (v ! (jmp + 8 * (i + 2 ^ k)))"
    "?v ! (jmp + 8 * (i + 2 ^ k)) = ?G (v ! (jmp + 8 * i)) (v ! (jmp + 8 * (i + 2 ^ k)))"
    if "i < 64" "\<not> bit i k" for i
  proof -
    have "(i, i + 2 ^ k) \<in> set ps" using ps that by (auto simp: pairs_for_def)
    then have "(jmp + 8 * i, jmp + 8 * (i + 2 ^ k)) \<in> set ?ps" by force
    from fold_upd2_in [OF dist range this] show
      "?v ! (jmp + 8 * i) = ?F (v ! (jmp + 8 * i)) (v ! (jmp + 8 * (i + 2 ^ k)))"
      "?v ! (jmp + 8 * (i + 2 ^ k)) = ?G (v ! (jmp + 8 * i)) (v ! (jmp + 8 * (i + 2 ^ k)))"
      by simp_all
  qed
  have "block_bit jmp ?v (i, b) = block_bit jmp v (swp k (i, b))" if i: "i < 64" and b: "b < 64" for i b
  proof (cases "bit i k")
    case False
    then show ?thesis using pair(1) [OF i False] bit_swap_hi [OF m k b]
      by (auto simp: block_bit_def swp_def flip_bit_nat)
  next
    case True
    define i' where "i' = i - 2 ^ k"
    have ii: "i = i' + 2 ^ k" using bit_ge_pow [OF True] by (simp add: i'_def)
    have "flip_bit k i = i'" using True by (simp add: flip_bit_nat i'_def)
    then have nb: "\<not> bit i' k" using True by (metis bit_flip_bit_iff)
    have "i' < 64" using i ii by simp
    from pair(2) [OF this nb] show ?thesis using bit_swap_lo [OF m k b] True
      by (auto simp: block_bit_def swp_def flip_bit_nat ii)
  qed
  with out show ?thesis by (simp add: stage_moves_def v)
qed

text \<open>The literal masks and call lists of the source are the ones each stage needs.\<close>

lemma mask_forI: "list_all (\<lambda>b. bit m b = bit b k) [0..<64] \<Longrightarrow> mask_for k m"
  by (auto simp: mask_for_def list_all_iff)

lemma pairs_forI:
  assumes "ps = map (\<lambda>i. (i, i + 2 ^ k)) (filter (\<lambda>i. \<not> bit i k) [0..<64])" and "distinct (indices ps)"
  shows "pairs_for k ps"
  using assms by (auto simp: pairs_for_def)

lemma mask32: "mask_for 5 0xFFFFFFFF00000000"
  by (rule mask_forI) code_simp

lemma pairs32: "pairs_for 5 swaps32"
  by (rule pairs_forI) code_simp+

lemma mask16: "mask_for 4 0xFFFF0000FFFF0000"
  by (rule mask_forI) code_simp

lemma pairs16: "pairs_for 4 swaps16"
  by (rule pairs_forI) code_simp+

lemma mask8: "mask_for 3 0xFF00FF00FF00FF00"
  by (rule mask_forI) code_simp

lemma pairs8: "pairs_for 3 swaps8"
  by (rule pairs_forI) code_simp+

lemma mask4: "mask_for 2 0xF0F0F0F0F0F0F0F0"
  by (rule mask_forI) code_simp

lemma pairs4: "pairs_for 2 swaps4"
  by (rule pairs_forI) code_simp+

lemma mask2: "mask_for 1 0xcccccccccccccccc"
  by (rule mask_forI) code_simp

lemma pairs2: "pairs_for 1 swaps2"
  by (rule pairs_forI) code_simp+

lemma mask1: "mask_for 0 0xaaaaaaaaaaaaaaaa"
  by (rule mask_forI) code_simp

lemma pairs1: "pairs_for 0 swaps1"
  by (rule pairs_forI) code_simp+

lemmas stage_facts = mask32 mask16 mask8 mask4 mask2 mask1 pairs32 pairs16 pairs8 pairs4 pairs2 pairs1

lemma stage_moves_trans:
  assumes "stage_moves jmp f v v'" and "stage_moves jmp g v' v''"
    and "\<And>p. fst p < 64 \<Longrightarrow> snd p < 64 \<Longrightarrow> fst (g p) < 64 \<and> snd (g p) < 64"
  shows "stage_moves jmp (f \<circ> g) v v''"
proof -
  have "block_bit jmp v'' (i, b) = block_bit jmp v (f (g (i, b)))" if "i < 64" "b < 64" for i b
  proof -
    have "block_bit jmp v'' (i, b) = block_bit jmp v' (g (i, b))"
      using assms(2) that by (simp add: stage_moves_def)
    also have "\<dots> = block_bit jmp v (f (g (i, b)))"
      using assms(1) assms(3) [of "(i, b)"] that
      by (cases "g (i, b)") (simp add: stage_moves_def)
    finally show ?thesis .
  qed
  with assms(1,2) show ?thesis by (simp add: stage_moves_def)
qed

lemma swp_less64: "k < 6 \<Longrightarrow> fst p < 64 \<Longrightarrow> snd p < 64 \<Longrightarrow> fst (swp k p) < 64 \<and> snd (swp k p) < 64"
  using swp_less [of k 6 p] by simp

lemma stage_moves_length: "stage_moves jmp f v v' \<Longrightarrow> length v' = length v"
  by (simp add: stage_moves_def)

lemma swp_all6: "i < 64 \<Longrightarrow> b < 64 \<Longrightarrow> (swp 5 \<circ> swp 4 \<circ> swp 3 \<circ> swp 2 \<circ> swp 1 \<circ> swp 0) (i, b) = (b, i)"
  using swps_transpose [of "[0, 1, 2, 3, 4, 5]" 6 i b] by (force simp: lessThan_Suc numeral_eq_Suc)

lemma transpose64_moves:
  assumes "vblock * 512 + col + 512 \<le> length v + 7"
  shows "stage_moves (vblock * 512 + col) (\<lambda>(i, b). (b, i)) v (transpose64 v vblock col)"
proof -
  let ?j = "vblock * 512 + col"
  define v32 where "v32 = swap_stage ?j 0xFFFFFFFF00000000 32 swaps32 v"
  define v16 where "v16 = swap_stage ?j 0xFFFF0000FFFF0000 16 swaps16 v32"
  define v8 where "v8 = swap_stage ?j 0xFF00FF00FF00FF00 8 swaps8 v16"
  define v4 where "v4 = swap_stage ?j 0xF0F0F0F0F0F0F0F0 4 swaps4 v8"
  define v2 where "v2 = swap_stage ?j 0xcccccccccccccccc 2 swaps2 v4"
  define v1 where "v1 = swap_stage ?j 0xaaaaaaaaaaaaaaaa 1 swaps1 v2"
  have v1: "transpose64 v vblock col = v1"
    by (simp add: transpose64_def Let_def v32_def v16_def v8_def v4_def v2_def v1_def)
  have s5: "stage_moves ?j (swp 5) v v32"
    using swap_stage_moves [OF pairs32 mask32, of ?j v] assms by (simp add: v32_def)
  note l5 = stage_moves_length [OF s5]
  have "stage_moves ?j (swp 4) v32 v16"
    using swap_stage_moves [OF pairs16 mask16, of ?j v32] assms l5 by (simp add: v16_def)
  then have s4: "stage_moves ?j (swp 5 \<circ> swp 4) v v16"
    by (rule stage_moves_trans [OF s5]) (rule swp_less64, simp_all)
  note l4 = stage_moves_length [OF s4]
  have "stage_moves ?j (swp 3) v16 v8"
    using swap_stage_moves [OF pairs8 mask8, of ?j v16] assms l4 by (simp add: v8_def)
  then have s3: "stage_moves ?j (swp 5 \<circ> swp 4 \<circ> swp 3) v v8"
    by (rule stage_moves_trans [OF s4]) (rule swp_less64, simp_all)
  note l3 = stage_moves_length [OF s3]
  have "stage_moves ?j (swp 2) v8 v4"
    using swap_stage_moves [OF pairs4 mask4, of ?j v8] assms l3 by (simp add: v4_def)
  then have s2: "stage_moves ?j (swp 5 \<circ> swp 4 \<circ> swp 3 \<circ> swp 2) v v4"
    by (rule stage_moves_trans [OF s3]) (rule swp_less64, simp_all)
  note l2 = stage_moves_length [OF s2]
  have "stage_moves ?j (swp 1) v4 v2"
    using swap_stage_moves [OF pairs2 mask2, of ?j v4] assms l2 by (simp add: v2_def)
  then have s1: "stage_moves ?j (swp 5 \<circ> swp 4 \<circ> swp 3 \<circ> swp 2 \<circ> swp 1) v v2"
    by (rule stage_moves_trans [OF s2]) (rule swp_less64, simp_all)
  note l1 = stage_moves_length [OF s1]
  have "stage_moves ?j (swp 0) v2 v1"
    using swap_stage_moves [OF pairs1 mask1, of ?j v2] assms l1 by (simp add: v1_def)
  then have "stage_moves ?j (swp 5 \<circ> swp 4 \<circ> swp 3 \<circ> swp 2 \<circ> swp 1 \<circ> swp 0) v v1"
    by (rule stage_moves_trans [OF s1]) (rule swp_less64, simp_all)
  then show ?thesis using swp_all6 by (simp add: stage_moves_def v1)
qed

section \<open>The word stages\<close>

definition exchange :: "nat \<times> nat \<Rightarrow> BitVect \<Rightarrow> BitVect" where
  "exchange = upd2 (\<lambda>x y. y) (\<lambda>x y. x)"

lemma swap_range_exchange:
  assumes "a + n \<le> b" and "b + n \<le> length v"
  shows "swap_range a b n v = fold exchange (map (\<lambda>q. (a + q, b + q)) [0..<n]) v"
proof (rule nth_equalityI)
  let ?ps = "map (\<lambda>q. (a + q, b + q)) [0..<n]"
  show "length (swap_range a b n v) = length (fold exchange ?ps v)"
    using assms by (simp add: swap_range_def Let_def exchange_def)
  fix k assume "k < length (swap_range a b n v)"
  then have k: "k < length v" using assms by (simp add: swap_range_def Let_def)
  have mem: "i \<in> set (indices ?ps) \<longleftrightarrow> (a \<le> i \<and> i < a + n) \<or> (b \<le> i \<and> i < b + n)" for i
    by (induction n) (auto simp: indices_def less_Suc_eq)
  have dist: "distinct (indices ?ps)"
  proof -
    have "distinct (indices (map (\<lambda>q. (a + q, b + q)) [0..<m])) \<and>
      set (indices (map (\<lambda>q. (a + q, b + q)) [0..<m])) \<subseteq> {a..<a + m} \<union> {b..<b + m}" if "m \<le> n" for m
      using that
    proof (induction m)
      case (Suc m)
      then show ?case using assms(1) by (auto simp: indices_def)
    qed simp
    then show ?thesis by blast
  qed
  have range: "set (indices ?ps) \<subseteq> {..<length v}"
  proof
    fix i assume "i \<in> set (indices ?ps)"
    then have "i < a + n \<or> i < b + n" unfolding mem by blast
    with assms show "i \<in> {..<length v}" by auto
  qed
  have sr: "swap_range a b n v ! k =
    (if b \<le> k \<and> k < b + n then v ! (a + (k - b)) else if a \<le> k \<and> k < a + n then v ! (b + (k - a)) else v ! k)"
    using assms k by (auto simp: swap_range_def Let_def nth_write_at)
  consider "a \<le> k" "k < a + n" | "b \<le> k" "k < b + n" | "k \<notin> set (indices ?ps)" using mem by blast
  then show "swap_range a b n v ! k = fold exchange ?ps v ! k"
  proof cases
    case 1
    then have "(k, b + (k - a)) \<in> set ?ps" by (auto intro!: image_eqI [of _ _ "k - a"])
    from fold_upd2_in [OF dist range this] 1 show ?thesis using sr assms by (simp add: exchange_def)
  next
    case 2
    then have "(a + (k - b), k) \<in> set ?ps" by (auto intro!: image_eqI [of _ _ "k - b"])
    from fold_upd2_in [OF dist range this] 2 show ?thesis using sr by (simp add: exchange_def)
  next
    case 3
    then have "\<not> (a \<le> k \<and> k < a + n)" "\<not> (b \<le> k \<and> k < b + n)" using mem by blast+
    then have "swap_range a b n v ! k = v ! k" unfolding sr by auto
    with 3 show ?thesis by (simp add: exchange_def fold_upd2_out)
  qed
qed

lemma length_exchange [simp]: "length (exchange p v) = length v"
  by (simp add: exchange_def)

lemma length_fold_exchange [simp]: "length (fold exchange ps v) = length v"
  by (simp add: exchange_def)

text \<open>
  The words exchanged by one round of the stage of width \<open>2^h\<close>, as offsets from the first word
  of its row: they lie in rows that are multiples of \<open>2^h\<close>, and each word whose row number and
  word number differ in the stage's bit is exchanged with the one that has both bits flipped.
\<close>

definition offsets_ok :: "nat \<Rightarrow> (nat \<times> nat) list \<Rightarrow> bool" where
  "offsets_ok h ps \<longleftrightarrow> distinct (indices ps) \<and>
     list_all (\<lambda>i. i div 8 + 2 ^ h \<le> 512 \<and> (i div 8) mod 2 ^ h = 0 \<and> bit (i div 8) h \<noteq> bit (i mod 8) (h - 6)) (indices ps) \<and>
     list_all (\<lambda>u. list_all (\<lambda>q. even u \<longrightarrow> bit q (h - 6) \<longrightarrow>
        (8 * (2 ^ h * u) + q, 8 * (2 ^ h * (u + 1)) + (q - 2 ^ (h - 6))) \<in> set ps) [0..<8]) [0..<2 ^ (9 - h)]"

definition swq :: "nat \<Rightarrow> nat \<times> nat \<Rightarrow> nat \<times> nat" where
  "swq h p = (if bit (fst p) h = bit (snd p) (h - 6) then p
     else (flip_bit h (fst p), flip_bit (h - 6) (snd p)))"

definition word_at :: "BitVect \<Rightarrow> nat \<times> nat \<Rightarrow> u64" where
  "word_at v p = v ! (8 * fst p + snd p)"

definition row_pairs :: "nat \<Rightarrow> (nat \<times> nat) list \<Rightarrow> (nat \<times> nat) list" where
  "row_pairs j ps = map (\<lambda>(a, b). (8 * j + 1 * a, 8 * j + 1 * b)) ps"

lemma row_round:
  assumes ok: "offsets_ok h ps" and h: "6 \<le> h" "h \<le> 8" and j: "j < 2 ^ h" and len: "length v = 4096"
    and r: "r < 512" and q: "q < 8"
  shows "word_at (fold exchange (row_pairs j ps) v) (r, q) =
    (if r mod 2 ^ h = j then word_at v (swq h (r, q)) else word_at v (r, q))"
proof -
  let ?ps = "row_pairs j ps"
  let ?u = "r div 2 ^ h"
  have ind: "indices ?ps = map (\<lambda>i. 8 * j + i) (indices ps)"
    unfolding row_pairs_def indices_map_offset by simp
  have dist: "distinct (indices ?ps)" using ok by (auto simp: ind offsets_ok_def distinct_map)
  have off: "i div 8 + 2 ^ h \<le> 512" "(i div 8) mod 2 ^ h = 0" "bit (i div 8) h \<noteq> bit (i mod 8) (h - 6)"
    if "i \<in> set (indices ps)" for i
    using ok that by (auto simp: offsets_ok_def list_all_iff)
  have range: "set (indices ?ps) \<subseteq> {..<length v}"
  proof
    fix n assume "n \<in> set (indices ?ps)"
    then obtain i where i: "i \<in> set (indices ps)" "n = 8 * j + i" by (auto simp: ind)
    then show "n \<in> {..<length v}" using off(1) [OF i(1)] j len by auto
  qed
  have odd_u: "bit r h \<longleftrightarrow> odd ?u" by (simp add: bit_nat_def)
  have uj: "r = 2 ^ h * ?u + r mod 2 ^ h" by simp
  have u: "?u < 2 ^ (9 - h)" using r h by (intro less_mult_imp_div_less) (simp flip: power_add)
  have pair: "(8 * (2 ^ h * u) + q, 8 * (2 ^ h * (u + 1)) + (q - 2 ^ (h - 6))) \<in> set ps"
    if "even u" "bit q (h - 6)" "u < 2 ^ (9 - h)" "q < 8" for u q
    using ok that by (auto simp: offsets_ok_def list_all_iff)
  have unchanged: "word_at (fold exchange ?ps v) (r, q) = word_at v (r, q)" if "8 * r + q \<notin> set (indices ?ps)"
    using that by (simp add: word_at_def exchange_def fold_upd2_out)
  have decode: "i div 8 = r - j" "i mod 8 = q" "j \<le> r" if "8 * r + q = 8 * j + i" for i
  proof -
    show jr: "j \<le> r" using that q by linarith
    have "i = 8 * (r - j) + q" using that jr by (simp add: right_diff_distrib')
    then show "i div 8 = r - j" "i mod 8 = q" using q by simp_all
  qed
  show ?thesis
  proof (cases "r mod 2 ^ h = j")
    case False
    have "8 * r + q \<notin> set (indices ?ps)"
    proof
      assume "8 * r + q \<in> set (indices ?ps)"
      then obtain i where i: "i \<in> set (indices ps)" "8 * r + q = 8 * j + i" by (auto simp: ind)
      have "r = i div 8 + j" using decode [OF i(2)] by simp
      then have "r mod 2 ^ h = j" using off(2) [OF i(1)] j by (metis add.left_neutral mod_add_left_eq mod_less)
      with False show False by simp
    qed
    with False unchanged show ?thesis by simp
  next
    case True
    then have rj: "r = 2 ^ h * ?u + j" using uj by simp
    consider (same) "bit r h = bit q (h - 6)" | (up) "\<not> bit r h" "bit q (h - 6)" | (down) "bit r h" "\<not> bit q (h - 6)"
      by blast
    then show ?thesis
    proof cases
      case same
      have "8 * r + q \<notin> set (indices ?ps)"
      proof
        assume "8 * r + q \<in> set (indices ?ps)"
        then obtain i where i: "i \<in> set (indices ps)" "8 * r + q = 8 * j + i" by (auto simp: ind)
        have "i div 8 = 2 ^ h * ?u" "i mod 8 = q" using decode [OF i(2)] rj by simp_all
        then have "bit (i div 8) h = bit r h" by (simp add: odd_u bit_nat_def)
        with off(3) [OF i(1)] \<open>i mod 8 = q\<close> same show False by simp
      qed
      with True same unchanged show ?thesis by (simp add: swq_def)
    next
      case up
      have "(8 * j + (8 * (2 ^ h * ?u) + q), 8 * j + (8 * (2 ^ h * (?u + 1)) + (q - 2 ^ (h - 6)))) \<in> set ?ps"
        using pair [OF _ up(2) u q] up(1) odd_u unfolding row_pairs_def by force
      moreover have "8 * j + (8 * (2 ^ h * ?u) + q) = 8 * r + q" using rj by simp
      moreover have "8 * j + (8 * (2 ^ h * (?u + 1)) + (q - 2 ^ (h - 6))) = 8 * (r + 2 ^ h) + (q - 2 ^ (h - 6))"
        using rj by (simp add: algebra_simps)
      ultimately have "(8 * r + q, 8 * (r + 2 ^ h) + (q - 2 ^ (h - 6))) \<in> set ?ps" by metis
      from fold_upd2_in [OF dist range this] True up show ?thesis
        by (simp add: word_at_def exchange_def swq_def flip_bit_nat)
    next
      case down
      define w where "w = ?u - 1"
      have uw: "?u = Suc w" using down(1) odd_u by (cases ?u) (simp_all add: w_def)
      have qq: "bit (q + 2 ^ (h - 6)) (h - 6)" "q + 2 ^ (h - 6) < 8"
      proof -
        have f: "flip_bit (h - 6) q = q + 2 ^ (h - 6)" using down(2) by (simp add: flip_bit_nat)
        have "bit (flip_bit (h - 6) q) (h - 6)" using down(2) by (simp add: bit_flip_bit_iff)
        then show "bit (q + 2 ^ (h - 6)) (h - 6)" by (simp add: f)
        have "\<forall>k\<ge>3. \<not> bit (flip_bit (h - 6) q) k"
          using h q less_pow_iff_bits [of q 3] by (auto simp: bit_flip_bit_iff)
        then have "flip_bit (h - 6) q < 2 ^ 3" unfolding less_pow_iff_bits .
        then show "q + 2 ^ (h - 6) < 8" by (simp add: f)
      qed
      have "even w" using down(1) odd_u uw by simp
      have "w < 2 ^ (9 - h)" using u uw by simp
      have "(8 * j + (8 * (2 ^ h * w) + (q + 2 ^ (h - 6))), 8 * j + (8 * (2 ^ h * (w + 1)) + (q + 2 ^ (h - 6) - 2 ^ (h - 6)))) \<in> set ?ps"
        using pair [OF \<open>even w\<close> qq(1) \<open>w < 2 ^ (9 - h)\<close> qq(2)] unfolding row_pairs_def by force
      moreover have "8 * j + (8 * (2 ^ h * (w + 1)) + (q + 2 ^ (h - 6) - 2 ^ (h - 6))) = 8 * r + q"
        using rj uw by simp
      moreover have "8 * j + (8 * (2 ^ h * w) + (q + 2 ^ (h - 6))) = 8 * (r - 2 ^ h) + (q + 2 ^ (h - 6))"
        using rj uw by (simp add: algebra_simps)
      ultimately have "(8 * (r - 2 ^ h) + (q + 2 ^ (h - 6)), 8 * r + q) \<in> set ?ps" by metis
      from fold_upd2_in [OF dist range this] True down show ?thesis
        by (simp add: word_at_def exchange_def swq_def flip_bit_nat)
    qed
  qed
qed

lemma length_row_loop: "length (fold (\<lambda>j v. fold exchange (row_pairs j ps) v) js v) = length v"
  by (induction js arbitrary: v) auto

lemma swq_mod:
  assumes "6 \<le> h" "h \<le> 8" "r < 512" "q < 8"
  shows "fst (swq h (r, q)) mod 2 ^ h = r mod 2 ^ h" and "fst (swq h (r, q)) < 512" and "snd (swq h (r, q)) < 8"
proof -
  have "take_bit h (flip_bit h r) = take_bit h r" by (simp add: take_bit_flip_bit_eq)
  then show "fst (swq h (r, q)) mod 2 ^ h = r mod 2 ^ h" by (auto simp: swq_def take_bit_eq_mod)
  have "\<forall>j\<ge>9. \<not> bit r j" "\<forall>j\<ge>3. \<not> bit q j"
    using assms less_pow_iff_bits [of r 9] less_pow_iff_bits [of q 3] by simp_all
  with assms have "\<forall>j\<ge>9. \<not> bit (flip_bit h r) j" "\<forall>j\<ge>3. \<not> bit (flip_bit (h - 6) q) j"
    by (auto simp: bit_flip_bit_iff)
  then have "flip_bit h r < 2 ^ 9" "flip_bit (h - 6) q < 2 ^ 3"
    by (simp_all only: less_pow_iff_bits)
  then show "fst (swq h (r, q)) < 512" "snd (swq h (r, q)) < 8" using assms by (auto simp: swq_def)
qed

lemma row_loop:
  assumes ok: "offsets_ok h ps" and h: "6 \<le> h" "h \<le> 8" and n: "n \<le> 2 ^ h" and len: "length v = 4096"
    and r: "r < 512" and q: "q < 8"
  shows "word_at (fold (\<lambda>j v. fold exchange (row_pairs j ps) v) [0..<n] v) (r, q) =
    (if r mod 2 ^ h < n then word_at v (swq h (r, q)) else word_at v (r, q))"
  using n r q
proof (induction n arbitrary: r q)
  case (Suc n)
  let ?v = "fold (\<lambda>j v. fold exchange (row_pairs j ps) v) [0..<n] v"
  have "word_at (fold exchange (row_pairs n ps) ?v) (r, q) =
    (if r mod 2 ^ h = n then word_at ?v (swq h (r, q)) else word_at ?v (r, q))"
    using Suc.prems len by (intro row_round [OF ok h]) (auto simp: length_row_loop)
  moreover have "word_at ?v (swq h (r, q)) = word_at v (swq h (r, q))" if "r mod 2 ^ h = n"
    using Suc.IH [of "fst (swq h (r, q))" "snd (swq h (r, q))"] swq_mod [OF h Suc.prems(2,3)] Suc.prems(1) that
    by simp
  moreover have "word_at ?v (r, q) = (if r mod 2 ^ h < n then word_at v (swq h (r, q)) else word_at v (r, q))"
    using Suc.prems by (intro Suc.IH) auto
  ultimately show ?case by (auto simp: less_Suc_eq)
qed simp

text \<open>The bit at row \<open>r\<close> and column \<open>c\<close> of the block.\<close>

definition vect_bit :: "BitVect \<Rightarrow> nat \<times> nat \<Rightarrow> bool" where
  "vect_bit v p = bit (v ! (8 * fst p + snd p div 64)) (snd p mod 64)"

lemma swp_swq:
  assumes "6 \<le> h"
  shows "fst (swp h (r, c)) = fst (swq h (r, c div 64))" and "snd (swp h (r, c)) div 64 = snd (swq h (r, c div 64))"
    and "snd (swp h (r, c)) mod 64 = c mod 64"
proof -
  have d: "x div 64 = drop_bit 6 x" "x mod 64 = take_bit 6 x" for x :: nat
    by (simp_all add: drop_bit_eq_div take_bit_eq_mod)
  have b: "bit (drop_bit 6 c) (h - 6) = bit c h" using assms by (simp add: bit_drop_bit_eq)
  have f: "drop_bit 6 (flip_bit h c) = flip_bit (h - 6) (drop_bit 6 c)"
    using assms by (intro bit_eqI) (auto simp: bit_drop_bit_eq bit_flip_bit_iff)
  have t: "take_bit 6 (flip_bit h c) = take_bit 6 c"
    using assms by (simp add: take_bit_flip_bit_eq)
  show "fst (swp h (r, c)) = fst (swq h (r, c div 64))" "snd (swp h (r, c)) div 64 = snd (swq h (r, c div 64))"
    "snd (swp h (r, c)) mod 64 = c mod 64"
    unfolding d by (auto simp: swp_def swq_def b f t)
qed

lemma word_stage:
  assumes ok: "offsets_ok h ps" and h: "6 \<le> h" "h \<le> 8" and len: "length v = 4096" and r: "r < 512" and c: "c < 512"
  shows "vect_bit (fold (\<lambda>j v. fold exchange (row_pairs j ps) v) [0..<2 ^ h] v) (r, c) = vect_bit v (swp h (r, c))"
proof -
  let ?v = "fold (\<lambda>j v. fold exchange (row_pairs j ps) v) [0..<2 ^ h] v"
  have "word_at ?v (r, c div 64) = word_at v (swq h (r, c div 64))"
    using row_loop [OF ok h order_refl len r, of "c div 64"] c by simp
  then show ?thesis using swp_swq [OF h(1), of r c] by (simp add: vect_bit_def word_at_def)
qed

definition offsets256 :: "(nat \<times> nat) list" where
  "offsets256 = [(4, 2048), (5, 2049), (6, 2050), (7, 2051)]"

definition offsets128 :: "(nat \<times> nat) list" where
  "offsets128 = [(2, 1024), (3, 1025), (6, 1028), (7, 1029), (2050, 3072), (2051, 3073), (2054, 3076), (2055, 3077)]"

lemma upt_literals:
  "[0..<1] = [0::nat]" "[0..<2] = [0::nat, 1]" "[0..<4] = [0::nat, 1, 2, 3]" "[0..<8] = [0::nat, 1, 2, 3, 4, 5, 6, 7]"
  by code_simp+

lemma offsets_ok: "offsets_ok 8 offsets256" "offsets_ok 7 offsets128" "offsets_ok 6 swaps64_words"
  by (simp_all add: offsets_ok_def offsets256_def offsets128_def swaps64_words_def bit_nat_def upt_literals)

lemma swap_rows_exchange:
  assumes "length v = 4096"
  shows "i < 256 \<Longrightarrow> swap_rows256 i v = fold exchange (row_pairs i offsets256) v"
    and "i < 128 \<Longrightarrow> swap_rows128 i v = fold exchange (row_pairs i offsets128) v"
    and "i < 64 \<Longrightarrow> swap_rows64 i v = fold exchange (row_pairs i swaps64_words) v"
proof -
  show "swap_rows256 i v = fold exchange (row_pairs i offsets256) v" if "i < 256"
    using that assms
    by (simp add: swap_rows256_def Let_def swap_range_exchange row_pairs_def offsets256_def upt_literals algebra_simps)
  show "swap_rows128 i v = fold exchange (row_pairs i offsets128) v" if "i < 128"
    using that assms
    by (simp add: swap_rows128_def Let_def swap_range_exchange row_pairs_def offsets128_def upt_literals
        numeral_3_eq_3 algebra_simps)
  have "fold (\<lambda>(a, b) v. swap_range (i * 8 + a) (i * 8 + b) 1 v) ps v = fold exchange (row_pairs i ps) v"
    if "\<forall>(a, b)\<in>set ps. a < b \<and> i * 8 + b < 4096" "length v = 4096" for ps v
    using that
  proof (induction ps arbitrary: v)
    case (Cons p ps)
    then show ?case
      by (cases p) (simp add: row_pairs_def swap_range_exchange mult.commute)
  qed (simp add: row_pairs_def)
  from this [of swaps64_words v] show "swap_rows64 i v = fold exchange (row_pairs i swaps64_words) v" if "i < 64"
    using that assms by (simp add: swap_rows64_def swaps64_words_def)
qed

lemma fold_rows_cong:
  assumes "\<And>i v. i < n \<Longrightarrow> length v = 4096 \<Longrightarrow> f i v = fold exchange (row_pairs i ps) v" and "length v = 4096"
  shows "fold f [0..<n] v = fold (\<lambda>j v. fold exchange (row_pairs j ps) v) [0..<n] v"
  using assms by (induction n) (auto simp: length_row_loop)

section \<open>transpose transposes\<close>

lemma fold_product:
  "fold (\<lambda>x s. fold (\<lambda>y s. f s x y) ys s) xs s = fold (\<lambda>(x, y) s. f s x y) (List.product xs ys) s"
  by (induction xs arbitrary: s) (auto simp: fold_map comp_def)

text \<open>Exchanging the low six bits of the two coordinates: what all the calls of \<open>transpose64\<close> do.\<close>

definition low_swap :: "nat \<times> nat \<Rightarrow> nat \<times> nat" where
  "low_swap p = (64 * (fst p div 64) + snd p mod 64, 64 * (snd p div 64) + fst p mod 64)"

lemma low_swap_div: "fst (low_swap p) div 64 = fst p div 64" "snd (low_swap p) div 64 = snd p div 64"
  by (simp_all add: low_swap_def)

lemma low_swap_less:
  assumes "r < 512" and "c < 512"
  shows "fst (low_swap (r, c)) < 512" and "snd (low_swap (r, c)) < 512"
proof -
  have "64 * (x div 64) + y mod 64 < 512" if "x < 512" for x y :: nat
  proof -
    have "x div 64 < 8" using that by simp
    moreover have "y mod 64 < 64" by simp
    ultimately show ?thesis by linarith
  qed
  with assms show "fst (low_swap (r, c)) < 512" "snd (low_swap (r, c)) < 512"
    by (simp_all add: low_swap_def)
qed

lemma bit_join64: "bit (64 * (x div 64) + y mod 64) j \<longleftrightarrow> (if j < 6 then bit y j else bit x j)" for x y :: nat
proof -
  have "64 * (x div 64) + y mod 64 = push_bit 6 (drop_bit 6 x) + take_bit 6 y"
    by (simp add: push_bit_eq_mult drop_bit_eq_div take_bit_eq_mod)
  also have "\<dots> = push_bit 6 (drop_bit 6 x) OR take_bit 6 y"
  proof (rule disjunctive_add_eq_or)
    show "push_bit 6 (drop_bit 6 x) AND take_bit 6 y = 0"
      by (rule bit_eqI) (auto simp: bit_simps)
  qed
  finally have "bit (64 * (x div 64) + y mod 64) j = bit (push_bit 6 (drop_bit 6 x) OR take_bit 6 y) j" by simp
  also have "\<dots> = (if j < 6 then bit y j else bit x j)" by (auto simp: bit_simps)
  finally show ?thesis .
qed

lemma low_swap_swps: "low_swap p = fold swp [0, 1, 2, 3, 4, 5] p"
proof -
  have low: "j \<in> set [0, 1, 2, 3, 4, 5] \<longleftrightarrow> j < 6" for j :: nat by auto
  have d: "distinct [0, 1, 2, 3, 4, 5 :: nat]" by simp
  show ?thesis
    by (rule prod_eqI; rule bit_eqI) (simp_all only: low_swap_def bit_swps [OF d] low bit_join64 fst_conv snd_conv)
qed

lemma index8_inj: "8 * a + q = 8 * b + p \<Longrightarrow> q < 8 \<Longrightarrow> p < 8 \<Longrightarrow> a = b \<and> q = p" for a b p q :: nat
  by presburger

lemma transpose64_bit:
  assumes "length v = 4096" and "blk < 8" and "col < 8" and "r < 512" and "c < 512"
  shows "vect_bit (transpose64 v blk col) (r, c) =
    (if (r div 64, c div 64) = (blk, col) then vect_bit v (low_swap (r, c)) else vect_bit v (r, c))"
proof -
  let ?j = "blk * 512 + col"
  have moves: "stage_moves ?j (\<lambda>(i, b). (b, i)) v (transpose64 v blk col)"
    using assms by (intro transpose64_moves) simp
  show ?thesis
  proof (cases "(r div 64, c div 64) = (blk, col)")
    case True
    have r: "8 * r + c div 64 = ?j + 8 * (r mod 64)"
    proof -
      have "8 * r = 8 * (64 * (r div 64) + r mod 64)" by simp
      also have "\<dots> = 512 * (r div 64) + 8 * (r mod 64)" by (simp only: distrib_left)
      finally show ?thesis using True by simp
    qed
    have "vect_bit (transpose64 v blk col) (r, c) = block_bit ?j (transpose64 v blk col) (r mod 64, c mod 64)"
      by (simp add: vect_bit_def block_bit_def r)
    also have "\<dots> = block_bit ?j v (c mod 64, r mod 64)"
      using moves unfolding stage_moves_def by (auto dest!: spec [of _ "r mod 64"] spec [of _ "c mod 64"])
    also have "\<dots> = vect_bit v (low_swap (r, c))"
      using True by (auto simp: vect_bit_def block_bit_def low_swap_def algebra_simps)
    finally show ?thesis using True by simp
  next
    case False
    have "8 * r + c div 64 \<notin> (\<lambda>i. ?j + 8 * i) ` {..<64}"
    proof
      assume "8 * r + c div 64 \<in> (\<lambda>i. ?j + 8 * i) ` {..<64}"
      then obtain i where i: "i < 64" "8 * r + c div 64 = col + 8 * (64 * blk + i)" by auto
      have "c div 64 < 8" using assms(5) by simp
      then have "r = 64 * blk + i" "c div 64 = col"
        using index8_inj [of r "c div 64" "64 * blk + i" col] i(2) assms(3) by simp_all
      with i(1) False show False by simp
    qed
    with moves have "transpose64 v blk col ! (8 * r + c div 64) = v ! (8 * r + c div 64)"
      unfolding stage_moves_def by blast
    with False show ?thesis by (auto simp: vect_bit_def)
  qed
qed

lemma length_transpose64: "length v = 4096 \<Longrightarrow> blk < 8 \<Longrightarrow> col < 8 \<Longrightarrow> length (transpose64 v blk col) = 4096"
  using transpose64_moves [of blk col v] by (simp add: stage_moves_def)

lemma transpose64_cells:
  assumes "distinct cs" and "set cs \<subseteq> {..<8} \<times> {..<8}" and "length v = 4096" and "r < 512" and "c < 512"
  shows "vect_bit (fold (\<lambda>(x, y) v. transpose64 v x y) cs v) (r, c) =
    (if (r div 64, c div 64) \<in> set cs then vect_bit v (low_swap (r, c)) else vect_bit v (r, c)) \<and>
    length (fold (\<lambda>(x, y) v. transpose64 v x y) cs v) = 4096"
  using assms
proof (induction cs arbitrary: v)
  case (Cons x cs)
  obtain blk col where x: "x = (blk, col)" by (cases x)
  with Cons.prems have b: "blk < 8" "col < 8" by auto
  let ?v = "transpose64 v blk col"
  have len: "length ?v = 4096" using Cons.prems(3) b by (rule length_transpose64)
  note low = low_swap_less [OF Cons.prems(4,5)]
  have step: "vect_bit ?v p = (if (fst p div 64, snd p div 64) = (blk, col) then vect_bit v (low_swap p) else vect_bit v p)"
    if "fst p < 512" "snd p < 512" for p
    using transpose64_bit [OF Cons.prems(3) b that] by simp
  have IH: "vect_bit (fold (\<lambda>(x, y) v. transpose64 v x y) cs ?v) (r, c) =
    (if (r div 64, c div 64) \<in> set cs then vect_bit ?v (low_swap (r, c)) else vect_bit ?v (r, c)) \<and>
    length (fold (\<lambda>(x, y) v. transpose64 v x y) cs ?v) = 4096"
    using Cons.prems len by (intro Cons.IH) auto
  show ?case
    using IH step [of "(r, c)"] step [OF low] Cons.prems x by (auto simp: low_swap_div)
qed simp

lemma row_loops_eq:
  assumes "length v = 4096"
  shows "fold swap_rows256 [0..<256] v = fold (\<lambda>j v. fold exchange (row_pairs j offsets256) v) [0..<2 ^ 8] v"
    and "fold swap_rows128 [0..<128] v = fold (\<lambda>j v. fold exchange (row_pairs j offsets128) v) [0..<2 ^ 7] v"
    and "fold swap_rows64 [0..<64] v = fold (\<lambda>j v. fold exchange (row_pairs j swaps64_words) v) [0..<2 ^ 6] v"
  using fold_rows_cong [OF swap_rows_exchange(1) assms, of 256] fold_rows_cong [OF swap_rows_exchange(2) assms, of 128]
    fold_rows_cong [OF swap_rows_exchange(3) assms, of 64]
  by simp_all

lemma length_swap_rows:
  assumes "length v = 4096"
  shows "length (fold swap_rows256 [0..<256] v) = 4096" "length (fold swap_rows128 [0..<128] v) = 4096"
    "length (fold swap_rows64 [0..<64] v) = 4096"
  unfolding row_loops_eq [OF assms] by (simp_all only: length_row_loop assms)

lemma transpose_eq:
  "transpose v = fold (\<lambda>(x, y) v. transpose64 v x y) (List.product [0..<8] [0..<8])
     (fold swap_rows64 [0..<64] (fold swap_rows128 [0..<128] (fold swap_rows256 [0..<256] v)))"
  by (simp add: transpose_def fold_product Let_def)

lemma cells:
  "distinct (List.product [0..<8] [0..<8 :: nat])" "set (List.product [0..<8] [0..<8]) = {..<8} \<times> {..<8 :: nat}"
  by (auto simp: distinct_product)

lemmas cells_transposed = transpose64_cells [OF cells(1) equalityD1 [OF cells(2)], unfolded cells(2)]

lemma length_transpose: "length v = 4096 \<Longrightarrow> length (transpose v) = 4096"
  unfolding transpose_eq by (rule cells_transposed [where r = 0 and c = 0, THEN conjunct2]) (simp_all only: length_swap_rows)

lemma transpose_bit:
  assumes len: "length v = 4096" and "r < 512" and "c < 512"
  shows "vect_bit (transpose v) (r, c) = vect_bit v (c, r)"
proof -
  define v1 where "v1 = fold swap_rows256 [0..<256] v"
  define v2 where "v2 = fold swap_rows128 [0..<128] v1"
  define v3 where "v3 = fold swap_rows64 [0..<64] v2"
  have l: "length v1 = 4096" "length v2 = 4096" "length v3 = 4096"
    using len by (simp_all add: v1_def v2_def v3_def length_swap_rows)
  have s8: "vect_bit v1 p = vect_bit v (swp 8 p)" if "fst p < 512" "snd p < 512" for p
    using word_stage [OF offsets_ok(1) _ _ len that] by (simp add: v1_def row_loops_eq(1) [OF len])
  have s7: "vect_bit v2 p = vect_bit v1 (swp 7 p)" if "fst p < 512" "snd p < 512" for p
    using word_stage [OF offsets_ok(2) _ _ l(1) that] by (simp add: v2_def row_loops_eq(2) [OF l(1)])
  have s6: "vect_bit v3 p = vect_bit v2 (swp 6 p)" if "fst p < 512" "snd p < 512" for p
    using word_stage [OF offsets_ok(3) _ _ l(2) that] by (simp add: v3_def row_loops_eq(3) [OF l(2)])
  have less: "fst (swp k p) < 512 \<and> snd (swp k p) < 512" if "k < 9" "fst p < 512" "snd p < 512" for k p
    using swp_less [of k 9 p] that by simp
  note low = low_swap_less [OF assms(2,3)]
  have "r div 64 < 8" "c div 64 < 8" using assms(2,3) by simp_all
  then have "vect_bit (transpose v) (r, c) = vect_bit v3 (low_swap (r, c))"
    using cells_transposed [OF l(3) assms(2,3)]
    by (simp add: transpose_eq v1_def v2_def v3_def)
  also have "\<dots> = vect_bit v (swp 8 (swp 7 (swp 6 (low_swap (r, c)))))"
    using low by (simp add: s6 s7 s8 less)
  also have "swp 8 (swp 7 (swp 6 (low_swap (r, c)))) = fold swp [0, 1, 2, 3, 4, 5, 6, 7, 8] (r, c)"
    by (simp add: low_swap_swps)
  also have "\<dots> = (c, r)"
    by (rule swps_transpose [where n = 9]) (use assms in auto)
  finally show ?thesis .
qed

end
