(* ===== verification/Transpose.thy ===== *)
theory Transpose
  imports BitVect
begin

text \<open>
  The conversions between byte matrices and 512 by 512 blocks and the two concurrent
  transpositions of \<open>internal/util\<close>. A matrix is a list of rows, each a byte slice; bit \<open>c\<close> of
  a row is bit \<open>c mod 8\<close> of its byte \<open>c div 8\<close>. A tall matrix has rows of 64 bytes and a multiple
  of 512 rows; a wide one has 512 rows of a multiple of 64 bytes.
\<close>

unbundle bit_operations_syntax

section \<open>Conversions, generic variant\<close>

definition unravelTall :: "BitVect \<Rightarrow> bytes list \<Rightarrow> nat \<Rightarrow> BitVect result" where
  "unravelTall b matrix idx =
     fold_res (\<lambda>i. fold_res (\<lambda>j b.
         bind_res (go_nth matrix (512 * idx + i)) (\<lambda>row.
         bind_res (go_slice row (j * 8) ((j + 1) * 8)) (\<lambda>s.
         go_set b (i * 8 + j) (le_get64 s))))
       [0..<8]) [0..<512] b"

definition unravelWide :: "BitVect \<Rightarrow> bytes list \<Rightarrow> nat \<Rightarrow> BitVect result" where
  "unravelWide b matrix idx =
     fold_res (\<lambda>i. fold_res (\<lambda>j b.
         bind_res (go_nth matrix i) (\<lambda>row.
         bind_res (go_slice row (idx * 64 + j * 8) (idx * 64 + (j + 1) * 8)) (\<lambda>s.
         go_set b (i * 8 + j) (le_get64 s))))
       [0..<8]) [0..<512] b"

definition ravelToTall :: "BitVect \<Rightarrow> bytes list \<Rightarrow> nat \<Rightarrow> bytes list result" where
  "ravelToTall b matrix idx =
     fold_res (\<lambda>i. fold_res (\<lambda>j m.
         bind_res (go_nth m (idx * 512 + i)) (\<lambda>row.
         bind_res (go_slice row (j * 8) ((j + 1) * 8)) (\<lambda>_.
         bind_res (go_nth b (i * 8 + j)) (\<lambda>w.
         go_set m (idx * 512 + i) (write_at row (j * 8) (le_put64 w))))))
       [0..<8]) [0..<512] matrix"

definition ravelToWide :: "BitVect \<Rightarrow> bytes list \<Rightarrow> nat \<Rightarrow> bytes list result" where
  "ravelToWide b matrix idx =
     fold_res (\<lambda>i. fold_res (\<lambda>j m.
         bind_res (go_nth m i) (\<lambda>row.
         bind_res (go_slice row (idx * 64 + j * 8) (idx * 64 + (j + 1) * 8)) (\<lambda>_.
         bind_res (go_nth b (i * 8 + j)) (\<lambda>w.
         go_set m i (write_at row (idx * 64 + j * 8) (le_put64 w))))))
       [0..<8]) [0..<512] matrix"

section \<open>Conversions, amd64 variant\<close>

text \<open>\<open>copy(dst, src)\<close> writes the first \<open>min(len(dst), len(src))\<close> elements of \<open>src\<close>.\<close>

definition unravelTall_amd64 :: "unsafe_cast \<Rightarrow> BitVect \<Rightarrow> bytes list \<Rightarrow> nat \<Rightarrow> BitVect result" where
  "unravelTall_amd64 u b matrix idx =
     fold_res (\<lambda>i b.
         bind_res (go_nth matrix (512 * idx + i)) (\<lambda>row.
         Inr (write_at b (i * 8) (take 8 (cast u row)))))
       [0..<512] b"

definition unravelWide_amd64 :: "unsafe_cast \<Rightarrow> BitVect \<Rightarrow> bytes list \<Rightarrow> nat \<Rightarrow> BitVect result" where
  "unravelWide_amd64 u b matrix idx =
     fold_res (\<lambda>i b.
         bind_res (go_nth matrix i) (\<lambda>row.
         bind_res (go_slice row (idx * 64) (64 * idx + 64)) (\<lambda>s.
         Inr (write_at b (i * 8) (take 8 (cast u s))))))
       [0..<512] b"

definition ravelToTall_amd64 :: "unsafe_cast \<Rightarrow> BitVect \<Rightarrow> bytes list \<Rightarrow> nat \<Rightarrow> bytes list result" where
  "ravelToTall_amd64 u b matrix idx =
     fold_res (\<lambda>i m.
         bind_res (go_nth m (idx * 512 + i)) (\<lambda>row.
         go_set m (idx * 512 + i) (write_at row 0 (take (length row) (bytes_of u (sub_list b (i * 8) 8))))))
       [0..<512] matrix"

definition ravelToWide_amd64 :: "unsafe_cast \<Rightarrow> BitVect \<Rightarrow> bytes list \<Rightarrow> nat \<Rightarrow> bytes list result" where
  "ravelToWide_amd64 u b matrix idx =
     fold_res (\<lambda>i m.
         bind_res (go_nth m i) (\<lambda>row.
         bind_res (go_slice row (idx * 64) ((idx + 1) * 64)) (\<lambda>d.
         go_set m i (write_at row (idx * 64) (take (length d) (bytes_of u (sub_list b (i * 8) 8)))))))
       [0..<512] matrix"

section \<open>The worker pools\<close>

text \<open>
  The build selects the variant of the conversions; \<open>unravel\<close> and \<open>ravel\<close> stand for the selected
  ones. A worker has a BitVect of its own and goes through its blocks, writing to the shared output
  matrix; \<open>ord\<close> is the order in which the workers run.
\<close>

definition transpose_block ::
  "(BitVect \<Rightarrow> bytes list \<Rightarrow> nat \<Rightarrow> BitVect result) \<Rightarrow> (BitVect \<Rightarrow> bytes list \<Rightarrow> nat \<Rightarrow> bytes list result) \<Rightarrow>
   bytes list \<Rightarrow> nat \<Rightarrow> BitVect \<times> bytes list \<Rightarrow> (BitVect \<times> bytes list) result" where
  "transpose_block unravel ravel matrix i = (\<lambda>(b, out).
     bind_res (unravel b matrix i) (\<lambda>b.
     let b = transpose b in
     bind_res (ravel b out i) (\<lambda>out. Inr (b, out))))"

definition transpose_worker ::
  "(BitVect \<Rightarrow> bytes list \<Rightarrow> nat \<Rightarrow> BitVect result) \<Rightarrow> (BitVect \<Rightarrow> bytes list \<Rightarrow> nat \<Rightarrow> bytes list result) \<Rightarrow>
   bytes list \<Rightarrow> nat \<Rightarrow> nat \<Rightarrow> nat \<Rightarrow> bytes list \<Rightarrow> bytes list result" where
  "transpose_worker unravel ravel matrix nworkers nblks w out =
     (let workerResp = nblks div nworkers; step = workerResp * w;
          blocks = (if w = nworkers - 1 then [step..<nblks] else [step..<step + workerResp])
      in bind_res (fold_res (transpose_block unravel ravel matrix) blocks (zero_vect, out)) (\<lambda>(b, out). Inr out))"

definition ConcurrentTransposeTall_with ::
  "(BitVect \<Rightarrow> bytes list \<Rightarrow> nat \<Rightarrow> BitVect result) \<Rightarrow> (BitVect \<Rightarrow> bytes list \<Rightarrow> nat \<Rightarrow> bytes list result) \<Rightarrow>
   nat \<Rightarrow> nat list \<Rightarrow> bytes list \<Rightarrow> bytes list result" where
  "ConcurrentTransposeTall_with unravel ravel nworkers ord matrix =
     (if length matrix mod bitVectWidth \<noteq> 0 then Inl RowsNotMultipleOf512
      else let nblks = length matrix div bitVectWidth;
               out = replicate bitVectWidth (replicate (length matrix div 8) 0)
           in fold_res (transpose_worker unravel ravel matrix nworkers nblks) ord out)"

definition ConcurrentTransposeWide_with ::
  "(BitVect \<Rightarrow> bytes list \<Rightarrow> nat \<Rightarrow> BitVect result) \<Rightarrow> (BitVect \<Rightarrow> bytes list \<Rightarrow> nat \<Rightarrow> bytes list result) \<Rightarrow>
   nat \<Rightarrow> nat list \<Rightarrow> bytes list \<Rightarrow> bytes list result" where
  "ConcurrentTransposeWide_with unravel ravel nworkers ord matrix =
     bind_res (go_nth matrix 0) (\<lambda>row0.
       if length row0 mod 64 \<noteq> 0 then Inl ColsNotMultipleOf64
       else let nblks = length row0 div 64;
                out = replicate (length row0 * 8) (replicate 64 0)
            in fold_res (transpose_worker unravel ravel matrix nworkers nblks) ord out)"

definition ConcurrentTransposeTall :: "nat \<Rightarrow> nat list \<Rightarrow> bytes list \<Rightarrow> bytes list result" where
  "ConcurrentTransposeTall = ConcurrentTransposeTall_with unravelTall ravelToWide"

definition ConcurrentTransposeWide :: "nat \<Rightarrow> nat list \<Rightarrow> bytes list \<Rightarrow> bytes list result" where
  "ConcurrentTransposeWide = ConcurrentTransposeWide_with unravelWide ravelToTall"

definition ConcurrentTransposeTall_amd64 :: "unsafe_cast \<Rightarrow> nat \<Rightarrow> nat list \<Rightarrow> bytes list \<Rightarrow> bytes list result" where
  "ConcurrentTransposeTall_amd64 u = ConcurrentTransposeTall_with (unravelTall_amd64 u) (ravelToWide_amd64 u)"

definition ConcurrentTransposeWide_amd64 :: "unsafe_cast \<Rightarrow> nat \<Rightarrow> nat list \<Rightarrow> bytes list \<Rightarrow> bytes list result" where
  "ConcurrentTransposeWide_amd64 u = ConcurrentTransposeWide_with (unravelWide_amd64 u) (ravelToTall_amd64 u)"

section \<open>Closed forms of the conversions\<close>

text \<open>
  The block read at row \<open>base\<close> and byte \<open>off\<close> of a matrix, and the matrix after a block has been
  written there. The tall conversions have \<open>base = 512 * idx\<close> and \<open>off = 0\<close>, the wide ones
  \<open>base = 0\<close> and \<open>off = 64 * idx\<close>.
\<close>

definition rows_of :: "nat \<Rightarrow> bytes list \<Rightarrow> bool" where
  "rows_of n m \<longleftrightarrow> (\<forall>row\<in>set m. length row = n)"

definition words_read :: "bytes list \<Rightarrow> nat \<Rightarrow> nat \<Rightarrow> BitVect" where
  "words_read m base off = map (\<lambda>n. le_get64 (sub_list (m ! (base + n div 8)) (off + 8 * (n mod 8)) 8)) [0..<4096]"

definition row_bytes :: "BitVect \<Rightarrow> nat \<Rightarrow> bytes" where
  "row_bytes b i = concat (map le_put64 (sub_list b (8 * i) 8))"

definition rows_written :: "BitVect \<Rightarrow> bytes list \<Rightarrow> nat \<Rightarrow> nat \<Rightarrow> bytes list" where
  "rows_written b m base off =
     map (\<lambda>r. if base \<le> r \<and> r < base + 512 then write_at (m ! r) off (row_bytes b (r - base)) else m ! r)
       [0..<length m]"

lemma length_words_read [simp]: "length (words_read m base off) = 4096"
  by (simp add: words_read_def)

lemma length_rows_written [simp]: "length (rows_written b m base off) = length m"
  by (simp add: rows_written_def)

lemma rows_of_nth [simp]: "rows_of n m \<Longrightarrow> r < length m \<Longrightarrow> length (m ! r) = n"
  by (simp add: rows_of_def)

lemma rows_ofI: "(\<And>r. r < length m \<Longrightarrow> length (m ! r) = n) \<Longrightarrow> rows_of n m"
  by (auto simp: rows_of_def in_set_conv_nth)

lemma rows_of_replicate [simp]: "rows_of n (replicate k (replicate n x))"
  by (simp add: rows_of_def)

lemma rows_of_update [simp]: "rows_of n m \<Longrightarrow> length row = n \<Longrightarrow> rows_of n (m[i := row])"
  by (auto simp: rows_of_def dest: set_update_subset_insert [THEN subsetD])

lemma length_row_bytes [simp]:
  assumes "length b = 4096" and "i < 512"
  shows "length (row_bytes b i) = 64"
proof -
  have "8 * i + 8 \<le> length b" using assms by simp
  then show ?thesis
    unfolding row_bytes_def by (subst length_concat_uniform [of _ 8]) auto
qed

lemma rows_of_rows_written:
  assumes "rows_of l m" and "length b = 4096" and "off + 64 \<le> l"
  shows "rows_of l (rows_written b m base off)"
  using assms by (intro rows_ofI) (auto simp: rows_written_def)

lemma write_at_append:
  "k + length xs + length ys \<le> length zs \<Longrightarrow>
   write_at (write_at zs k xs) (k + length xs) ys = write_at zs k (xs @ ys)"
  by (cases xs) (auto simp: write_at_def min_def ac_simps)

lemma fold_res_nested:
  "fold_res (\<lambda>i. fold_res (g i) [0..<8]) [0..<n] s = fold_res (\<lambda>k. g (k div 8) (k mod 8)) [0..<8 * n] s"
proof (induction n arbitrary: s)
  case (Suc n)
  have "[0..<8 * Suc n] = [0..<8 * n] @ map (\<lambda>j. 8 * n + j) [0..<8]"
    using map_add_upt [of "8 * n" 8] upt_add_eq_append [of 0 "8 * n" 8] by (simp add: add.commute del: upt_Suc)
  moreover have "fold_res (\<lambda>k. g (k div 8) (k mod 8)) (map (\<lambda>j. 8 * n + j) [0..<8]) s = fold_res (g n) [0..<8] s" for s
    unfolding fold_res_map by (intro fold_res_cong) simp
  ultimately show ?case by (simp add: upt_Suc_append fold_res_append Suc.IH bind_res_def split: sum.splits del: upt_Suc)
qed simp

text \<open>Reading: the loop sets every word of the block.\<close>

lemma read_words:
  assumes "length b = 4096"
    and "\<And>k b'. k < 4096 \<Longrightarrow> length b' = 4096 \<Longrightarrow>
      g (k div 8) (k mod 8) b' = Inr (b'[k := words_read m base off ! k])"
  shows "fold_res (\<lambda>i. fold_res (g i) [0..<8]) [0..<512] b = Inr (words_read m base off)"
proof -
  let ?w = "words_read m base off"
  have "fold_res (\<lambda>k. g (k div 8) (k mod 8)) [0..<4096] b = Inr (fold (\<lambda>k b. b[k := ?w ! k]) [0..<4096] b)"
    using assms by (intro fold_res_pure [where P = "\<lambda>b. length b = 4096", THEN conjunct1]) auto
  moreover have "fold (\<lambda>k b. b[k := ?w ! k]) [0..<4096] b = ?w"
    using assms(1) nth_fold_update_upt [of 4096 b _ "\<lambda>k _. ?w ! k"] by (intro nth_equalityI) auto
  ultimately show ?thesis by (simp add: fold_res_nested)
qed

text \<open>Writing: the loop rewrites 64 bytes of each of 512 rows.\<close>

lemma write_rows:
  assumes "length b = 4096" and "rows_of l m" and "base + 512 \<le> length m" and "off + 64 \<le> l"
    and "\<And>i m'. i < 512 \<Longrightarrow> length m' = length m \<Longrightarrow> rows_of l m' \<Longrightarrow>
      f i m' = Inr (m'[base + i := write_at (m' ! (base + i)) off (row_bytes b i)])"
  shows "fold_res f [0..<512] m = Inr (rows_written b m base off)"
proof -
  let ?g = "\<lambda>i m. m[base + i := write_at (m ! (base + i)) off (row_bytes b i)]"
  have "fold_res f [0..<512] m = Inr (fold ?g [0..<512] m)"
    using assms by (intro fold_res_pure [where P = "\<lambda>m'. length m' = length m \<and> rows_of l m'", THEN conjunct1]) auto
  moreover have "fold ?g [0..<512] m = rows_written b m base off"
    using assms(3) nth_fold_update_base [of base 512 m _ "\<lambda>i x. write_at x off (row_bytes b i)"]
    by (intro nth_equalityI) (auto simp: rows_written_def)
  ultimately show ?thesis by simp
qed

lemma row_bytes_upt:
  assumes "length b = 4096" and "i < 512"
  shows "row_bytes b i = concat (map (\<lambda>j. le_put64 (b ! (i * 8 + j))) [0..<8])"
proof -
  have "sub_list b (8 * i) 8 = map (\<lambda>j. b ! (i * 8 + j)) [0..<8]"
    using assms by (intro nth_equalityI) (auto simp: mult.commute)
  then show ?thesis by (simp add: row_bytes_def comp_def)
qed

lemma write_row_words:
  assumes "r < length m" and "off + 8 * n \<le> length (m ! r)"
    and "\<And>j m'. j < n \<Longrightarrow> length m' = length m \<Longrightarrow> length (m' ! r) = length (m ! r) \<Longrightarrow>
      f j m' = Inr (m'[r := write_at (m' ! r) (off + 8 * j) (le_put64 (w j))])"
  shows "fold_res f [0..<n] m = Inr (m[r := write_at (m ! r) off (concat (map (\<lambda>j. le_put64 (w j)) [0..<n]))])"
  using assms
proof (induction n)
  case 0
  then show ?case by (simp add: write_at_def)
next
  case (Suc n)
  let ?c = "concat (map (\<lambda>j. le_put64 (w j)) [0..<n])"
  have len: "length ?c = 8 * n"
    by (subst length_concat_uniform [of _ 8]) auto
  have "write_at (write_at (m ! r) off ?c) (off + 8 * n) (le_put64 (w n)) = write_at (m ! r) off (?c @ le_put64 (w n))"
    using write_at_append [of off ?c "le_put64 (w n)" "m ! r"] Suc.prems(2) by (simp add: len)
  with Suc show ?case by (simp add: fold_res_append len)
qed

lemmas word_row_simps = words_read_def go_slice_sub_list

lemma unravelTall_eq:
  assumes "length b = 4096" and "rows_of 64 m" and "512 * idx + 512 \<le> length m"
  shows "unravelTall b m idx = Inr (words_read m (512 * idx) 0)"
  unfolding unravelTall_def using assms(1)
proof (rule read_words)
  fix k :: nat and b' :: BitVect assume k: "k < 4096" "length b' = 4096"
  then have "k div 8 < 512" by simp
  then have "512 * idx + k div 8 < length m" and "k mod 8 * 8 + 8 \<le> 64" using assms(3) by simp_all
  with k assms(2) show "bind_res (go_nth m (512 * idx + k div 8)) (\<lambda>row.
      bind_res (go_slice row (k mod 8 * 8) ((k mod 8 + 1) * 8)) (\<lambda>s. go_set b' (k div 8 * 8 + k mod 8) (le_get64 s))) =
      Inr (b'[k := words_read m (512 * idx) 0 ! k])"
    by (simp add: word_row_simps mult.commute)
qed

lemma unravelWide_eq:
  assumes "length b = 4096" and "rows_of l m" and "length m = 512" and "64 * idx + 64 \<le> l"
  shows "unravelWide b m idx = Inr (words_read m 0 (64 * idx))"
  unfolding unravelWide_def using assms(1)
proof (rule read_words)
  fix k :: nat and b' :: BitVect assume k: "k < 4096" "length b' = 4096"
  then have "k div 8 < length m" and "idx * 64 + (k mod 8 * 8 + 8) \<le> l" using assms(3,4) by simp_all
  with k assms(2) show "bind_res (go_nth m (k div 8)) (\<lambda>row.
      bind_res (go_slice row (idx * 64 + k mod 8 * 8) (idx * 64 + (k mod 8 + 1) * 8)) (\<lambda>s.
        go_set b' (k div 8 * 8 + k mod 8) (le_get64 s))) =
      Inr (b'[k := words_read m 0 (64 * idx) ! k])"
    by (simp add: word_row_simps mult.commute)
qed

lemma ravelToTall_eq:
  assumes "length b = 4096" and "rows_of 64 m" and "512 * idx + 512 \<le> length m"
  shows "ravelToTall b m idx = Inr (rows_written b m (512 * idx) 0)"
  unfolding ravelToTall_def
proof (rule write_rows [OF assms])
  fix i :: nat and m' :: "bytes list" assume i: "i < 512" and m': "length m' = length m" "rows_of 64 m'"
  then have "idx * 512 + i < length m'" using assms(3) by simp
  with i m' assms(1) show "fold_res (\<lambda>j m. bind_res (go_nth m (idx * 512 + i)) (\<lambda>row.
        bind_res (go_slice row (j * 8) ((j + 1) * 8)) (\<lambda>_. bind_res (go_nth b (i * 8 + j)) (\<lambda>w.
        go_set m (idx * 512 + i) (write_at row (j * 8) (le_put64 w)))))) [0..<8] m' =
      Inr (m'[512 * idx + i := write_at (m' ! (512 * idx + i)) 0 (row_bytes b i)])"
    by (subst write_row_words [where off = 0 and r = "512 * idx + i" and w = "\<lambda>j. b ! (i * 8 + j)"])
      (simp_all add: row_bytes_upt go_slice_sub_list mult.commute del: upt_Suc)
qed simp

lemma ravelToWide_eq:
  assumes "length b = 4096" and "rows_of l m" and "length m = 512" and "64 * idx + 64 \<le> l"
  shows "ravelToWide b m idx = Inr (rows_written b m 0 (64 * idx))"
  unfolding ravelToWide_def
proof (rule write_rows [OF assms(1,2)])
  fix i :: nat and m' :: "bytes list" assume i: "i < 512" and m': "length m' = length m" "rows_of l m'"
  with assms show "fold_res (\<lambda>j m. bind_res (go_nth m i) (\<lambda>row.
        bind_res (go_slice row (idx * 64 + j * 8) (idx * 64 + (j + 1) * 8)) (\<lambda>_. bind_res (go_nth b (i * 8 + j)) (\<lambda>w.
        go_set m i (write_at row (idx * 64 + j * 8) (le_put64 w)))))) [0..<8] m' =
      Inr (m'[0 + i := write_at (m' ! (0 + i)) (64 * idx) (row_bytes b i)])"
    by (subst write_row_words [where off = "64 * idx" and r = i and w = "\<lambda>j. b ! (i * 8 + j)"])
      (simp_all add: row_bytes_upt go_slice_sub_list mult.commute del: upt_Suc)
qed (use assms in simp_all)

text \<open>The amd64 variant copies eight words at a time through the cast view.\<close>

lemma fold_write_rows:
  assumes "length W = 4096" and "length b = 4096" and "n \<le> 512"
  shows "fold (\<lambda>i b. write_at b (i * 8) (sub_list W (i * 8) 8)) [0..<n] b = take (n * 8) W @ drop (n * 8) b"
  using assms
proof (induction n)
  case (Suc n)
  have "take (Suc n * 8) W = take (n * 8) W @ sub_list W (n * 8) 8"
    using take_add [of "n * 8" 8 W] by (simp add: sub_list_def add.commute)
  with Suc show ?case by (simp add: write_at_def add.commute)
qed simp

lemma copy_words:
  assumes "length b = 4096" and "length W = 4096"
    and "\<And>i b'. i < 512 \<Longrightarrow> length b' = 4096 \<Longrightarrow> f i b' = Inr (write_at b' (i * 8) (sub_list W (i * 8) 8))"
  shows "fold_res f [0..<512] b = Inr W"
proof -
  have "fold_res f [0..<512] b = Inr (fold (\<lambda>i b. write_at b (i * 8) (sub_list W (i * 8) 8)) [0..<512] b)"
    using assms by (intro fold_res_pure [where P = "\<lambda>b. length b = 4096", THEN conjunct1]) auto
  with assms fold_write_rows [of W b 512] show ?thesis by simp
qed

lemma cast_row:
  assumes "casts_le u" and "base + i < length m" and "off + 64 \<le> length (m ! (base + i))" and "i < 512"
  shows "cast u (sub_list (m ! (base + i)) off 64) = sub_list (words_read m base off) (i * 8) 8"
proof (rule nth_equalityI)
  fix n assume "n < length (cast u (sub_list (m ! (base + i)) off 64))"
  with assms have n: "n < 8" by (simp add: casts_leD(1))
  with assms have "sub_list (sub_list (m ! (base + i)) off 64) (8 * n) 8 = sub_list (m ! (base + i)) (off + 8 * n) 8"
    by (intro nth_equalityI) (auto simp: add.assoc)
  with n assms show "cast u (sub_list (m ! (base + i)) off 64) ! n = sub_list (words_read m base off) (i * 8) 8 ! n"
    by (simp add: casts_leD(1,2) words_read_def)
qed (use assms in \<open>simp add: casts_leD(1)\<close>)

lemma unravelTall_amd64_eq:
  assumes "casts_le u" and "length b = 4096" and "rows_of 64 m" and "512 * idx + 512 \<le> length m"
  shows "unravelTall_amd64 u b m idx = Inr (words_read m (512 * idx) 0)"
  unfolding unravelTall_amd64_def
proof (rule copy_words [OF assms(2) length_words_read])
  fix i :: nat and b' :: BitVect assume i: "i < 512"
  then have r: "512 * idx + i < length m" using assms(4) by simp
  then have "length (m ! (512 * idx + i)) = 64" using assms(3) by simp
  then have "sub_list (m ! (512 * idx + i)) 0 64 = m ! (512 * idx + i)" by (simp add: sub_list_def)
  with r i assms cast_row [OF assms(1) r, of 0] show "bind_res (go_nth m (512 * idx + i)) (\<lambda>row.
      Inr (write_at b' (i * 8) (take 8 (cast u row)))) =
      Inr (write_at b' (i * 8) (sub_list (words_read m (512 * idx) 0) (i * 8) 8))"
    by simp
qed

lemma unravelWide_amd64_eq:
  assumes "casts_le u" and "length b = 4096" and "rows_of l m" and "length m = 512" and "64 * idx + 64 \<le> l"
  shows "unravelWide_amd64 u b m idx = Inr (words_read m 0 (64 * idx))"
  unfolding unravelWide_amd64_def
proof (rule copy_words [OF assms(2) length_words_read])
  fix i :: nat and b' :: BitVect assume i: "i < 512"
  with assms cast_row [OF assms(1), of 0 i m "64 * idx"] show "bind_res (go_nth m i) (\<lambda>row.
      bind_res (go_slice row (idx * 64) (64 * idx + 64)) (\<lambda>s. Inr (write_at b' (i * 8) (take 8 (cast u s))))) =
      Inr (write_at b' (i * 8) (sub_list (words_read m 0 (64 * idx)) (i * 8) 8))"
    by (simp add: go_slice_sub_list mult.commute)
qed

lemma ravelToTall_amd64_eq:
  assumes "casts_le u" and "length b = 4096" and "rows_of 64 m" and "512 * idx + 512 \<le> length m"
  shows "ravelToTall_amd64 u b m idx = Inr (rows_written b m (512 * idx) 0)"
  unfolding ravelToTall_amd64_def
proof (rule write_rows [OF assms(2-4)])
  fix i :: nat and m' :: "bytes list" assume i: "i < 512" and m': "length m' = length m" "rows_of 64 m'"
  have "bytes_of u (sub_list b (i * 8) 8) = row_bytes b i"
    by (simp add: casts_leD(4) [OF assms(1)] row_bytes_def mult.commute)
  with i m' assms show "bind_res (go_nth m' (idx * 512 + i)) (\<lambda>row. go_set m' (idx * 512 + i)
        (write_at row 0 (take (length row) (bytes_of u (sub_list b (i * 8) 8))))) =
      Inr (m'[512 * idx + i := write_at (m' ! (512 * idx + i)) 0 (row_bytes b i)])"
    by (simp add: mult.commute)
qed simp

lemma ravelToWide_amd64_eq:
  assumes "casts_le u" and "length b = 4096" and "rows_of l m" and "length m = 512" and "64 * idx + 64 \<le> l"
  shows "ravelToWide_amd64 u b m idx = Inr (rows_written b m 0 (64 * idx))"
  unfolding ravelToWide_amd64_def
proof (rule write_rows [OF assms(2,3)])
  fix i :: nat and m' :: "bytes list" assume i: "i < 512" and m': "length m' = length m" "rows_of l m'"
  have "bytes_of u (sub_list b (i * 8) 8) = row_bytes b i"
    by (simp add: casts_leD(4) [OF assms(1)] row_bytes_def mult.commute)
  with i m' assms show "bind_res (go_nth m' i) (\<lambda>row. bind_res (go_slice row (idx * 64) ((idx + 1) * 64)) (\<lambda>d.
        go_set m' i (write_at row (idx * 64) (take (length d) (bytes_of u (sub_list b (i * 8) 8)))))) =
      Inr (m'[0 + i := write_at (m' ! (0 + i)) (64 * idx) (row_bytes b i)])"
    by (simp add: go_slice_sub_list mult.commute)
qed (use assms in simp_all)

section \<open>Bits of matrices\<close>

definition mat_bit :: "bytes list \<Rightarrow> nat \<Rightarrow> nat \<Rightarrow> bool" where
  "mat_bit m r c = bit (m ! r ! (c div 8)) (c mod 8)"

text \<open>The transpose of a bit matrix with \<open>cols\<close> columns and a multiple of eight rows.\<close>

definition bit_transpose :: "nat \<Rightarrow> bytes list \<Rightarrow> bytes list" where
  "bit_transpose cols m =
     map (\<lambda>r. map (\<lambda>k. horner_sum of_bool 2 (map (\<lambda>j. mat_bit m (8 * k + j) r) [0..<8])) [0..<length m div 8]) [0..<cols]"

lemma length_bit_transpose [simp]: "length (bit_transpose cols m) = cols"
  by (simp add: bit_transpose_def)

lemma rows_of_bit_transpose [simp]: "rows_of (length m div 8) (bit_transpose cols m)"
  by (auto simp: rows_of_def bit_transpose_def)

lemma mat_bit_transpose:
  assumes "r < cols" and "c < 8 * (length m div 8)"
  shows "mat_bit (bit_transpose cols m) r c = mat_bit m c r"
proof -
  have "c div 8 < length m div 8" using assms(2) by simp
  with assms(1) have "bit_transpose cols m ! r ! (c div 8) =
      horner_sum of_bool 2 (map (\<lambda>j. mat_bit m (8 * (c div 8) + j) r) [0..<8])"
    by (simp add: bit_transpose_def del: upt_Suc)
  then show ?thesis
    by (subst mat_bit_def) (simp add: bit_horner_sum_bit_iff del: upt_Suc)
qed

lemma matrix_eqI:
  assumes "length m = length m'" and "rows_of l m" and "rows_of l m'"
    and "\<And>r c. r < length m \<Longrightarrow> c < 8 * l \<Longrightarrow> mat_bit m r c = mat_bit m' r c"
  shows "m = m'"
proof (rule nth_equalityI [OF assms(1)])
  fix r assume r: "r < length m"
  show "m ! r = m' ! r"
  proof (rule nth_equalityI)
    fix k assume "k < length (m ! r)"
    with r assms have k: "k < l" by simp
    show "m ! r ! k = m' ! r ! k"
    proof (rule bit_eqI)
      fix n assume "possible_bit TYPE(byte) n"
      then have "n < 8" by (simp add: possible_bit_word)
      with k have "mat_bit m r (8 * k + n) = mat_bit m' r (8 * k + n)" by (intro assms(4) [OF r]) simp
      with \<open>n < 8\<close> show "bit (m ! r ! k) n = bit (m' ! r ! k) n" by (simp add: mat_bit_def)
    qed
  qed (use r assms in simp)
qed

lemma bit_index:
  fixes c off :: nat
  shows "off + 8 * (c div 64) + c mod 64 div 8 = (8 * off + c) div 8"
    and "c mod 64 mod 8 = c mod 8" and "c mod 64 div 8 < 8"
    and "c div 8 div 8 = c div 64" and "8 * (c div 8 mod 8) + c mod 8 = c mod 64"
    and "8 * off \<le> c \<Longrightarrow> c div 8 - off = (c - 8 * off) div 8"
    and "8 * off \<le> c \<Longrightarrow> c mod 8 = (c - 8 * off) mod 8"
proof -
  have c: "c mod 64 = 8 * (c div 8 mod 8) + c mod 8" "c div 64 = c div 8 div 8"
    using mod_mult2_eq [of c 8 8] div_mult2_eq [of c 8 8] by simp_all
  show "off + 8 * (c div 64) + c mod 64 div 8 = (8 * off + c) div 8" by (simp add: c)
  show "c mod 64 mod 8 = c mod 8" "c mod 64 div 8 < 8" "c div 8 div 8 = c div 64"
      "8 * (c div 8 mod 8) + c mod 8 = c mod 64"
    by (simp_all add: c)
  assume "8 * off \<le> c"
  then obtain d where "c = 8 * off + d" using le_Suc_ex by blast
  then show "c div 8 - off = (c - 8 * off) div 8" "c mod 8 = (c - 8 * off) mod 8" by simp_all
qed

lemma vect_bit_words_read:
  assumes "rows_of l m" and "base + r < length m" and "off + 64 \<le> l" and "r < 512" and "c < 512"
  shows "vect_bit (words_read m base off) (r, c) = mat_bit m (base + r) (8 * off + c)"
proof -
  let ?n = "8 * r + c div 64"
  have n: "?n < 4096" "?n div 8 = r" "?n mod 8 = c div 64" using assms(4,5) by auto
  have "off + 8 * (c div 64) + c mod 64 div 8 < l" using assms(3,5) bit_index(1) [of off c] by linarith
  then have "c mod 64 div 8 < l - (off + 8 * (c div 64))" "off + c div 8 < l"
    using bit_index(1) [of off c] by linarith+
  moreover have "length (m ! (base + r)) = l" using assms by simp
  ultimately show ?thesis using n bit_index(3) [of c]
    by (simp add: vect_bit_def words_read_def codec_simps mat_bit_def bit_index(1,2))
qed

lemma row_bytes_bit:
  assumes "length b = 4096" and "r < 512" and "c < 512"
  shows "bit (row_bytes b r ! (c div 8)) (c mod 8) = vect_bit b (r, c)"
proof -
  have e: "c div 64 < 8" "8 * r + c div 64 < 4096" using assms(2,3) by linarith+
  have "row_bytes b r ! (c div 8) = map le_put64 (sub_list b (8 * r) 8) ! (c div 8 div 8) ! (c div 8 mod 8)"
    unfolding row_bytes_def using assms by (intro nth_concat_uniform) auto
  then show ?thesis using assms e by (simp add: codec_simps vect_bit_def bit_index(4,5))
qed

lemma mat_bit_rows_written:
  assumes "rows_of l m" and "length b = 4096" and "r < length m" and "c < 8 * l" and "off + 64 \<le> l"
  shows "mat_bit (rows_written b m base off) r c =
    (if base \<le> r \<and> r < base + 512 \<and> 8 * off \<le> c \<and> c < 8 * off + 512
     then vect_bit b (r - base, c - 8 * off) else mat_bit m r c)"
proof (cases "base \<le> r \<and> r < base + 512")
  case True
  let ?k = "c div 8"
  have k: "?k < l" "length (m ! r) = l" using assms by auto
  from True have "r - base < 512" by linarith
  then have len: "length (row_bytes b (r - base)) = 64" using assms(2) by simp
  have eq: "rows_written b m base off ! r ! ?k =
      (if off \<le> ?k \<and> ?k < off + 64 then row_bytes b (r - base) ! (?k - off) else m ! r ! ?k)"
    using True assms(3,5) k len by (simp add: rows_written_def nth_write_at)
  have in_iff: "off \<le> ?k \<and> ?k < off + 64 \<longleftrightarrow> 8 * off \<le> c \<and> c < 8 * off + 512" by linarith
  show ?thesis
  proof (cases "8 * off \<le> c \<and> c < 8 * off + 512")
    case T: True
    then have "bit (row_bytes b (r - base) ! (?k - off)) (c mod 8) = vect_bit b (r - base, c - 8 * off)"
      using row_bytes_bit [OF assms(2) \<open>r - base < 512\<close>, of "c - 8 * off"] bit_index(6,7) [of off c]
      by (simp add: less_diff_conv2)
    with T True eq in_iff show ?thesis by (simp add: mat_bit_def)
  next
    case False
    with True eq in_iff show ?thesis by (auto simp: mat_bit_def)
  qed
next
  case False
  with assms(3) show ?thesis by (auto simp: mat_bit_def rows_written_def)
qed

section \<open>Correctness of the worker pools\<close>

text \<open>Transposing the blocks of a tall matrix into a wide one, and conversely, in any order.\<close>

definition tall_block :: "bytes list \<Rightarrow> nat \<Rightarrow> bytes list \<Rightarrow> bytes list" where
  "tall_block m i out = rows_written (transpose (words_read m (512 * i) 0)) out 0 (64 * i)"

definition wide_block :: "bytes list \<Rightarrow> nat \<Rightarrow> bytes list \<Rightarrow> bytes list" where
  "wide_block m i out = rows_written (transpose (words_read m 0 (64 * i))) out (512 * i) 0"

lemma block_index:
  fixes c i :: nat
  shows "512 * i \<le> c \<and> c < 512 * i + 512 \<longleftrightarrow> c div 512 = i"
  by auto

lemma tall_block_bit:
  assumes "rows_of 64 m" and "length m = 512 * n" and "i < n"
    and "length out = 512" and "rows_of (64 * n) out" and "r < 512" and "c < 512 * n"
  shows "mat_bit (tall_block m i out) r c = (if c div 512 = i then mat_bit m c r else mat_bit out r c)"
proof -
  have i: "64 * i + 64 \<le> 64 * n" "512 * i + 512 \<le> length m" using assms(2,3) by linarith+
  have "mat_bit (tall_block m i out) r c =
      (if c div 512 = i then vect_bit (transpose (words_read m (512 * i) 0)) (r, c - 512 * i) else mat_bit out r c)"
    unfolding tall_block_def using assms i(1) block_index [of i c]
    by (subst mat_bit_rows_written [of "64 * n"]) (auto simp: length_transpose)
  moreover have "vect_bit (transpose (words_read m (512 * i) 0)) (r, c - 512 * i) = mat_bit m c r" if "c div 512 = i"
  proof -
    have c: "512 * i \<le> c" "c - 512 * i < 512" using block_index [of i c] that by linarith+
    then show ?thesis using assms i(2)
      by (simp add: transpose_bit vect_bit_words_read [of 64])
  qed
  ultimately show ?thesis by simp
qed

lemma wide_block_bit:
  assumes "rows_of (64 * n) m" and "length m = 512" and "i < n"
    and "length out = 512 * n" and "rows_of 64 out" and "r < 512 * n" and "c < 512"
  shows "mat_bit (wide_block m i out) r c = (if r div 512 = i then mat_bit m c r else mat_bit out r c)"
proof -
  have i: "64 * i + 64 \<le> 64 * n" using assms(3) by linarith
  have "mat_bit (wide_block m i out) r c =
      (if r div 512 = i then vect_bit (transpose (words_read m 0 (64 * i))) (r - 512 * i, c) else mat_bit out r c)"
    unfolding wide_block_def using assms i block_index [of i r]
    by (subst mat_bit_rows_written [of 64]) (auto simp: length_transpose)
  moreover have "vect_bit (transpose (words_read m 0 (64 * i))) (r - 512 * i, c) = mat_bit m c r" if "r div 512 = i"
  proof -
    have r: "512 * i \<le> r" "r - 512 * i < 512" using block_index [of i r] that by linarith+
    then show ?thesis using assms i
      by (simp add: transpose_bit vect_bit_words_read [of "64 * n"])
  qed
  ultimately show ?thesis by simp
qed

lemma tall_block_shape:
  assumes "i < n" and "length out = 512" and "rows_of (64 * n) out"
  shows "length (tall_block m i out) = 512" and "rows_of (64 * n) (tall_block m i out)"
  using assms by (auto simp: tall_block_def length_transpose intro!: rows_of_rows_written)

lemma wide_block_shape:
  assumes "rows_of 64 out"
  shows "length (wide_block m i out) = length out" and "rows_of 64 (wide_block m i out)"
  using assms by (auto simp: wide_block_def length_transpose intro!: rows_of_rows_written)

lemma tall_blocks:
  assumes "rows_of 64 m" and "length m = 512 * n" and "set bs \<subseteq> {..<n}"
    and "length out = 512" and "rows_of (64 * n) out" and "r < 512" and "c < 512 * n"
  shows "mat_bit (fold (tall_block m) bs out) r c = (if c div 512 \<in> set bs then mat_bit m c r else mat_bit out r c)"
  using assms(3-5)
proof (induction bs arbitrary: out)
  case (Cons i bs)
  then show ?case
    using tall_block_bit [OF assms(1,2) _ Cons.prems(2,3) assms(6,7), of i] tall_block_shape [of i n out m]
    by auto
qed simp

lemma wide_blocks:
  assumes "rows_of (64 * n) m" and "length m = 512" and "set bs \<subseteq> {..<n}"
    and "length out = 512 * n" and "rows_of 64 out" and "r < 512 * n" and "c < 512"
  shows "mat_bit (fold (wide_block m) bs out) r c = (if r div 512 \<in> set bs then mat_bit m c r else mat_bit out r c)"
  using assms(3-5)
proof (induction bs arbitrary: out)
  case (Cons i bs)
  then show ?case
    using wide_block_bit [OF assms(1,2) _ Cons.prems(2,3) assms(6,7), of i] wide_block_shape [of out m i]
    by auto
qed simp

lemma tall_blocks_shape:
  assumes "set bs \<subseteq> {..<n}" and "length out = 512" and "rows_of (64 * n) out"
  shows "length (fold (tall_block m) bs out) = 512 \<and> rows_of (64 * n) (fold (tall_block m) bs out)"
  using assms by (induction bs arbitrary: out) (auto simp: tall_block_shape)

lemma wide_blocks_shape:
  assumes "rows_of 64 out"
  shows "length (fold (wide_block m) bs out) = length out \<and> rows_of 64 (fold (wide_block m) bs out)"
  using assms by (induction bs arbitrary: out) (auto simp: wide_block_shape)

definition worker_blocks :: "nat \<Rightarrow> nat \<Rightarrow> nat \<Rightarrow> nat list" where
  "worker_blocks nworkers nblks w =
     (let q = nblks div nworkers in if w = nworkers - 1 then [q * w..<nblks] else [q * w..<q * w + q])"

lemma worker_blocks_cover:
  assumes "0 < nworkers"
  shows "(\<Union>w<nworkers. set (worker_blocks nworkers nblks w)) = {..<nblks}"
proof (intro equalityI subsetI)
  let ?q = "nblks div nworkers"
  fix i assume "i \<in> (\<Union>w<nworkers. set (worker_blocks nworkers nblks w))"
  then obtain w where w: "w < nworkers" "i \<in> set (worker_blocks nworkers nblks w)" by auto
  show "i \<in> {..<nblks}"
  proof (cases "w = nworkers - 1")
    case False
    with w have "i < ?q * Suc w" "Suc w \<le> nworkers" by (auto simp: worker_blocks_def Let_def)
    then have "i < ?q * nworkers" using mult_le_mono2 [of "Suc w" nworkers ?q] by linarith
    then show ?thesis using div_times_less_eq_dividend [of nblks nworkers] by (simp del: times_div_less_eq_dividend div_times_less_eq_dividend)
  qed (use w in \<open>simp add: worker_blocks_def Let_def\<close>)
next
  let ?q = "nblks div nworkers"
  fix i assume i: "i \<in> {..<nblks}"
  show "i \<in> (\<Union>w<nworkers. set (worker_blocks nworkers nblks w))"
  proof (cases "i < ?q * (nworkers - 1)")
    case True
    then have q: "0 < ?q" by (cases "?q = 0") auto
    have "i div ?q < nworkers - 1" using True q by (simp add: div_less_iff_less_mult mult.commute)
    moreover have "?q * (i div ?q) \<le> i" "i < ?q * (i div ?q) + ?q"
      using q mod_less_divisor [OF q, of i] mult_div_mod_eq [of ?q i] by linarith+
    ultimately show ?thesis using assms by (intro UN_I [of "i div ?q"]) (auto simp: worker_blocks_def Let_def)
  next
    case False
    with i assms show ?thesis by (intro UN_I [of "nworkers - 1"]) (auto simp: worker_blocks_def Let_def)
  qed
qed

text \<open>
  The contract of the conversions, for matrices of the right shape. \<open>ok\<close> is what the variant
  needs of its environment \<open>u\<close>.
\<close>

locale block_codec =
  fixes ok :: "'u \<Rightarrow> bool"
    and unrTall unrWide :: "'u \<Rightarrow> BitVect \<Rightarrow> bytes list \<Rightarrow> nat \<Rightarrow> BitVect result"
    and ravTall ravWide :: "'u \<Rightarrow> BitVect \<Rightarrow> bytes list \<Rightarrow> nat \<Rightarrow> bytes list result"
  assumes unrTall: "ok u \<Longrightarrow> length b = 4096 \<Longrightarrow> rows_of 64 m \<Longrightarrow> 512 * idx + 512 \<le> length m \<Longrightarrow>
      unrTall u b m idx = Inr (words_read m (512 * idx) 0)"
    and unrWide: "ok u \<Longrightarrow> length b = 4096 \<Longrightarrow> rows_of l m \<Longrightarrow> length m = 512 \<Longrightarrow> 64 * idx + 64 \<le> l \<Longrightarrow>
      unrWide u b m idx = Inr (words_read m 0 (64 * idx))"
    and ravTall: "ok u \<Longrightarrow> length b = 4096 \<Longrightarrow> rows_of 64 m \<Longrightarrow> 512 * idx + 512 \<le> length m \<Longrightarrow>
      ravTall u b m idx = Inr (rows_written b m (512 * idx) 0)"
    and ravWide: "ok u \<Longrightarrow> length b = 4096 \<Longrightarrow> rows_of l m \<Longrightarrow> length m = 512 \<Longrightarrow> 64 * idx + 64 \<le> l \<Longrightarrow>
      ravWide u b m idx = Inr (rows_written b m 0 (64 * idx))"
begin

lemma tall_worker_blocks:
  assumes "ok u" and "rows_of 64 m" and "length m = 512 * n" and "set bs \<subseteq> {..<n}"
    and "length b = 4096" and "length out = 512" and "rows_of (64 * n) out"
  shows "\<exists>b'. fold_res (transpose_block (unrTall u) (ravWide u) m) bs (b, out) = Inr (b', fold (tall_block m) bs out)"
  using assms(4-7)
proof (induction bs arbitrary: b out)
  case (Cons i bs)
  then have i: "i < n" "64 * i + 64 \<le> 64 * n" "512 * i + 512 \<le> length m" using assms(3) by auto
  let ?b = "transpose (words_read m (512 * i) 0)"
  have "transpose_block (unrTall u) (ravWide u) m i (b, out) = Inr (?b, tall_block m i out)"
    using assms Cons.prems i
    by (simp add: transpose_block_def Let_def unrTall ravWide [of u _ "64 * n"] tall_block_def length_transpose)
  moreover have "\<exists>b'. fold_res (transpose_block (unrTall u) (ravWide u) m) bs (?b, tall_block m i out)
      = Inr (b', fold (tall_block m) bs (tall_block m i out))"
    using Cons.prems tall_block_shape [of i n out m] i(1) by (intro Cons.IH) (auto simp: length_transpose)
  ultimately show ?case by simp
qed simp

lemma wide_worker_blocks:
  assumes "ok u" and "rows_of (64 * n) m" and "length m = 512" and "set bs \<subseteq> {..<n}"
    and "length b = 4096" and "length out = 512 * n" and "rows_of 64 out"
  shows "\<exists>b'. fold_res (transpose_block (unrWide u) (ravTall u) m) bs (b, out) = Inr (b', fold (wide_block m) bs out)"
  using assms(4-7)
proof (induction bs arbitrary: b out)
  case (Cons i bs)
  then have i: "64 * i + 64 \<le> 64 * n" "512 * i + 512 \<le> length out" by auto
  let ?b = "transpose (words_read m 0 (64 * i))"
  have "transpose_block (unrWide u) (ravTall u) m i (b, out) = Inr (?b, wide_block m i out)"
    using assms Cons.prems i
    by (simp add: transpose_block_def Let_def unrWide [of u _ "64 * n"] ravTall wide_block_def length_transpose)
  moreover have "\<exists>b'. fold_res (transpose_block (unrWide u) (ravTall u) m) bs (?b, wide_block m i out)
      = Inr (b', fold (wide_block m) bs (wide_block m i out))"
    using Cons.prems wide_block_shape [of out m i] by (intro Cons.IH) (auto simp: length_transpose)
  ultimately show ?case by simp
qed simp

lemma tall_worker:
  assumes "ok u" and "rows_of 64 m" and "length m = 512 * n" and "set (worker_blocks nworkers n w) \<subseteq> {..<n}"
    and "length out = 512" and "rows_of (64 * n) out"
  shows "transpose_worker (unrTall u) (ravWide u) m nworkers n w out =
    Inr (fold (tall_block m) (worker_blocks nworkers n w) out)"
  using tall_worker_blocks [OF assms(1-4), of zero_vect out] assms(5,6)
  by (auto simp: transpose_worker_def worker_blocks_def Let_def zero_vect_def)

lemma wide_worker:
  assumes "ok u" and "rows_of (64 * n) m" and "length m = 512" and "set (worker_blocks nworkers n w) \<subseteq> {..<n}"
    and "length out = 512 * n" and "rows_of 64 out"
  shows "transpose_worker (unrWide u) (ravTall u) m nworkers n w out =
    Inr (fold (wide_block m) (worker_blocks nworkers n w) out)"
  using wide_worker_blocks [OF assms(1-4), of zero_vect out] assms(5,6)
  by (auto simp: transpose_worker_def worker_blocks_def Let_def zero_vect_def)

lemma tall_pool:
  assumes "ok u" and "rows_of 64 m" and "length m = 512 * n" and "0 < nworkers" and "set ord \<subseteq> {..<nworkers}"
    and "length out = 512" and "rows_of (64 * n) out"
  shows "fold_res (transpose_worker (unrTall u) (ravWide u) m nworkers n) ord out =
      Inr (fold (tall_block m) (concat (map (worker_blocks nworkers n) ord)) out)"
  using assms(5-7)
proof (induction ord arbitrary: out)
  case (Cons w ord)
  have bs: "set (worker_blocks nworkers n w) \<subseteq> {..<n}"
    using worker_blocks_cover [OF assms(4), of n] Cons.prems(1) by auto
  have "length (fold (tall_block m) (worker_blocks nworkers n w) out) = 512 \<and>
      rows_of (64 * n) (fold (tall_block m) (worker_blocks nworkers n w) out)"
    using tall_blocks_shape [OF bs] Cons.prems by simp
  with Cons bs show ?case by (simp add: tall_worker [OF assms(1-3) bs])
qed simp

lemma wide_pool:
  assumes "ok u" and "rows_of (64 * n) m" and "length m = 512" and "0 < nworkers" and "set ord \<subseteq> {..<nworkers}"
    and "length out = 512 * n" and "rows_of 64 out"
  shows "fold_res (transpose_worker (unrWide u) (ravTall u) m nworkers n) ord out =
      Inr (fold (wide_block m) (concat (map (worker_blocks nworkers n) ord)) out)"
  using assms(5-7)
proof (induction ord arbitrary: out)
  case (Cons w ord)
  have bs: "set (worker_blocks nworkers n w) \<subseteq> {..<n}"
    using worker_blocks_cover [OF assms(4), of n] Cons.prems(1) by auto
  have "length (fold (wide_block m) (worker_blocks nworkers n w) out) = 512 * n \<and>
      rows_of 64 (fold (wide_block m) (worker_blocks nworkers n w) out)"
    using wide_blocks_shape Cons.prems by simp
  with Cons bs show ?case by (simp add: wide_worker [OF assms(1-3) bs])
qed simp

lemma tall_transpose:
  assumes "ok u" and "rows_of 64 m" and "length m mod 512 = 0" and "0 < nworkers" and "mset ord = mset [0..<nworkers]"
  shows "ConcurrentTransposeTall_with (unrTall u) (ravWide u) nworkers ord m = Inr (bit_transpose 512 m)"
proof -
  let ?n = "length m div 512"
  let ?out = "replicate 512 (replicate (length m div 8) 0) :: bytes list"
  let ?bs = "concat (map (worker_blocks nworkers ?n) ord)"
  have n: "length m = 512 * ?n" "length m div 8 = 64 * ?n" using assms(3) by auto
  have ord: "set ord = {..<nworkers}" using mset_eq_upt_distinct(2) [OF assms(5)] by (simp add: atLeast0LessThan)
  then have bs: "set ?bs = {..<?n}" using worker_blocks_cover [OF assms(4), of ?n] by simp
  let ?t = "fold (tall_block m) ?bs ?out"
  have shape: "length ?t = 512 \<and> rows_of (64 * ?n) ?t"
    using tall_blocks_shape [of ?bs ?n ?out m] bs n(2) by simp
  have "?t = bit_transpose 512 m"
  proof (rule matrix_eqI [of _ _ "64 * ?n"])
    show "rows_of (64 * ?n) (bit_transpose 512 m)" using rows_of_bit_transpose n(2) by metis
    fix r c assume "r < length ?t" "c < 8 * (64 * ?n)"
    then have rc: "r < 512" "c < 512 * ?n" using shape by auto
    then have "c div 512 \<in> set ?bs" using bs by auto
    then show "mat_bit ?t r c = mat_bit (bit_transpose 512 m) r c"
      using tall_blocks [OF assms(2) n(1), of ?bs ?out r c] bs n rc by (simp add: mat_bit_transpose)
  qed (use shape in auto)
  moreover have "fold_res (transpose_worker (unrTall u) (ravWide u) m nworkers ?n) ord ?out = Inr ?t"
    using assms n ord by (intro tall_pool) auto
  ultimately show ?thesis using assms(3) by (simp add: ConcurrentTransposeTall_with_def)
qed

lemma wide_transpose:
  assumes "ok u" and "rows_of l m" and "l mod 64 = 0" and "length m = 512" and "0 < nworkers"
    and "mset ord = mset [0..<nworkers]"
  shows "ConcurrentTransposeWide_with (unrWide u) (ravTall u) nworkers ord m = Inr (bit_transpose (8 * l) m)"
proof -
  let ?n = "l div 64"
  let ?out = "replicate (l * 8) (replicate 64 0) :: bytes list"
  let ?bs = "concat (map (worker_blocks nworkers ?n) ord)"
  have l: "l = 64 * ?n" using assms(3) by auto
  have m: "rows_of (64 * ?n) m" using assms(2) l by simp
  have ord: "set ord = {..<nworkers}" using mset_eq_upt_distinct(2) [OF assms(6)] by (simp add: atLeast0LessThan)
  then have bs: "set ?bs = {..<?n}" using worker_blocks_cover [OF assms(5), of ?n] by simp
  let ?t = "fold (wide_block m) ?bs ?out"
  have out: "length ?out = 512 * ?n" "rows_of 64 ?out" using l by auto
  have shape: "length ?t = 512 * ?n \<and> rows_of 64 ?t"
    using wide_blocks_shape [OF out(2), of m ?bs] out(1) by simp
  have "?t = bit_transpose (8 * l) m"
  proof (rule matrix_eqI [of _ _ 64])
    show "length ?t = length (bit_transpose (8 * l) m)" using shape l by auto
    show "rows_of 64 (bit_transpose (8 * l) m)" using rows_of_bit_transpose [of m "8 * l"] assms(4) by simp
    fix r c :: nat assume "r < length ?t" "c < 8 * 64"
    then have rc: "r < 512 * ?n" "c < 512" using shape by auto
    then have "r div 512 \<in> {..<?n}" by auto
    then have "mat_bit ?t r c = mat_bit m c r"
      using wide_blocks [OF m assms(4) _ out rc, of ?bs] bs by (simp only: simp_thms subset_refl if_True)
    then show "mat_bit ?t r c = mat_bit (bit_transpose (8 * l) m) r c"
      using rc l assms(4) by (simp add: mat_bit_transpose)
  qed (use shape in auto)
  moreover have "fold_res (transpose_worker (unrWide u) (ravTall u) m nworkers ?n) ord ?out = Inr ?t"
    using assms m out ord by (intro wide_pool) auto
  moreover have "go_nth m 0 = Inr (m ! 0)" "length (m ! 0) = l" using assms(2,4) by auto
  ultimately show ?thesis using assms(3) by (simp add: ConcurrentTransposeWide_with_def mult.commute)
qed

end

interpretation generic_codec: block_codec "\<lambda>_::unit. True" "\<lambda>_. unravelTall" "\<lambda>_. unravelWide"
    "\<lambda>_. ravelToTall" "\<lambda>_. ravelToWide"
  by unfold_locales (simp_all add: unravelTall_eq unravelWide_eq ravelToTall_eq ravelToWide_eq)

interpretation amd64_codec: block_codec casts_le unravelTall_amd64 unravelWide_amd64 ravelToTall_amd64 ravelToWide_amd64
  by unfold_locales (simp_all add: unravelTall_amd64_eq unravelWide_amd64_eq ravelToTall_amd64_eq ravelToWide_amd64_eq)

section \<open>Properties\<close>

text \<open>
  Property C8. \<open>BitVect.transpose\<close> transposes: for every content of a 512 by 512 bit block, bit
  \<open>(r, c)\<close> of the block after the block swaps and the masked shift stages is bit \<open>(c, r)\<close> of the
  block before.
\<close>
theorem transpose_transposes:
  assumes "length v = 4096" and "r < 512" and "c < 512"
  shows "bit (transpose v ! (8 * r + c div 64)) (c mod 64) = bit (v ! (8 * c + r div 64)) (r mod 64)"
  using transpose_bit [OF assms] by (simp add: vect_bit_def)

theorem transpose_transposes_witness:
  "length (zero_vect[8 * 300 + 1 := 2]) = 4096 \<and> bit (transpose (zero_vect[8 * 300 + 1 := 2]) ! (8 * 65 + 4)) 44"
proof -
  have l: "length (zero_vect[8 * 300 + 1 := 2]) = 4096" by (simp add: zero_vect_def)
  with transpose_transposes [OF l, of 65 300] show ?thesis
    by (simp add: zero_vect_def bit_simps)
qed

text \<open>
  Property C9. The concurrent transposition of a tall matrix (rows of 64 bytes, a multiple of 512
  rows), in both build variants, for every number of workers and every order in which the workers
  run, returns the bit transpose of the matrix: no block is lost, written twice or misplaced.
\<close>
theorem ConcurrentTransposeTall_correct:
  assumes "rows_of 64 m" and "length m mod 512 = 0" and "0 < nworkers" and "mset ord = mset [0..<nworkers]"
    and "casts_le u"
  shows "ConcurrentTransposeTall nworkers ord m = Inr (bit_transpose 512 m) \<and>
    ConcurrentTransposeTall_amd64 u nworkers ord m = Inr (bit_transpose 512 m)"
  using generic_codec.tall_transpose [OF _ assms(1-4)] amd64_codec.tall_transpose [OF assms(5) assms(1-4)]
  by (simp add: ConcurrentTransposeTall_def ConcurrentTransposeTall_amd64_def)

theorem ConcurrentTransposeTall_correct_witness:
  "casts_le le_cast \<and> ConcurrentTransposeTall 3 [1, 0, 2] (replicate 512 (replicate 64 7)) =
     Inr (bit_transpose 512 (replicate 512 (replicate 64 7)))"
proof -
  have "mset [1, 0, 2] = mset [0..<3]" by (simp add: upt_rec)
  then show ?thesis
    using ConcurrentTransposeTall_correct [of "replicate 512 (replicate 64 7)" 3 "[1, 0, 2]" le_cast]
    by (simp add: casts_le_def le_cast_def)
qed

text \<open>
  Property C10. The concurrent transposition of a wide matrix (512 rows of a multiple of 64 bytes),
  in both build variants, for every number of workers and every order in which the workers run,
  returns the bit transpose of the matrix.
\<close>
theorem ConcurrentTransposeWide_correct:
  assumes "rows_of l m" and "l mod 64 = 0" and "length m = 512" and "0 < nworkers"
    and "mset ord = mset [0..<nworkers]" and "casts_le u"
  shows "ConcurrentTransposeWide nworkers ord m = Inr (bit_transpose (8 * l) m) \<and>
    ConcurrentTransposeWide_amd64 u nworkers ord m = Inr (bit_transpose (8 * l) m)"
  using generic_codec.wide_transpose [OF _ assms(1-5)] amd64_codec.wide_transpose [OF assms(6) assms(1-5)]
  by (simp add: ConcurrentTransposeWide_def ConcurrentTransposeWide_amd64_def)

theorem ConcurrentTransposeWide_correct_witness:
  "casts_le le_cast \<and> ConcurrentTransposeWide 2 [1, 0] (replicate 512 (replicate 64 7)) =
     Inr (bit_transpose 512 (replicate 512 (replicate 64 7)))"
proof -
  have "mset [1, 0] = mset [0..<2]" by (simp add: upt_rec)
  then show ?thesis
    using ConcurrentTransposeWide_correct [of 64 "replicate 512 (replicate 64 7)" 2 "[1, 0]" le_cast]
    by (simp add: casts_le_def le_cast_def)
qed

text \<open>
  Transposing a tall matrix and transposing the resulting wide matrix gives the tall
  matrix back, whatever the workers of the two calls do.
\<close>
theorem tall_wide_roundtrip:
  assumes "rows_of 64 m" and "m \<noteq> []" and "length m mod 512 = 0" and "0 < nworkers"
    and "mset ord = mset [0..<nworkers]" and "mset ord' = mset [0..<nworkers]"
  shows "bind_res (ConcurrentTransposeTall nworkers ord m) (ConcurrentTransposeWide nworkers ord') = Inr m"
proof -
  let ?t = "bit_transpose 512 m"
  have "ConcurrentTransposeTall nworkers ord m = Inr ?t"
    using generic_codec.tall_transpose [OF _ assms(1,3-5)] by (simp add: ConcurrentTransposeTall_def)
  moreover have "ConcurrentTransposeWide nworkers ord' ?t = Inr (bit_transpose (8 * (length m div 8)) ?t)"
    unfolding ConcurrentTransposeWide_def using assms
    by (intro generic_codec.wide_transpose) auto
  moreover have "bit_transpose (8 * (length m div 8)) ?t = m"
  proof (rule matrix_eqI [of _ _ 64])
    show len: "length (bit_transpose (8 * (length m div 8)) ?t) = length m" using assms(3) by auto
    show "rows_of 64 (bit_transpose (8 * (length m div 8)) ?t)"
      using rows_of_bit_transpose [of ?t "8 * (length m div 8)"] by simp
    fix r c :: nat assume rc: "r < length (bit_transpose (8 * (length m div 8)) ?t)" "c < 8 * 64"
    then show "mat_bit (bit_transpose (8 * (length m div 8)) ?t) r c = mat_bit m r c"
      using len by (simp add: mat_bit_transpose)
  qed (rule assms(1))
  ultimately show ?thesis by simp
qed

theorem tall_wide_roundtrip_witness:
  "bind_res (ConcurrentTransposeTall 2 [1, 0] (replicate 512 (replicate 64 7)))
     (ConcurrentTransposeWide 2 [0, 1]) = Inr (replicate 512 (replicate 64 7))"
proof -
  have "mset [1, 0] = mset [0..<2]" "mset [0, 1] = mset [0..<2]" by (simp_all add: upt_rec)
  then show ?thesis
    by (intro tall_wide_roundtrip) (simp_all del: replicate.simps)
qed

end
