(* ===== verification/OPRF.thy ===== *)
theory OPRF
  imports OT Cuckoo Transpose
begin

text \<open>
  The oblivious pseudorandom function of \<open>internal/oprf/oprf.go\<close>: an OT extension that gives the
  sender keys and the receiver the encodings of the items of a cuckoo table, one per bucket.
\<close>

section \<open>Environment\<close>

text \<open>
  The third-party hash functions and AES, the environment of the base transfer, the number of workers
  and the orders in which the workers of the \<open>i\<close>-th concurrent operation run.
\<close>

record oprf_env =
  SeedSum128 :: "u64 \<Rightarrow> u64 \<Rightarrow> bytes \<Rightarrow> u64 \<times> u64"
  aes_block :: "bytes \<Rightarrow> bytes \<Rightarrow> bytes"
  hashes :: hash_lib
  base_env :: ot_env
  maxProcs :: nat
  op_ord :: "nat \<Rightarrow> nat list"

abbreviation baseOTCount :: nat where
  "baseOTCount \<equiv> 512"

abbreviation baseOTCountBitmapWidth :: nat where
  "baseOTCountBitmapWidth \<equiv> 64"

record Key =
  secret :: bytes
  oprfKeys :: "bytes list"

record OPRF =
  baseOT :: "nat list"
  oprf_m :: nat

definition NewOPRF :: "nat \<Rightarrow> OPRF" where
  "NewOPRF m = \<lparr>baseOT = replicate baseOTCount baseOTCountBitmapWidth, oprf_m = m\<rparr>"

text \<open>\<open>aes.NewCipher\<close> accepts keys of 16, 24 and 32 bytes.\<close>

definition NewCipher :: "oprf_env \<Rightarrow> bytes \<Rightarrow> (bytes \<Rightarrow> bytes) result" where
  "NewCipher env key = (if length key \<in> {16, 24, 32} then Inr (aes_block env key) else Inl (ErrKeySize (length key)))"

section \<open>Send\<close>

text \<open>One column: the generator's output for the seed received, masked if the choice bit is set.\<close>

definition send_col :: "oprf_env \<Rightarrow> bytes \<Rightarrow> bytes list \<Rightarrow> nat \<Rightarrow> nat \<Rightarrow> bytes list \<times> io_reader \<Rightarrow>
    (bytes list \<times> io_reader) result" where
  "send_col env choices seeds paddedLen col = (\<lambda>(keys, r).
     bind_res (ReadFull paddedLen r) (\<lambda>(oprfMask, r).
       let key = PseudorandomGenerate (ot_hash (base_env env)) (replicate paddedLen 0) (seeds ! col) in
       bind_res (IsBitSet choices col) (\<lambda>isset.
       bind_res (if isset then ConcurrentBitOp (maxProcs env) (op_ord env col) Xor key oprfMask else Inr key) (\<lambda>key.
         Inr (keys @ [key], r)))))"

text \<open>\<open>rnd\<close> is what \<open>rand.Read(choices)\<close> delivers.\<close>

definition Send_oprf :: "oprf_env \<Rightarrow> OPRF \<Rightarrow> bytes result \<Rightarrow> io_reader \<Rightarrow> io_writer \<Rightarrow> (Key \<times> io_reader \<times> io_writer) result" where
  "Send_oprf env ext rnd r w =
     bind_res rnd (\<lambda>choices.
     bind_res (Receive_naorPinkas (base_env env) (baseOT ext) choices (replicate baseOTCount []) r w) (\<lambda>(seeds, r, w).
     bind_res (PadBitMap (int (oprf_m ext)) (int baseOTCount)) (\<lambda>p.
     bind_res (fold_res (send_col env choices seeds (nat p)) [0..<baseOTCount] ([], r)) (\<lambda>(keys, r).
     bind_res (ConcurrentTransposeWide (maxProcs env) (op_ord env baseOTCount) keys) (\<lambda>keys.
     bind_res (go_slice keys 0 (oprf_m ext)) (\<lambda>keys.
       Inr (\<lparr>secret = choices, oprfKeys = keys\<rparr>, r, w)))))))"

section \<open>Receive\<close>

definition encode_row :: "oprf_env \<Rightarrow> (bytes \<Rightarrow> bytes) \<Rightarrow> Cuckoo \<Rightarrow> nat \<Rightarrow> bytes list \<Rightarrow> bytes list result" where
  "encode_row env aes choices step enc =
     bind_res (GetBucket choices step) (\<lambda>idx.
     bind_res (GetItemWithHash choices idx) (\<lambda>(item, hIdx).
       go_set enc step (PseudorandomCode (SeedSum128 env) aes item (of_nat hIdx))))"

text \<open>
  The goroutine that encodes all buckets: each of \<open>maxProcs\<close> workers takes \<open>stepSize\<close> buckets, the
  rest follows when they are done; rows of zeros fill up to a multiple of 512.
\<close>

definition prc_matrix :: "oprf_env \<Rightarrow> (bytes \<Rightarrow> bytes) \<Rightarrow> Cuckoo \<Rightarrow> nat \<Rightarrow> bytes list result" where
  "prc_matrix env aes choices m =
     (let stepSize = m div maxProcs env in
      bind_res (Pad (int m) (int baseOTCount)) (\<lambda>bitMapLen.
      let enc = replicate (nat bitMapLen) [] in
      bind_res (fold_res (\<lambda>j. fold_res (\<lambda>offset. encode_row env aes choices (stepSize * j + offset)) [0..<stepSize]) (op_ord env 0) enc) (\<lambda>enc.
      bind_res (fold_res (encode_row env aes choices) [stepSize * maxProcs env..<m] enc) (\<lambda>enc.
      bind_res (fold_res (\<lambda>i enc. go_set enc i (replicate baseOTCountBitmapWidth 0)) [m..<length enc] enc) (\<lambda>enc.
        ConcurrentTransposeTall (maxProcs env) (op_ord env 1) enc)))))"

text \<open>\<open>rnd row col\<close> is what \<open>rand.Read\<close> delivers for a message.\<close>

definition sampleRandomOTMessages :: "(nat \<Rightarrow> nat \<Rightarrow> bytes result) \<Rightarrow> OTMessage list result" where
  "sampleRandomOTMessages rnd =
     fold_res (\<lambda>row ms. bind_res (rnd row 0) (\<lambda>m0. bind_res (rnd row 1) (\<lambda>m1. Inr (ms @ [(m0, m1)])))) [0..<baseOTCount] []"

definition receive_col :: "oprf_env \<Rightarrow> OTMessage list \<Rightarrow> bytes list \<Rightarrow> nat \<Rightarrow> nat \<Rightarrow> bytes list \<times> io_writer \<Rightarrow>
    (bytes list \<times> io_writer) result" where
  "receive_col env baseMsgs prcT paddedLen col = (\<lambda>(encs, w).
     let h = ot_hash (base_env env);
         enc = PseudorandomGenerate h (replicate paddedLen 0) (fst (baseMsgs ! col));
         oprfMask = PseudorandomGenerate h (replicate paddedLen 0) (snd (baseMsgs ! col)) in
     bind_res (ConcurrentDoubleBitOp (maxProcs env) (op_ord env (col + 2)) DoubleXor oprfMask enc (prcT ! col)) (\<lambda>oprfMask.
     bind_res (write_conn oprfMask w) (\<lambda>w. Inr (encs @ [enc], w))))"

text \<open>The hash of each encoding is a key of the map of the hash index its item sits with.\<close>

definition index_encoding :: "oprf_env \<Rightarrow> Cuckoo \<Rightarrow> bytes list \<Rightarrow> nat \<Rightarrow> (u64 \<rightharpoonup> nat) list \<Rightarrow> (u64 \<rightharpoonup> nat) list result" where
  "index_encoding env choices oprfEncodings bIdx encodings =
     bind_res (GetBucket choices bIdx) (\<lambda>idx.
       if idx \<noteq> 0
       then bind_res (GetItemWithHash choices idx) (\<lambda>(_, hIdx).
              bind_res (go_nth encodings hIdx) (\<lambda>m.
                go_set encodings hIdx (m(Hash64 (hashes env) (GetHasher (cHasher choices)) (oprfEncodings ! bIdx) \<mapsto> idx))))
       else Inr encodings)"

definition Receive_oprf :: "oprf_env \<Rightarrow> OPRF \<Rightarrow> (nat \<Rightarrow> nat \<Rightarrow> bytes result) \<Rightarrow> Cuckoo \<Rightarrow> bytes \<Rightarrow> io_reader \<Rightarrow> io_writer \<Rightarrow>
    ((u64 \<rightharpoonup> nat) list \<times> io_reader \<times> io_writer) result" where
  "Receive_oprf env ext rnd choices secretKey r w =
     (if Len choices \<noteq> oprf_m ext then Inl ErrBaseCountMissMatch
      else
        bind_res (NewCipher env secretKey) (\<lambda>aesBlock.
        bind_res (sampleRandomOTMessages rnd) (\<lambda>baseMsgs.
        bind_res (Send_naorPinkas (base_env env) (baseOT ext) baseMsgs r w) (\<lambda>(r, w).
        bind_res (prc_matrix env aesBlock choices (oprf_m ext)) (\<lambda>prcT.
        bind_res (PadBitMap (int (oprf_m ext)) (int baseOTCount)) (\<lambda>p.
        bind_res (fold_res (receive_col env baseMsgs prcT (nat p)) [0..<length prcT] ([], w)) (\<lambda>(encs, w).
        bind_res (ConcurrentTransposeWide (maxProcs env) (op_ord env (baseOTCount + 2)) encs) (\<lambda>encs.
        bind_res (go_slice encs 0 (oprf_m ext)) (\<lambda>encs.
        bind_res (fold_res (index_encoding env choices encs) [0..<length encs] (replicate Nhash (\<lambda>_. None))) (\<lambda>encodings.
          Inr (encodings, r, w)))))))))))"

section \<open>Encode\<close>

definition Encode_oprf :: "nat \<Rightarrow> nat list \<Rightarrow> Key \<Rightarrow> nat \<Rightarrow> bytes \<Rightarrow> bytes result" where
  "Encode_oprf nworkers ord k rowIdx pseudorandomEncoding =
     bind_res (go_nth (oprfKeys k) rowIdx) (\<lambda>q. ConcurrentDoubleBitOp nworkers ord AndXor pseudorandomEncoding (secret k) q)"

section \<open>Sizes\<close>

definition padded :: "nat \<Rightarrow> nat" where
  "padded m = 512 * ((m + 511) div 512)"

lemma padded_bounds: "m \<le> padded m" "padded m mod 512 = 0" "padded m div 8 mod 64 = 0" "8 * (padded m div 8) = padded m"
proof -
  show "m \<le> padded m" unfolding padded_def
    using mult_div_mod_eq [of 512 "m + 511"] mod_less_divisor [of 512 "m + 511"] by linarith
  show "padded m mod 512 = 0" by (simp add: padded_def)
  have "padded m div 8 = 64 * ((m + 511) div 512)" by (simp add: padded_def div_mult_swap)
  then show "padded m div 8 mod 64 = 0" "8 * (padded m div 8) = padded m" by (simp_all add: padded_def)
qed

lemma padded_pos: "0 < m \<Longrightarrow> 64 \<le> padded m div 8"
  using padded_bounds [of m] by (cases "padded m div 8 = 0") (auto elim: dvdE simp: mod_eq_0_iff_dvd)

lemma Pad_padded: "Pad (int m) (int baseOTCount) = Inr (int (padded m))"
proof -
  obtain r where r: "Pad (int m) 512 = Inr r" "512 dvd r" "int m \<le> r" "r < int m + 512"
    using Pad_cases [of "int m" 512] by auto
  moreover obtain k where "r = 512 * k" using r(2) by (rule dvdE)
  moreover have "k = (int m + 511) div 512" using r(3,4) calculation(5) by (intro int_div_pos_eq [symmetric, of _ _ _ "int m + 511 - r"]) auto
  ultimately show ?thesis by (simp add: padded_def zdiv_int)
qed

lemma PadBitMap_padded: "PadBitMap (int m) (int baseOTCount) = Inr (int (padded m div 8))"
proof -
  have "int (padded m) sdiv 8 = int (padded m) div 8" by (cases "padded m = 0") (simp_all add: signed_divide_int_def)
  then show ?thesis by (simp add: PadBitMap_def Pad_padded [simplified] zdiv_int)
qed

section \<open>The matrix of codes\<close>

lemma fold_res_blocks:
  "fold_res (\<lambda>j. fold_res (\<lambda>k. f (n * j + k)) [0..<n]) js e = fold_res f (concat (map (\<lambda>j. map (\<lambda>k. n * j + k) [0..<n]) js)) e"
  by (induction js arbitrary: e) (simp_all add: fold_res_append fold_res_map bind_res_def split: sum.splits)

lemma fold_updates:
  "length (fold (\<lambda>k e. e[k := f k]) ks e) = length e"
  "i < length e \<Longrightarrow> fold (\<lambda>k e. e[k := f k]) ks e ! i = (if i \<in> set ks then f i else e ! i)"
  by (induction ks arbitrary: e) (auto simp: nth_list_update)

lemma fold_res_updates:
  assumes "\<And>k e. k \<in> set ks \<Longrightarrow> length e = n \<Longrightarrow> g k e = Inr (e[k := f k])" and "length e = n"
  shows "fold_res g ks e = Inr (fold (\<lambda>k e. e[k := f k]) ks e)"
  using fold_res_pure [of ks "\<lambda>e. length e = n" g "\<lambda>k e. e[k := f k]" e] assms by simp

definition prc_row :: "oprf_env \<Rightarrow> bytes \<Rightarrow> Cuckoo \<Rightarrow> nat \<Rightarrow> bytes" where
  "prc_row env key c b = PseudorandomCode (SeedSum128 env) (aes_block env key)
     (items c ! (bucketLookup c ! b)) (of_nat (hashIndices c ! (bucketLookup c ! b)))"

lemma bucket_access:
  assumes "cuckoo_inv H c" and "b < Len c"
  shows "GetBucket c b = Inr (bucketLookup c ! b)"
    and "GetItemWithHash c (bucketLookup c ! b) = Inr (items c ! (bucketLookup c ! b), hashIndices c ! (bucketLookup c ! b))"
proof -
  have ok: "table_ok c" "placed H c {1..inserted c}" using assms(1) by (simp_all add: cuckoo_inv_def)
  from lookup_less [OF ok(2,1)] assms(2) have "bucketLookup c ! b < length (items c)" by (simp add: Len_def)
  with ok(1) assms(2) show "GetBucket c b = Inr (bucketLookup c ! b)"
    "GetItemWithHash c (bucketLookup c ! b) = Inr (items c ! (bucketLookup c ! b), hashIndices c ! (bucketLookup c ! b))"
    by (simp_all add: GetBucket_def GetItemWithHash_def go_nth_def table_ok_def Len_def)
qed

lemma encode_row_eq:
  assumes "cuckoo_inv H c" and "b < Len c" and "b < length enc"
  shows "encode_row env (aes_block env key) c b enc = Inr (enc[b := prc_row env key c b])"
  using bucket_access [OF assms(1,2)] assms(3) by (simp add: encode_row_def prc_row_def go_set_def)

definition env_pools :: "oprf_env \<Rightarrow> bool" where
  "env_pools env \<longleftrightarrow> (\<forall>i. pool_ok (maxProcs env) (op_ord env i))"

definition code_matrix :: "oprf_env \<Rightarrow> bytes \<Rightarrow> Cuckoo \<Rightarrow> bytes list" where
  "code_matrix env key c =
     map (\<lambda>b. if b < Len c then prc_row env key c b else replicate baseOTCountBitmapWidth 0) [0..<padded (Len c)]"

lemma steps_cover:
  fixes n m :: nat
  assumes "0 < n" and "mset ord = mset [0..<n]" and "i < m" and "i \<notin> {m div n * n..<m}"
  shows "i \<in> set (concat (map (\<lambda>j. map (\<lambda>k. m div n * j + k) [0..<m div n]) ord))"
proof -
  let ?s = "m div n"
  have i: "i < ?s * n" using assms(3,4) by simp
  then have s: "0 < ?s" by (cases "?s = 0") simp_all
  have "i div ?s < n" using i s by (simp add: less_mult_imp_div_less mult.commute)
  moreover have "set ord = {0..<n}" using assms(2) by (metis mset_eq_setD set_upt)
  ultimately have "i div ?s \<in> set ord" by simp
  moreover have "i \<in> (\<lambda>k. ?s * (i div ?s) + k) ` {0..<?s}"
  proof (rule image_eqI)
    show "i = ?s * (i div ?s) + i mod ?s" by simp
    show "i mod ?s \<in> {0..<?s}" using s by simp
  qed
  then have "i \<in> set (map (\<lambda>k. ?s * (i div ?s) + k) [0..<?s])" by (simp only: set_map set_upt)
  ultimately show ?thesis unfolding set_concat set_map [of _ ord] by blast
qed

lemma steps_bound:
  fixes n m :: nat
  assumes "mset ord = mset [0..<n]" and "i \<in> set (concat (map (\<lambda>j. map (\<lambda>k. m div n * j + k) [0..<m div n]) ord))"
  shows "i < m"
proof -
  have "set ord = {0..<n}" using assms(1) by (metis mset_eq_setD set_upt)
  with assms(2) obtain j where "j < n" "i < m div n * (j + 1)" by (auto simp: add.commute)
  note this(2)
  also have "\<dots> \<le> m div n * n" using \<open>j < n\<close> by (intro mult_le_mono2) simp
  also have "\<dots> \<le> m" by simp
  finally show ?thesis .
qed

lemma length_prc_row:
  assumes "\<And>s. length (aes_block env key s) = BlockSize"
  shows "length (prc_row env key c b) = 64"
  using PseudorandomCode_length [OF assms] by (simp add: prc_row_def)

lemma prc_matrix_eq:
  assumes inv: "cuckoo_inv H c" and pools: "env_pools env" and aes: "\<And>s. length (aes_block env key s) = BlockSize"
  shows "prc_matrix env (aes_block env key) c (Len c) = Inr (bit_transpose 512 (code_matrix env key c))"
proof -
  let ?m = "Len c" and ?N = "padded (Len c)" and ?n = "maxProcs env" and ?zero = "replicate baseOTCountBitmapWidth (0 :: byte)"
  let ?ks = "concat (map (\<lambda>j. map (\<lambda>k. ?m div ?n * j + k) [0..<?m div ?n]) (op_ord env 0))"
  let ?row = "prc_row env key c"
  have pool: "0 < ?n" "mset (op_ord env i) = mset [0..<?n]" for i using pools by (simp_all add: env_pools_def pool_ok_def)
  have N: "?m \<le> ?N" by (rule padded_bounds)
  have step: "encode_row env (aes_block env key) c b e = Inr (e[b := ?row b])" if "b < ?m" "length e = ?N" for b e
    using encode_row_eq [OF inv that(1)] that N by simp
  define e1 where "e1 = fold (\<lambda>b e. e[b := ?row b]) ?ks (replicate ?N [])"
  define e2 where "e2 = fold (\<lambda>b e. e[b := ?row b]) [?m div ?n * ?n..<?m] e1"
  define e3 where "e3 = fold (\<lambda>b e. e[b := ?zero]) [?m..<?N] e2"
  have len: "length e1 = ?N" "length e2 = ?N" "length e3 = ?N" by (simp_all add: e1_def e2_def e3_def fold_updates)
  have "fold_res (encode_row env (aes_block env key) c) ?ks (replicate ?N []) = Inr e1"
    unfolding e1_def
  proof (rule fold_res_updates)
    show "encode_row env (aes_block env key) c k e = Inr (e[k := ?row k])" if "k \<in> set ?ks" "length e = ?N" for k e
      using step steps_bound [OF pool(2) that(1)] that(2) by blast
  qed simp
  moreover have "fold_res (encode_row env (aes_block env key) c) [?m div ?n * ?n..<?m] e1 = Inr e2"
    unfolding e2_def
  proof (rule fold_res_updates)
    show "encode_row env (aes_block env key) c k e = Inr (e[k := ?row k])" if "k \<in> set [?m div ?n * ?n..<?m]" "length e = ?N" for k e
      using step that by simp
  qed (rule len)
  moreover have "fold_res (\<lambda>i enc. go_set enc i ?zero) [?m..<length e2] e2 = Inr e3"
    unfolding e3_def len
  proof (rule fold_res_updates)
    show "go_set e k ?zero = Inr (e[k := ?zero])" if "k \<in> set [?m..<?N]" "length e = ?N" for k e
      using that by (simp add: go_set_def)
  qed (rule len)
  moreover have "e3 = code_matrix env key c"
  proof (rule nth_equalityI)
    fix i assume i: "i < length e3"
    show "e3 ! i = code_matrix env key c ! i"
    proof (cases "i < ?m")
      case True
      then have "i \<in> set ?ks \<or> i \<in> {?m div ?n * ?n..<?m}" using steps_cover [OF pool(1) pool(2) True] by blast
      with True i len N show ?thesis
        unfolding e3_def e2_def e1_def code_matrix_def by (auto simp: fold_updates)
    next
      case False
      with i len show ?thesis unfolding e3_def code_matrix_def by (auto simp: fold_updates e2_def e1_def)
    qed
  qed (simp add: len code_matrix_def)
  moreover have "ConcurrentTransposeTall ?n (op_ord env 1) (code_matrix env key c) = Inr (bit_transpose 512 (code_matrix env key c))"
    unfolding ConcurrentTransposeTall_def
    by (rule generic_codec.tall_transpose)
      (use pool padded_bounds(2) [of ?m] in \<open>auto simp: rows_of_def code_matrix_def length_prc_row [OF aes]\<close>)
  ultimately show ?thesis by (simp add: prc_matrix_def Pad_padded [simplified] fold_res_blocks Let_def)
qed

section \<open>Columns\<close>

definition col_enc :: "blake3 \<Rightarrow> nat \<Rightarrow> OTMessage list \<Rightarrow> nat \<Rightarrow> bytes" where
  "col_enc h l ms col = PseudorandomGenerate h (replicate l 0) (fst (ms ! col))"

definition col_mask :: "blake3 \<Rightarrow> nat \<Rightarrow> OTMessage list \<Rightarrow> bytes list \<Rightarrow> nat \<Rightarrow> bytes" where
  "col_mask h l ms prcT col =
     map2 (XOR) (map2 (XOR) (PseudorandomGenerate h (replicate l 0) (snd (ms ! col))) (col_enc h l ms col)) (prcT ! col)"

definition col_key :: "blake3 \<Rightarrow> nat \<Rightarrow> OTMessage list \<Rightarrow> bytes list \<Rightarrow> bytes \<Rightarrow> nat \<Rightarrow> bytes" where
  "col_key h l ms prcT choices col =
     (if choice_bit choices col then map2 (XOR) (col_enc h l ms col) (prcT ! col) else col_enc h l ms col)"

lemma length_cols [simp]:
  assumes "blake3_ok h"
  shows "length (col_enc h l ms col) = l" and "length (prcT ! col) = l \<Longrightarrow> length (col_mask h l ms prcT col) = l"
    and "length (prcT ! col) = l \<Longrightarrow> length (col_key h l ms prcT choices col) = l"
  using assms by (simp_all add: col_enc_def col_mask_def col_key_def length_PseudorandomGenerate)

lemma concurrent_ops:
  assumes "env_pools env"
  shows "length dst = length a \<Longrightarrow> ConcurrentBitOp (maxProcs env) (op_ord env i) Xor dst a = Inr (map2 (XOR) dst a)"
    and "length dst = length a \<Longrightarrow> length dst = length b \<Longrightarrow>
      ConcurrentDoubleBitOp (maxProcs env) (op_ord env i) DoubleXor dst a b = Inr (map2 (XOR) (map2 (XOR) dst a) b)"
  using assms by (simp_all add: env_pools_def pool_ok_def xor_op.pool_eq double_xor_op.double_pool_eq Xor_eq DoubleXor_eq)

lemma unmask:
  assumes "length f = length e" and "length f = length (p :: bytes)"
  shows "map2 (XOR) f (map2 (XOR) (map2 (XOR) f e) p) = map2 (XOR) e p"
  using assms by (intro nth_equalityI) (simp_all flip: xor.assoc)

lemma receive_cols:
  assumes env: "env_pools env" and h: "ot_hash (base_env env) = h" "blake3_ok h"
    and "\<And>col. col \<in> set is \<Longrightarrow> length (prcT ! col) = l" and "length is \<le> budget w"
  shows "\<exists>w'. fold_res (receive_col env ms prcT l) is (encs, w) = Inr (encs @ map (col_enc h l ms) is, w') \<and>
    wrote w' = wrote w @ concat (map (col_mask h l ms prcT) is) \<and> budget w' + length is = budget w"
  using assms(4,5)
proof (induction "is" arbitrary: encs w)
  case (Cons i "is")
  let ?w = "\<lparr>wrote = wrote w @ col_mask h l ms prcT i, budget = budget w - 1\<rparr>"
  have "receive_col env ms prcT l i (encs, w) = Inr (encs @ [col_enc h l ms i], ?w)"
    using Cons.prems h concurrent_ops(2) [OF env, of "PseudorandomGenerate h (replicate l 0) (snd (ms ! i))" "col_enc h l ms i" "prcT ! i"]
    by (simp add: receive_col_def Let_def col_mask_def col_enc_def length_PseudorandomGenerate write_conn_ok)
  moreover have "length is \<le> budget ?w" using Cons.prems(2) by simp
  from Cons.IH [OF _ this, of "encs @ [col_enc h l ms i]"] Cons.prems(1) obtain w' where
    "fold_res (receive_col env ms prcT l) is (encs @ [col_enc h l ms i], ?w) = Inr ((encs @ [col_enc h l ms i]) @ map (col_enc h l ms) is, w')"
    "wrote w' = wrote ?w @ concat (map (col_mask h l ms prcT) is)" "budget w' + length is = budget ?w" by auto
  ultimately show ?case using Cons.prems(2) by simp
qed simp

lemma send_cols:
  assumes env: "env_pools env" and h: "ot_hash (base_env env) = h" "blake3_ok h"
    and "\<And>col. col \<in> set is \<Longrightarrow> length (prcT ! col) = l \<and> col div 8 < length choices \<and>
      seeds ! col = (if choice_bit choices col then snd (ms ! col) else fst (ms ! col))"
    and "concat r = concat (map (col_mask h l ms prcT) is) @ rest"
  shows "\<exists>r'. fold_res (send_col env choices seeds l) is (keys, r) = Inr (keys @ map (col_key h l ms prcT choices) is, r') \<and>
    concat r' = rest"
  using assms(4,5)
proof (induction "is" arbitrary: keys r)
  case (Cons i "is")
  have i: "length (prcT ! i) = l" "i div 8 < length choices"
      "seeds ! i = (if choice_bit choices i then snd (ms ! i) else fst (ms ! i))" using Cons.prems(1) by simp_all
  have lm: "length (col_mask h l ms prcT i) = l" using h i(1) by simp
  have "concat r = col_mask h l ms prcT i @ concat (map (col_mask h l ms prcT) is) @ rest" using Cons.prems(2) by simp
  from ReadFull_spec [OF this lm] obtain r1 where r1: "ReadFull l r = Inr (col_mask h l ms prcT i, r1)"
      "concat r1 = concat (map (col_mask h l ms prcT) is) @ rest" by blast
  let ?f = "PseudorandomGenerate h (replicate l 0) (snd (ms ! i))"
  have "map2 (XOR) ?f (col_mask h l ms prcT i) = map2 (XOR) (col_enc h l ms i) (prcT ! i)"
    unfolding col_mask_def using h i(1) by (intro unmask) (simp_all add: length_PseudorandomGenerate)
  moreover have "length ?f = length (col_mask h l ms prcT i)" using lm h by (simp add: length_PseudorandomGenerate)
  note concurrent_ops(1) [OF env this, of i]
  ultimately have "send_col env choices seeds l i (keys, r) = Inr (keys @ [col_key h l ms prcT choices i], r1)"
    using r1(1) i h(1)
    by (cases "choice_bit choices i") (simp_all add: send_col_def IsBitSet_eq choice_bit_def [symmetric] col_key_def col_enc_def Let_def)
  with Cons.IH [OF _ r1(2), of "keys @ [col_key h l ms prcT choices i]"] Cons.prems(1) show ?case by auto
qed simp

section \<open>Rows\<close>

text \<open>
  The row \<open>b\<close> of the keys is the row of the receiver's encodings, except at the bits where the choice
  and the code of the bucket are both set.
\<close>

lemma key_rows:
  assumes h: "blake3_ok h" and m: "b < m" and M: "rows_of 64 M" "length M = padded m" and s: "length choices = 64"
    and x: "length x = 64"
  defines "l \<equiv> padded m div 8" and "prcT \<equiv> bit_transpose 512 M"
  shows "map2 (XOR) (map2 (AND) x choices) (bit_transpose (8 * l) (map (col_key h l ms prcT choices) [0..<512]) ! b) =
    map2 (XOR) (bit_transpose (8 * l) (map (col_enc h l ms) [0..<512]) ! b) (map2 (AND) (map2 (XOR) x (M ! b)) choices)"
proof -
  let ?K = "map (col_key h l ms prcT choices) [0..<512]" and ?E = "map (col_enc h l ms) [0..<512]"
  have b: "b < 8 * l" "b < length M" using m padded_bounds(1,4) [of m] M(2) by (simp_all add: l_def)
  have rows: "length (bit_transpose (8 * l) X ! b) = 64" if "length X = 512" for X
    using rows_of_nth [OF rows_of_bit_transpose [of X "8 * l"]] that b by simp
  have lT: "length (prcT ! c) = l" if "c < 512" for c
    using rows_of_nth [OF rows_of_bit_transpose [of M 512]] that M(2) by (simp add: prcT_def l_def)
  have bits: "mat_bit (bit_transpose (8 * l) ?K) b c = (mat_bit (bit_transpose (8 * l) ?E) b c \<noteq> (choice_bit choices c \<and> mat_bit M b c))"
    if c: "c < 512" for c
  proof -
    have "mat_bit ?K c b = (mat_bit ?E c b \<noteq> (choice_bit choices c \<and> mat_bit prcT c b))"
      using c b(1) h lT by (simp add: mat_bit_def col_key_def bit_xor_iff)
    moreover have "mat_bit prcT c b = mat_bit M b c"
      unfolding prcT_def using c b M(2) padded_bounds(4) [of m] by (intro mat_bit_transpose) simp_all
    ultimately show ?thesis using c b by (simp add: mat_bit_transpose)
  qed
  show ?thesis
  proof (rule nth_equalityI)
    fix k assume "k < length (map2 (XOR) (map2 (AND) x choices) (bit_transpose (8 * l) ?K ! b))"
    then have k: "k < 64" using s x rows by simp
    have Mb: "length (M ! b) = 64" using M(1) b(2) by simp
    show "map2 (XOR) (map2 (AND) x choices) (bit_transpose (8 * l) ?K ! b) ! k =
        map2 (XOR) (bit_transpose (8 * l) ?E ! b) (map2 (AND) (map2 (XOR) x (M ! b)) choices) ! k"
    proof (rule bit_eqI)
      fix n assume "possible_bit TYPE(byte) n"
      then have n: "n < 8" by (simp add: possible_bit_word)
      with k have c: "8 * k + n < 512" by simp
      from bits [OF c] n k s x Mb rows show "bit (map2 (XOR) (map2 (AND) x choices) (bit_transpose (8 * l) ?K ! b) ! k) n =
          bit (map2 (XOR) (bit_transpose (8 * l) ?E ! b) (map2 (AND) (map2 (XOR) x (M ! b)) choices) ! k) n"
        by (simp add: mat_bit_def choice_bit_def bit_xor_iff bit_and_iff) blast
    qed
  qed (use s x rows M b in simp)
qed

section \<open>The receiver's maps\<close>

text \<open>After the first \<open>k\<close> buckets: every entry comes from an occupied bucket, every occupied bucket has an entry.\<close>

definition row_hash :: "oprf_env \<Rightarrow> Cuckoo \<Rightarrow> bytes \<Rightarrow> u64" where
  "row_hash env c row = Hash64 (hashes env) (GetHasher (cHasher c)) row"

definition indexes :: "oprf_env \<Rightarrow> Cuckoo \<Rightarrow> bytes list \<Rightarrow> nat \<Rightarrow> (u64 \<rightharpoonup> nat) list \<Rightarrow> bool" where
  "indexes env c T k E \<longleftrightarrow> length E = Nhash \<and>
     (\<forall>h<Nhash. \<forall>x i. (E ! h) x = Some i \<longrightarrow>
        (\<exists>b<k. bucketLookup c ! b = i \<and> i \<noteq> 0 \<and> hashIndices c ! i = h \<and> row_hash env c (T ! b) = x)) \<and>
     (\<forall>b<k. bucketLookup c ! b \<noteq> 0 \<longrightarrow> (E ! (hashIndices c ! (bucketLookup c ! b))) (row_hash env c (T ! b)) \<noteq> None)"

lemma hash_index_less:
  assumes "cuckoo_inv H c" and "b < Len c" and "bucketLookup c ! b \<noteq> 0"
  shows "hashIndices c ! (bucketLookup c ! b) < Nhash"
  using assms placedD(2) [of H c "{1..inserted c}" b] by (simp add: cuckoo_inv_def homed_def Len_def)

lemma index_encoding_step:
  assumes inv: "cuckoo_inv H c" and k: "k < Len c" and E: "indexes env c T k E"
  shows "\<exists>E'. index_encoding env c T k E = Inr E' \<and> indexes env c T (Suc k) E'"
proof (cases "bucketLookup c ! k = 0")
  case True
  with bucket_access(1) [OF inv k] E show ?thesis
    by (auto simp: index_encoding_def indexes_def less_Suc_eq) blast
next
  case False
  let ?i = "bucketLookup c ! k" let ?h = "hashIndices c ! ?i" let ?x = "row_hash env c (T ! k)"
  let ?E = "E[?h := (E ! ?h)(?x \<mapsto> ?i)]"
  have h: "?h < Nhash" and l: "length E = Nhash" using hash_index_less [OF inv k False] E by (simp_all add: indexes_def)
  have "index_encoding env c T k E = Inr ?E"
    using bucket_access [OF inv k] False h l by (simp add: index_encoding_def go_nth_def go_set_def row_hash_def)
  moreover have "indexes env c T (Suc k) ?E"
  proof -
    have "\<exists>b<Suc k. bucketLookup c ! b = i \<and> i \<noteq> 0 \<and> hashIndices c ! i = j \<and> row_hash env c (T ! b) = x"
      if "j < Nhash" "(?E ! j) x = Some i" for j x i
    proof (cases "j = ?h \<and> x = ?x")
      case True
      with that h l False show ?thesis by (intro exI [of _ k]) auto
    next
      case other: False
      with that h l have "(E ! j) x = Some i" by (auto simp: nth_list_update split: if_splits)
      with E that(1) show ?thesis unfolding indexes_def by (meson less_Suc_eq)
    qed
    moreover have "(?E ! (hashIndices c ! (bucketLookup c ! b))) (row_hash env c (T ! b)) \<noteq> None"
      if "b < Suc k" "bucketLookup c ! b \<noteq> 0" for b
    proof (cases "b = k")
      case True
      with h l show ?thesis by simp
    next
      case other: False
      with that E have "(E ! (hashIndices c ! (bucketLookup c ! b))) (row_hash env c (T ! b)) \<noteq> None"
        by (simp add: indexes_def)
      with h l show ?thesis by (auto simp: nth_list_update)
    qed
    ultimately show ?thesis using l by (simp add: indexes_def)
  qed
  ultimately show ?thesis by blast
qed

lemma index_encoding_all:
  assumes "cuckoo_inv H c" and "k \<le> Len c"
  shows "\<exists>E. fold_res (index_encoding env c T) [0..<k] (replicate Nhash (\<lambda>_. None)) = Inr E \<and> indexes env c T k E"
  using assms(2)
proof (induction k)
  case 0
  then show ?case by (simp add: indexes_def)
next
  case (Suc k)
  then obtain E where E: "fold_res (index_encoding env c T) [0..<k] (replicate Nhash (\<lambda>_. None)) = Inr E" "indexes env c T k E" by auto
  moreover obtain E' where "index_encoding env c T k E = Inr E'" "indexes env c T (Suc k) E'"
    using index_encoding_step [OF assms(1) _ E(2)] Suc.prems by auto
  ultimately show ?case by (simp add: fold_res_append)
qed

section \<open>A complete run\<close>

definition oprf_env_ok :: "oprf_env \<Rightarrow> bytes \<Rightarrow> bool" where
  "oprf_env_ok env key \<longleftrightarrow> env_pools env \<and> (\<forall>s. length (aes_block env key s) = BlockSize)"

definition oprf_run_ok :: "oprf_env \<Rightarrow> oprf_env \<Rightarrow> bytes \<Rightarrow> bool" where
  "oprf_run_ok er es key \<longleftrightarrow> oprf_env_ok er key \<and> env_pools es \<and> ot_run_ok (base_env er) (base_env es) baseOTCount"

lemma sampleRandomOTMessages_eq:
  assumes "\<And>i j. rnd i j = Inr (msg i j)"
  shows "sampleRandomOTMessages rnd = Inr (map (\<lambda>i. (msg i 0, msg i 1)) [0..<baseOTCount])"
proof -
  have "fold_res (\<lambda>row ms. bind_res (rnd row 0) (\<lambda>m0. bind_res (rnd row 1) (\<lambda>m1. Inr (ms @ [(m0, m1)])))) is ms =
      Inr (ms @ map (\<lambda>i. (msg i 0, msg i 1)) is)" for "is" ms
    by (induction "is" arbitrary: ms) (simp_all add: assms)
  then show ?thesis by (simp add: sampleRandomOTMessages_def)
qed

text \<open>The rows of the receiver's encodings and of the sender's keys, for the messages \<open>ms\<close> of the base transfer.\<close>

definition run_msgs :: "(nat \<Rightarrow> nat \<Rightarrow> bytes) \<Rightarrow> OTMessage list" where
  "run_msgs msg = map (\<lambda>i. (msg i 0, msg i 1)) [0..<baseOTCount]"

definition run_encodings :: "oprf_env \<Rightarrow> Cuckoo \<Rightarrow> (nat \<Rightarrow> nat \<Rightarrow> bytes) \<Rightarrow> bytes list" where
  "run_encodings env c msg =
     (let l = padded (Len c) div 8
      in take (Len c) (bit_transpose (8 * l) (map (col_enc (ot_hash (base_env env)) l (run_msgs msg)) [0..<512])))"

definition run_keys :: "oprf_env \<Rightarrow> bytes \<Rightarrow> Cuckoo \<Rightarrow> (nat \<Rightarrow> nat \<Rightarrow> bytes) \<Rightarrow> bytes \<Rightarrow> bytes list" where
  "run_keys env key c msg choices =
     (let l = padded (Len c) div 8; prcT = bit_transpose 512 (code_matrix env key c)
      in take (Len c) (bit_transpose (8 * l) (map (col_key (ot_hash (base_env env)) l (run_msgs msg) prcT choices) [0..<512])))"

lemma oprf_run:
  assumes ok: "oprf_run_ok er es key" and key: "length key = BlockSize" and inv: "cuckoo_inv H c" and "0 < Len c"
    and rnd: "rnd = (\<lambda>i j. Inr (msg i j))" "\<forall>i j. length (msg i j) = 64" and choices: "length choices = 64"
    and budgets: "1538 \<le> budget w" "512 \<le> budget v"
  defines "T \<equiv> run_encodings er c msg" and "keys \<equiv> run_keys er key c msg choices"
  shows "\<exists>s t E. indexes er c T (Len c) E \<and> length keys = Len c \<and>
    (\<forall>b<Len c. \<forall>x. length x = 64 \<longrightarrow> map2 (XOR) (map2 (AND) x choices) (keys ! b) =
      map2 (XOR) (T ! b) (map2 (AND) (map2 (XOR) x (prc_row er key c b)) choices)) \<and>
    (\<forall>b<Len c. length (T ! b) = 64 \<and> length (keys ! b) = 64) \<and>
    (\<forall>rs rr rest rest'. concat rs = t @ rest \<and> concat rr = s @ rest' \<longrightarrow>
      (\<exists>rs' w' rr' v'.
        Receive_oprf er (NewOPRF (Len c)) rnd c key rs w = Inr (E, rs', w') \<and> concat rs' = rest \<and> wrote w' = wrote w @ s \<and>
        Send_oprf es (NewOPRF (Len c)) (Inr choices) rr v = Inr (\<lparr>secret = choices, oprfKeys = keys\<rparr>, rr', v') \<and>
        concat rr' = rest' \<and> wrote v' = wrote v @ t \<and> budget w \<le> budget w' + 1538 \<and> budget v \<le> budget v' + 512))"
proof -
  let ?ms = "map (\<lambda>i. (msg i 0, msg i 1)) [0..<baseOTCount]" and ?m = "Len c"
  define h where "h = ot_hash (base_env er)"
  define l where "l = padded ?m div 8"
  define M where "M = code_matrix er key c"
  define prcT where "prcT = bit_transpose 512 M"
  have env: "env_pools er" "env_pools es" "ot_run_ok (base_env er) (base_env es) baseOTCount"
    and aes: "\<And>s. length (aes_block er key s) = BlockSize" using ok by (simp_all add: oprf_run_ok_def oprf_env_ok_def)
  have h: "ot_hash (base_env er) = h" "ot_hash (base_env es) = h" "blake3_ok h"
    using env(3) by (simp_all add: h_def ot_run_ok_def ot_env_ok_def)
  have M: "rows_of 64 M" "length M = padded ?m" "\<And>b. b < ?m \<Longrightarrow> M ! b = prc_row er key c b"
    using padded_bounds(1) [of ?m] by (auto simp: M_def rows_of_def code_matrix_def length_prc_row [OF aes])
  have lT: "length (prcT ! col) = l" if "col < 512" for col
    using rows_of_nth [OF rows_of_bit_transpose [of M 512]] that M(2) by (simp add: prcT_def l_def)
  let ?E = "map (col_enc h l ?ms) [0..<512]" and ?K = "map (col_key h l ?ms prcT choices) [0..<512]"
  let ?T = "take ?m (bit_transpose (8 * l) ?E)" and ?keys = "take ?m (bit_transpose (8 * l) ?K)"
  have m: "?m \<le> 8 * l" using padded_bounds(1,4) [of ?m] by (simp add: l_def)
  have rows: "rows_of l ?E" "rows_of l ?K" using h(3) lT by (auto simp: rows_of_def)
  have wide: "ConcurrentTransposeWide (maxProcs env) (op_ord env i) X = Inr (bit_transpose (8 * l) X)"
    if "env_pools env" "rows_of l X" "length X = 512" for env i X
    unfolding ConcurrentTransposeWide_def
    by (rule generic_codec.wide_transpose) (use that padded_bounds(3) [of ?m] in \<open>auto simp: env_pools_def pool_ok_def l_def\<close>)
  obtain E where E: "fold_res (index_encoding er c ?T) [0..<?m] (replicate Nhash (\<lambda>_. None)) = Inr E" "indexes er c ?T ?m E"
    using index_encoding_all [OF inv order.refl] by blast
  have msgs: "\<And>i. i < length ?ms \<Longrightarrow> length (fst (?ms ! i)) = replicate baseOTCount 64 ! i \<and> length (snd (?ms ! i)) = replicate baseOTCount 64 ! i"
    using rnd(2) by simp
  have "\<exists>s t. \<forall>rs rr rest rest'. concat rs = t @ rest \<and> concat rr = s @ rest' \<longrightarrow>
    (\<exists>rs' w' rr' v'.
      Send_naorPinkas (base_env er) (replicate baseOTCount 64) ?ms rs w = Inr (rs', w') \<and> concat rs' = rest \<and> wrote w' = wrote w @ s \<and>
      budget w' + 2 * length ?ms + 2 = budget w \<and>
      Receive_naorPinkas (base_env es) (replicate baseOTCount 64) choices (replicate (length ?ms) []) rr v =
        Inr (map (\<lambda>i. if choice_bit choices i then snd (?ms ! i) else fst (?ms ! i)) [0..<length ?ms], rr', v') \<and>
      concat rr' = rest' \<and> wrote v' = wrote v @ t \<and> budget v' + length ?ms = budget v)"
    by (rule naor_pinkas_run) (use env(3) choices budgets msgs in simp_all)
  then obtain s t where ot: "\<And>rs rr rest rest'. concat rs = t @ rest \<Longrightarrow> concat rr = s @ rest' \<Longrightarrow>
    \<exists>rs' w' rr' v'.
      Send_naorPinkas (base_env er) (replicate baseOTCount 64) ?ms rs w = Inr (rs', w') \<and> concat rs' = rest \<and> wrote w' = wrote w @ s \<and>
      budget w' + 2 * length ?ms + 2 = budget w \<and>
      Receive_naorPinkas (base_env es) (replicate baseOTCount 64) choices (replicate (length ?ms) []) rr v =
        Inr (map (\<lambda>i. if choice_bit choices i then snd (?ms ! i) else fst (?ms ! i)) [0..<length ?ms], rr', v') \<and>
      concat rr' = rest' \<and> wrote v' = wrote v @ t \<and> budget v' + length ?ms = budget v" by blast
  let ?masks = "concat (map (col_mask h l ?ms prcT) [0..<512])"
  have run: "\<exists>rs' w' rr' v'.
        Receive_oprf er (NewOPRF ?m) rnd c key rs w = Inr (E, rs', w') \<and> concat rs' = rest \<and> wrote w' = wrote w @ s @ ?masks \<and>
        Send_oprf es (NewOPRF ?m) (Inr choices) rr v = Inr (\<lparr>secret = choices, oprfKeys = ?keys\<rparr>, rr', v') \<and>
        concat rr' = rest' \<and> wrote v' = wrote v @ t \<and> budget w \<le> budget w' + 1538 \<and> budget v \<le> budget v' + 512"
    if rs: "concat rs = t @ rest" and rr: "concat rr = (s @ ?masks) @ rest'" for rs rr rest rest'
  proof -
    from rr have "concat rr = s @ ?masks @ rest'" by simp
    from ot [OF rs this] obtain rs1 w1 rr1 v1 where ot1:
      "Send_naorPinkas (base_env er) (replicate baseOTCount 64) ?ms rs w = Inr (rs1, w1)" "concat rs1 = rest" "wrote w1 = wrote w @ s"
      "budget w1 + 2 * length ?ms + 2 = budget w"
      "Receive_naorPinkas (base_env es) (replicate baseOTCount 64) choices (replicate (length ?ms) []) rr v =
        Inr (map (\<lambda>i. if choice_bit choices i then snd (?ms ! i) else fst (?ms ! i)) [0..<length ?ms], rr1, v1)"
      "concat rr1 = ?masks @ rest'" "wrote v1 = wrote v @ t" "budget v1 + length ?ms = budget v" by blast
    have "length [0..<512] \<le> budget w1" using ot1(4) budgets(1) by simp
    from receive_cols [OF env(1) h(1,3) _ this, of prcT l ?ms "[]"] lT obtain w2 where
      w2: "fold_res (receive_col er ?ms prcT l) [0..<512] ([], w1) = Inr (?E, w2)" "wrote w2 = wrote w1 @ ?masks" "budget w2 + 512 = budget w1"
      by auto
    define seeds where "seeds = map (\<lambda>i. if choice_bit choices i then snd (?ms ! i) else fst (?ms ! i)) [0..<length ?ms]"
    have "length (prcT ! col) = l \<and> col div 8 < length choices \<and>
        seeds ! col = (if choice_bit choices col then snd (?ms ! col) else fst (?ms ! col))" if "col \<in> set [0..<512]" for col
      using lT that choices by (simp add: seeds_def)
    from send_cols [OF env(2) h(2,3) this ot1(6), of "[]"] obtain rr2 where
      rr2: "fold_res (send_col es choices seeds l) [0..<512] ([], rr1) = Inr (?K, rr2)" "concat rr2 = rest'" by auto
    have "Receive_oprf er (NewOPRF ?m) rnd c key rs w = Inr (E, rs1, w2)"
      using ot1(1) w2(1) E(1) key m wide [OF env(1) rows(1)] prc_matrix_eq [OF inv env(1) aes] sampleRandomOTMessages_eq [of rnd msg] rnd(1)
      by (simp add: Receive_oprf_def NewOPRF_def NewCipher_def PadBitMap_padded [simplified] go_slice_def l_def [symmetric] prcT_def M_def)
    moreover have "Send_oprf es (NewOPRF ?m) (Inr choices) rr v = Inr (\<lparr>secret = choices, oprfKeys = ?keys\<rparr>, rr2, v1)"
      using ot1(5) [folded seeds_def] rr2(1) m wide [OF env(2) rows(2)]
      by (simp add: Send_oprf_def NewOPRF_def PadBitMap_padded [simplified] go_slice_def l_def [symmetric])
    ultimately show ?thesis using ot1 w2 rr2(2) by simp
  qed
  have enc: "map2 (XOR) (map2 (AND) x choices) (?keys ! b) =
      map2 (XOR) (?T ! b) (map2 (AND) (map2 (XOR) x (prc_row er key c b)) choices)" if "b < ?m" "length x = 64" for b x
    using key_rows [OF h(3) that(1) M(1,2) choices that(2), of ?ms] that(1) M(3) by (simp add: l_def prcT_def)
  have lens: "length (?T ! b) = 64 \<and> length (?keys ! b) = 64" if "b < ?m" for b
    using rows_of_nth [OF rows_of_bit_transpose [of ?E "8 * l"], of b] rows_of_nth [OF rows_of_bit_transpose [of ?K "8 * l"], of b] that m by simp
  have T: "T = ?T" "keys = ?keys"
    by (simp_all add: T_def keys_def run_encodings_def run_keys_def run_msgs_def h_def l_def prcT_def M_def Let_def)
  have len: "length ?keys = ?m" using m by simp
  show ?thesis unfolding T
    by (intro exI [of _ "s @ ?masks"] exI [of _ t] exI [of _ E] conjI [OF E(2)] conjI [OF len] conjI allI impI)
      (erule (1) enc | rule lens [THEN conjunct1], assumption | rule lens [THEN conjunct2], assumption | elim conjE, erule (1) run)+
qed

lemma Encode_oprf_eq:
  assumes "pool_ok n ord" and "b < length (oprfKeys k)" and "length x = length (secret k)" and "length x = length (oprfKeys k ! b)"
  shows "Encode_oprf n ord k b x = Inr (map2 (XOR) (map2 (AND) x (secret k)) (oprfKeys k ! b))"
  using assms by (simp add: Encode_oprf_def go_nth_def pool_ok_def and_xor_op.double_pool_eq AndXor_eq)

lemma masked_self:
  assumes "length x = length c" and "length t = length (x :: bytes)"
  shows "map2 (XOR) t (map2 (AND) (map2 (XOR) x x) c) = t"
  using assms by (intro nth_equalityI) simp_all

section \<open>Properties\<close>

text \<open>
  Property C6. The oblivious pseudorandom function is correct. A run of the receiver with a cuckoo
  table against a run of the sender, over streams that arrive in any pieces, ends without error on
  both sides. The sender's key gives, for every bucket, on the pseudorandom code of the item in that
  bucket the receiver's encoding \<open>T ! b\<close>; the receiver's map of the item's hash index contains the hash
  of the encoding for every occupied bucket, and nothing else.
\<close>
theorem oprf_correct:
  assumes "oprf_run_ok er es key" and "length key = BlockSize" and "cuckoo_inv H c" and "0 < Len c"
    and "rnd = (\<lambda>i j. Inr (msg i j))" and "\<forall>i j. length (msg i j) = 64" and "length choices = 64"
    and "1538 \<le> budget w" and "512 \<le> budget v" and "pool_ok n ord"
  shows "let T = run_encodings er c msg; k = \<lparr>secret = choices, oprfKeys = run_keys er key c msg choices\<rparr> in \<exists>s t E.
    (\<forall>rs rr. concat rs = t \<and> concat rr = s \<longrightarrow>
      (\<exists>rs' w' rr' v'. Receive_oprf er (NewOPRF (Len c)) rnd c key rs w = Inr (E, rs', w') \<and> wrote w' = wrote w @ s \<and>
        Send_oprf es (NewOPRF (Len c)) (Inr choices) rr v = Inr (k, rr', v') \<and> wrote v' = wrote v @ t)) \<and>
    (\<forall>b<Len c. Encode_oprf n ord k b (prc_row er key c b) = Inr (T ! b)) \<and> indexes er c T (Len c) E"
proof -
  define T where "T = run_encodings er c msg"
  define keys where "keys = run_keys er key c msg choices"
  obtain s t E where run: "indexes er c T (Len c) E" "length keys = Len c"
    "\<And>b x. b < Len c \<Longrightarrow> length x = 64 \<Longrightarrow> map2 (XOR) (map2 (AND) x choices) (keys ! b) =
      map2 (XOR) (T ! b) (map2 (AND) (map2 (XOR) x (prc_row er key c b)) choices)"
    "\<And>b. b < Len c \<Longrightarrow> length (T ! b) = 64 \<and> length (keys ! b) = 64"
    "\<And>rs rr rest rest'. concat rs = t @ rest \<and> concat rr = s @ rest' \<Longrightarrow>
      \<exists>rs' w' rr' v'.
        Receive_oprf er (NewOPRF (Len c)) rnd c key rs w = Inr (E, rs', w') \<and> concat rs' = rest \<and> wrote w' = wrote w @ s \<and>
        Send_oprf es (NewOPRF (Len c)) (Inr choices) rr v = Inr (\<lparr>secret = choices, oprfKeys = keys\<rparr>, rr', v') \<and>
        concat rr' = rest' \<and> wrote v' = wrote v @ t \<and> budget w \<le> budget w' + 1538 \<and> budget v \<le> budget v' + 512"
    using oprf_run [OF assms(1-9)] unfolding T_def keys_def by blast
  let ?k = "\<lparr>secret = choices, oprfKeys = keys\<rparr>"
  have row: "length (prc_row er key c b) = 64" for b
    using assms(1) by (intro length_prc_row) (simp add: oprf_run_ok_def oprf_env_ok_def)
  have "Encode_oprf n ord ?k b (prc_row er key c b) = Inr (T ! b)" if "b < Len c" for b
    using Encode_oprf_eq [OF assms(10), of b ?k "prc_row er key c b"] run(2) run(3) [OF that row] run(4) [OF that] row assms(7)
      masked_self [of "prc_row er key c b" choices "T ! b"] that by simp
  moreover have "\<exists>rs' w' rr' v'. Receive_oprf er (NewOPRF (Len c)) rnd c key rs w = Inr (E, rs', w') \<and> wrote w' = wrote w @ s \<and>
        Send_oprf es (NewOPRF (Len c)) (Inr choices) rr v = Inr (?k, rr', v') \<and> wrote v' = wrote v @ t"
    if "concat rs = t \<and> concat rr = s" for rs rr
    using run(5) [of rs "[]" rr "[]"] that by auto
  ultimately show ?thesis using run(1) unfolding T_def [symmetric] keys_def [symmetric] Let_def by blast
qed

definition toy_oprf :: "byte \<Rightarrow> byte \<Rightarrow> oprf_env" where
  "toy_oprf k0 k1 = \<lparr>SeedSum128 = (\<lambda>_ _ x. (of_nat (length x), 7)), aes_block = (\<lambda>key s. map2 (XOR) (take 16 (s @ replicate 16 0)) (take 16 (key @ replicate 16 0))),
     hashes = toy_lib, base_env = toy_ot k0 k1, maxProcs = 1, op_ord = (\<lambda>_. [0])\<rparr>"

lemma toy_oprf_ok: "oprf_run_ok (toy_oprf 5 7) (toy_oprf 9 11) key"
  using toy_run_ok [of baseOTCount]
  by (auto simp: oprf_run_ok_def oprf_env_ok_def env_pools_def pool_ok_def toy_oprf_def)

theorem oprf_correct_witness:
  "let T = run_encodings (toy_oprf 5 7) toy_full (\<lambda>i j. replicate 64 (of_nat (i + j)));
       k = \<lparr>secret = replicate 64 85, oprfKeys = run_keys (toy_oprf 5 7) (replicate 16 3) toy_full (\<lambda>i j. replicate 64 (of_nat (i + j))) (replicate 64 85)\<rparr>
   in \<exists>s t E.
    (\<forall>rs rr. concat rs = t \<and> concat rr = s \<longrightarrow>
      (\<exists>rs' w' rr' v'. Receive_oprf (toy_oprf 5 7) (NewOPRF (Len toy_full)) (\<lambda>i j. Inr (replicate 64 (of_nat (i + j)))) toy_full (replicate 16 3) rs
          \<lparr>wrote = [], budget = 2000\<rparr> = Inr (E, rs', w') \<and> wrote w' = wrote \<lparr>wrote = [], budget = 2000\<rparr> @ s \<and>
        Send_oprf (toy_oprf 9 11) (NewOPRF (Len toy_full)) (Inr (replicate 64 85)) rr \<lparr>wrote = [], budget = 600\<rparr> = Inr (k, rr', v') \<and>
        wrote v' = wrote \<lparr>wrote = [], budget = 600\<rparr> @ t)) \<and>
    (\<forall>b<Len toy_full. Encode_oprf 1 [0] k b (prc_row (toy_oprf 5 7) (replicate 16 3) toy_full b) = Inr (T ! b)) \<and>
    indexes (toy_oprf 5 7) toy_full T (Len toy_full) E"
  by (rule oprf_correct [OF toy_oprf_ok _ toy_full_inv])
    (simp_all add: pool_ok_def Len_def toy_full_def toy_table_def)

end
