(* ===== verification/KKRT.thy ===== *)
theory KKRT
  imports OPRF Select
begin

text \<open>
  The protocol of \<open>pkg/kkrtpsi\<close>: cuckoo hashing on the receiver's side, the oblivious pseudorandom
  function, and the comparison of hashed encodings. Sender and receiver run concurrently; each is a
  function of the bytes that arrive from the other.
\<close>

section \<open>Environment and messages\<close>

text \<open>
  What the environment decides: the contexts of the stages, all random bytes, the evictions of the
  cuckoo table, the order in which the workers of each Encode run and in which the batches of stage 3
  reach the writer.
\<close>

record kkrt_env =
  k_oprf :: oprf_env
  k_ctx :: "nat \<Rightarrow> error option"
  k_seed :: "nat \<Rightarrow> bytes result"
  k_secret :: "bytes result"
  k_choices :: "bytes result"
  k_rb :: "bytes result"
  k_evict :: "nat \<Rightarrow> nat \<Rightarrow> nat"
  k_msgs :: "nat \<Rightarrow> nat \<Rightarrow> bytes result"
  k_batch_ord :: "nat list"

definition EncodingsWrite :: "buf_writer \<Rightarrow> u64 list \<Rightarrow> buf_writer result" where
  "EncodingsWrite w u = buf_write (1024 * 64) (concat (map be_put64 u)) w"

definition EncodingsRead :: "io_reader \<Rightarrow> (u64 list \<times> io_reader) result" where
  "EncodingsRead r = bind_res (ReadFull (8 * Nhash) r) (\<lambda>(bs, r).
     Inr (map (\<lambda>i. be_get64 (sub_list bs (8 * i) 8)) [0..<Nhash], r))"

record inputToOprfEncode =
  prcEncoded :: "bytes list"
  bucketIdx :: "nat list"

record stage1Result =
  inputs :: "inputToOprfEncode list"
  s1_hasher :: Hasher

definition encodeAndHash :: "oprf_env \<Rightarrow> Key \<Rightarrow> Hasher \<Rightarrow> inputToOprfEncode \<Rightarrow> u64 list result" where
  "encodeAndHash env oprfKey hasher input =
     fold_res (\<lambda>hIdx hs.
       bind_res (Encode_oprf (maxProcs env) (op_ord env hIdx) oprfKey (bucketIdx input ! hIdx) (prcEncoded input ! hIdx)) (\<lambda>e.
         Inr (hs @ [Hash64 (hashes env) hasher e])))
       [0..<length (bucketIdx input)] []"

section \<open>Sender\<close>

text \<open>The goroutine that precomputes the codes and buckets of all identifiers.\<close>

definition encode_input :: "oprf_env \<Rightarrow> (bytes \<Rightarrow> bytes) \<Rightarrow> CuckooHasher \<Rightarrow> bytes \<Rightarrow> inputToOprfEncode result" where
  "encode_input env aesBlock cuckooHasher ident =
     (let codes = map (\<lambda>hIdx. PseudorandomCode (SeedSum128 env) aesBlock ident (of_nat hIdx)) [0..<Nhash] in
      bind_res (BucketIndices (hashes env) cuckooHasher ident) (\<lambda>bucketIdx.
        Inr \<lparr>prcEncoded = codes, bucketIdx = bucketIdx\<rparr>))"

definition encode_inputs :: "oprf_env \<Rightarrow> (bytes \<Rightarrow> bytes) \<Rightarrow> CuckooHasher \<Rightarrow> nat \<Rightarrow> bytes list \<Rightarrow> stage1Result result" where
  "encode_inputs env aesBlock cuckooHasher n identifiers =
     bind_res (fold_res (\<lambda>i ins. bind_res (encode_input env aesBlock cuckooHasher (identifiers ! i)) (go_set ins i))
         [0..<length identifiers] (replicate n \<lparr>prcEncoded = replicate Nhash [], bucketIdx = replicate Nhash 0\<rparr>)) (\<lambda>ins.
       Inr \<lparr>inputs = ins, s1_hasher = GetHasher cuckooHasher\<rparr>)"

definition Sender_stage1 :: "kkrt_env \<Rightarrow> nat \<Rightarrow> bytes list \<Rightarrow> io_reader \<Rightarrow> io_writer \<Rightarrow>
    (nat \<times> stage1Result \<times> io_reader \<times> io_writer) result" where
  "Sender_stage1 env n identifiers r w =
     bind_res (fold_res (\<lambda>i (seeds, w). bind_res (k_seed env i) (\<lambda>s. bind_res (write_conn s w) (\<lambda>w. Inr (seeds @ [s], w))))
         [0..<Nhash] ([], w)) (\<lambda>(seeds, w).
     bind_res (read_int64 r) (\<lambda>(remoteN, r).
     bind_res (k_secret env) (\<lambda>secretKey.
     bind_res (write_conn secretKey w) (\<lambda>w.
       let oprfInputSize = factor_mul (nat (sint remoteN));
           oprfInputSize = (if 1 > oprfInputSize then 1 else oprfInputSize) in
       bind_res (NewCipher (k_oprf env) secretKey) (\<lambda>aesBlock.
       bind_res (NewCuckooHasher (unat remoteN) seeds) (\<lambda>cuckooHasher.
       bind_res (encode_inputs (k_oprf env) aesBlock cuckooHasher n identifiers) (\<lambda>message.
         Inr (oprfInputSize, message, r, w))))))))"

definition Sender_stage2 :: "kkrt_env \<Rightarrow> nat \<Rightarrow> io_reader \<Rightarrow> io_writer \<Rightarrow> (Key \<times> io_reader \<times> io_writer) result" where
  "Sender_stage2 env oprfInputSize r w = Send_oprf (k_oprf env) (NewOPRF oprfInputSize) (k_choices env) r w"

text \<open>
  The batches of stage 3: each of \<open>nWorkers\<close> workers makes \<open>workerResp\<close> batches of 2048 inputs, the
  extra worker one batch of what is left.
\<close>

definition stage3_batches :: "nat \<Rightarrow> nat \<Rightarrow> nat list list" where
  "stage3_batches nWorkers len =
     (let batchSize = 2048; nBatches = len div batchSize; workerResp = nBatches div nWorkers;
          workLeft = len - workerResp * nWorkers * batchSize in
      concat (map (\<lambda>w. map (\<lambda>batchNumber. let step = (w * workerResp + batchNumber) * batchSize
                              in [step..<step + batchSize]) [0..<workerResp]) [0..<nWorkers]) @
      (if workLeft = 0 then [] else [[len - workLeft..<len]]))"

definition encode_batch :: "oprf_env \<Rightarrow> Key \<Rightarrow> stage1Result \<Rightarrow> nat list \<Rightarrow> u64 list list result" where
  "encode_batch env oprfKey message is =
     fold_res (\<lambda>i es. bind_res (go_nth (inputs message) i) (\<lambda>input.
       bind_res (encodeAndHash env oprfKey (s1_hasher message) input) (\<lambda>e. Inr (es @ [e])))) is []"

text \<open>
  The writer takes the batches in the order in which they arrive and stops when all inputs are sent.
\<close>

definition Sender_stage3 :: "kkrt_env \<Rightarrow> nat \<Rightarrow> stage1Result \<Rightarrow> Key \<Rightarrow> io_writer \<Rightarrow> io_writer result" where
  "Sender_stage3 env n message oprfKey w =
     bind_res (write_conn (be_put64 (of_nat n)) w) (\<lambda>w.
       let batches = stage3_batches (maxProcs (k_oprf env)) (length (inputs message)) in
       bind_res (fold_res (\<lambda>k bw. bind_res (encode_batch (k_oprf env) oprfKey message (batches ! k)) (\<lambda>batch.
           fold_res (\<lambda>e bw. wrap_err ''stage3'' (EncodingsWrite bw e)) batch bw)) (k_batch_ord env) ([], w)) (\<lambda>bw.
         Inr (Flush bw)))"

definition Send :: "kkrt_env \<Rightarrow> nat \<Rightarrow> bytes list \<Rightarrow> io_reader \<Rightarrow> io_writer \<Rightarrow> io_writer result option" where
  "Send env n identifiers r w =
     bind_run (Sel (k_ctx env 1) (Some (Sender_stage1 env n identifiers r w))) (\<lambda>(oprfInputSize, message, r, w).
     bind_run (Sel (k_ctx env 2) (Some (Sender_stage2 env oprfInputSize r w))) (\<lambda>(oprfKey, r, w).
       Sel (k_ctx env 3) (Some (Sender_stage3 env n message oprfKey w))))"

section \<open>Receiver\<close>

definition insert_all :: "kkrt_env \<Rightarrow> bytes list \<Rightarrow> Cuckoo \<Rightarrow> Cuckoo result" where
  "insert_all env identifiers c =
     fold_res (\<lambda>i c. bind_res (Insert (hashes (k_oprf env)) (k_evict env i) (identifiers ! i) c) (\<lambda>(err, c).
       case err of Some e \<Rightarrow> Inl e | None \<Rightarrow> Inr c)) [0..<length identifiers] c"

definition Receiver_stage1 :: "kkrt_env \<Rightarrow> nat \<Rightarrow> bytes list \<Rightarrow> io_reader \<Rightarrow> io_writer \<Rightarrow>
    (Cuckoo \<times> bytes \<times> io_reader \<times> io_writer) result" where
  "Receiver_stage1 env n identifiers r w =
     bind_res (fold_res (\<lambda>i (seeds, r). bind_res (wrap_err ''stage1'' (ReadFull SaltLength r)) (\<lambda>(s, r). Inr (seeds @ [s], r)))
         [0..<Nhash] ([], r)) (\<lambda>(seeds, r).
     bind_res (write_conn (be_put64 (of_nat n)) w) (\<lambda>w.
     bind_res (NewCuckoo (k_rb env) n seeds) (\<lambda>c.
     bind_res (insert_all env identifiers c) (\<lambda>c.
     bind_res (wrap_err ''stage1'' (ReadFull 16 r)) (\<lambda>(secretKey, r).
       Inr (c, secretKey, r, w))))))"

definition Receiver_stage2 :: "kkrt_env \<Rightarrow> Cuckoo \<Rightarrow> bytes \<Rightarrow> io_reader \<Rightarrow> io_writer \<Rightarrow>
    ((u64 \<rightharpoonup> nat) list \<times> io_reader \<times> io_writer) result" where
  "Receiver_stage2 env c secretKey r w = Receive_oprf (k_oprf env) (NewOPRF (Len c)) (k_msgs env) c secretKey r w"

text \<open>
  One encoding of a remote identifier: a hit appends the item and is deleted from the map. The code tests the item
  for nil; byte slices are lists here, so that an item that is empty without being nil, an empty identifier
  of the receiver, is taken for nil as well. The theorems are about identifiers that are not empty.
\<close>

definition match_hash :: "Cuckoo \<Rightarrow> u64 list \<Rightarrow> nat \<Rightarrow> (u64 \<rightharpoonup> nat) list \<times> bytes list \<Rightarrow> ((u64 \<rightharpoonup> nat) list \<times> bytes list) result" where
  "match_hash c remoteEncoding hashIdx = (\<lambda>(oprfOutput, intersection).
     bind_res (go_nth oprfOutput hashIdx) (\<lambda>m.
       case m (remoteEncoding ! hashIdx) of
         None \<Rightarrow> Inr (oprfOutput, intersection)
       | Some idx \<Rightarrow>
           bind_res (GetItemWithHash c idx) (\<lambda>(item, _).
             if item = [] then Inl (ErrRetrieveItem (of_nat idx))
             else Inr (oprfOutput[hashIdx := m(remoteEncoding ! hashIdx := None)], intersection @ [item]))))"

fun stage3_loop :: "nat \<Rightarrow> Cuckoo \<Rightarrow> (u64 \<rightharpoonup> nat) list \<Rightarrow> bytes list \<Rightarrow> io_reader \<Rightarrow> (bytes list \<times> io_reader) result" where
  "stage3_loop 0 c oprfOutput intersection r = Inr (intersection, r)"
| "stage3_loop (Suc k) c oprfOutput intersection r =
     bind_res (EncodingsRead r) (\<lambda>(remoteEncoding, r).
     bind_res (fold_res (match_hash c remoteEncoding) [0..<length remoteEncoding] (oprfOutput, intersection)) (\<lambda>(oprfOutput, intersection).
       stage3_loop k c oprfOutput intersection r))"

definition Receiver_stage3 :: "Cuckoo \<Rightarrow> (u64 \<rightharpoonup> nat) list \<Rightarrow> io_reader \<Rightarrow> (bytes list \<times> io_reader) result" where
  "Receiver_stage3 c oprfOutput r =
     bind_res (read_int64 r) (\<lambda>(remoteN, r). stage3_loop (nat (sint remoteN)) c oprfOutput [] r)"

definition Intersect :: "kkrt_env \<Rightarrow> nat \<Rightarrow> bytes list \<Rightarrow> io_reader \<Rightarrow> io_writer \<Rightarrow> (bytes list \<times> io_writer) result option" where
  "Intersect env n identifiers r w =
     bind_run (Sel (k_ctx env 1) (Some (Receiver_stage1 env n identifiers r w))) (\<lambda>(c, secretKey, r, w).
     bind_run (Sel (k_ctx env 2) (Some (Receiver_stage2 env c secretKey r w))) (\<lambda>(oprfOutput, r, w).
     bind_run (Sel (k_ctx env 3) (Some (Receiver_stage3 c oprfOutput r))) (\<lambda>(intersection, r).
       Some (Inr (intersection, w)))))"

section \<open>Messages\<close>

lemma EncodingsRead_put:
  assumes "length u = Nhash" and "concat r = concat (map be_put64 u) @ rest"
  shows "\<exists>r'. EncodingsRead r = Inr (u, r') \<and> concat r' = rest"
proof -
  obtain a b c where u: "u = [a, b, c]" using assms(1) by (auto simp: numeral_3_eq_3 length_Suc_conv)
  have "length (concat (map be_put64 u)) = 8 * Nhash" by (simp add: u)
  from ReadFull_spec [OF assms(2) this] obtain r' where "ReadFull (8 * Nhash) r = Inr (concat (map be_put64 u), r')" "concat r' = rest" by blast
  moreover have "map (\<lambda>i. be_get64 (sub_list (concat (map be_put64 u)) (8 * i) 8)) [0..<Nhash] = u"
    by (simp add: u upt_rec sub_list_def be_get_put64)
  ultimately show ?thesis by (simp add: EncodingsRead_def)
qed

section \<open>The receiver's table\<close>

lemma tryAdd_loop_hasher: "tryAdd_loop idx ign ex h bs c = Inr (a, c') \<Longrightarrow> cHasher c' = cHasher c"
proof (induction bs arbitrary: h)
  case (Cons b bs)
  show ?case
  proof (cases "ign \<and> ex = b \<or> isEmpty c b = Inr False")
    case True
    then have "tryAdd_loop idx ign ex h (b # bs) c = tryAdd_loop idx ign ex (Suc h) bs c" by auto
    with Cons show ?thesis by simp
  next
    case False
    with Cons.prems have "isEmpty c b = Inr True" by (cases "isEmpty c b") auto
    with False Cons.prems show ?thesis by (auto simp: bind_res_Inr_iff)
  qed
qed simp

lemma tryGreedyAdd_loop_hasher: "tryGreedyAdd_loop H rnd n idx bs c = Inr (home, a, c') \<Longrightarrow> cHasher c' = cHasher c"
proof (induction n arbitrary: idx bs c)
  case (Suc n)
  from Suc.prems obtain evictedBIdx evictedIdx bl hi evictedBs added c1 where c1:
    "tryAdd evictedIdx evictedBs True evictedBIdx (c\<lparr>bucketLookup := bl, hashIndices := hi\<rparr>) = Inr (added, c1)"
    "(if added then Inr (0, True, c1) else tryGreedyAdd_loop H rnd n evictedIdx evictedBs c1) = Inr (home, a, c')"
    unfolding tryGreedyAdd_loop.simps Let_def bind_res_Inr_iff by (elim exE conjE) (simp only: split_paired_all prod.case)
  from tryAdd_loop_hasher [OF c1(1) [unfolded tryAdd_def]] have "cHasher c1 = cHasher c" by simp
  moreover have "cHasher c' = cHasher c1" using c1(2) Suc.IH [of evictedIdx evictedBs c1] by (cases added) simp_all
  ultimately show ?case by simp
qed simp

lemma cuckoo_fields: "cHasher (c\<lparr>items := its\<rparr>) = cHasher c"
  by simp

lemma Insert_hasher:
  assumes "Insert H rnd item c = Inr (e, c')"
  shows "cHasher c' = cHasher c"
proof (cases "inserted c = length (items c)")
  case False
  from assms obtain its bs found where step:
    "(if found then Inr (None, c\<lparr>items := its\<rparr>)
      else bind_res (tryAdd (inserted (c\<lparr>items := its\<rparr>) + 1) bs False 0 (c\<lparr>items := its\<rparr>)) (\<lambda>(added, c).
        if added then Inr (None, c\<lparr>inserted := inserted c + 1\<rparr>)
        else bind_res (tryGreedyAdd H rnd (inserted c + 1) bs c) (\<lambda>(homelessIdx, added, c).
          if added then Inr (None, c\<lparr>inserted := inserted c + 1\<rparr>)
          else Inr (Some (ErrCuckooHomeless homelessIdx), c)))) = Inr (e, c')"
    unfolding Insert_def Let_def if_not_P [OF False] bind_res_Inr_iff [of _ _ "(e, c')"]
    by (elim exE conjE) (simp only: split_paired_all prod.case cuckoo_fields)
  show ?thesis
  proof (cases found)
    case True
    with step show ?thesis by auto
  next
    case new: False
    with step obtain added c1 where c1: "tryAdd (inserted c + 1) bs False 0 (c\<lparr>items := its\<rparr>) = Inr (added, c1)"
      "(if added then Inr (None, c1\<lparr>inserted := inserted c1 + 1\<rparr>)
        else bind_res (tryGreedyAdd H rnd (inserted c1 + 1) bs c1) (\<lambda>(homelessIdx, added, c).
          if added then Inr (None, c\<lparr>inserted := inserted c + 1\<rparr>)
          else Inr (Some (ErrCuckooHomeless homelessIdx), c))) = Inr (e, c')"
      by (auto simp: bind_res_Inr_iff)
    have "cHasher c1 = cHasher c" using tryAdd_loop_hasher [OF c1(1) [unfolded tryAdd_def]] by simp
    moreover have "cHasher c' = cHasher c1"
      using c1(2) by (auto simp: bind_res_Inr_iff tryGreedyAdd_def dest!: tryGreedyAdd_loop_hasher split: if_splits)
    ultimately show ?thesis by simp
  qed
qed (use assms in \<open>simp add: Insert_def\<close>)

lemma insert_all_spec:
  assumes "insert_all env ids c = Inr c'" and "cuckoo_inv (hashes (k_oprf env)) c" and "inserted c + length ids < length (items c)"
    and "[] \<notin> set ids"
  shows "cuckoo_inv (hashes (k_oprf env)) c' \<and> contents c' = contents c \<union> set ids \<and> cHasher c' = cHasher c"
proof -
  let ?H = "hashes (k_oprf env)"
  let ?step = "\<lambda>i c. bind_res (Insert ?H (k_evict env i) (ids ! i) c) (\<lambda>(err, c). case err of Some e \<Rightarrow> Inl e | None \<Rightarrow> Inr c)"
  have "fold_res ?step [0..<k] c = Inr c' \<Longrightarrow> cuckoo_inv ?H c' \<and> contents c' = contents c \<union> set (take k ids) \<and> cHasher c' = cHasher c \<and>
      inserted c' \<le> inserted c + k \<and> length (items c') = length (items c)" if "k \<le> length ids" for k c'
    using that
  proof (induction k arbitrary: c')
    case 0
    with assms(2) show ?case by simp
  next
    case (Suc k)
    from Suc.prems(1) obtain c1 where c1: "fold_res ?step [0..<k] c = Inr c1" "?step k c1 = Inr c'"
      by (auto simp: fold_res_append bind_res_Inr_iff)
    with Suc have IH: "cuckoo_inv ?H c1" "contents c1 = contents c \<union> set (take k ids)" "cHasher c1 = cHasher c"
      "inserted c1 \<le> inserted c + k" "length (items c1) = length (items c)" by auto
    have ins: "Insert ?H (k_evict env k) (ids ! k) c1 = Inr (None, c')"
      using c1(2) by (auto simp: bind_res_Inr_iff split: option.splits)
    have room: "inserted c1 + 1 < length (items c1)" using IH(4,5) assms(3) Suc.prems(2) by simp
    have "ids ! k \<noteq> []" using assms(4) Suc.prems(2) by (metis Suc_le_eq nth_mem)
    with Insert_spec [OF IH(1) room, of "k_evict env k" "ids ! k"] ins
    have "cuckoo_inv ?H c' \<and> contents c' = insert (ids ! k) (contents c1) \<and> inserted c' \<le> inserted c1 + 1 \<and> length (items c') = length (items c1)"
      by (auto simp: insert_absorb)
    with IH Insert_hasher [OF ins] Suc.prems(2) show ?case by (simp add: take_Suc_conv_app_nth)
  qed
  from this [of "length ids" c'] assms(1) show ?thesis by (simp add: insert_all_def)
qed

section \<open>The sender's batches\<close>

lemma concat_blocks: "concat (map (\<lambda>k. [k * B..<k * B + B]) [0..<K]) = [0..<K * B :: nat]"
proof (induction K)
  case (Suc K)
  then show ?case using upt_add_eq_append [of 0 "K * B" B] by (simp add: add.commute)
qed simp

lemma concat_worker_blocks:
  "concat (concat (map (\<lambda>w. map (\<lambda>n. [(w * R + n) * B..<(w * R + n) * B + B]) [0..<R]) [0..<W])) = [0..<W * R * B :: nat]"
proof -
  have "concat (map (\<lambda>w. map (\<lambda>n. f (w * R + n)) [0..<R]) [0..<W]) = map f [0..<W * R]" for f :: "nat \<Rightarrow> nat list"
  proof (induction W)
    case (Suc W)
    have "map f [W * R..<W * R + R] = map (\<lambda>n. f (W * R + n)) [0..<R]"
      by (rule nth_equalityI) simp_all
    with Suc show ?case using upt_add_eq_append [of 0 "W * R" R] by (simp add: add.commute)
  qed simp
  from this [of "\<lambda>k. [k * B..<k * B + B]"] show ?thesis by (simp only: concat_blocks)
qed

lemma concat_stage3_batches:
  assumes "0 < nWorkers"
  shows "concat (stage3_batches nWorkers len) = [0..<len]"
proof -
  let ?R = "len div 2048 div nWorkers" let ?done = "?R * nWorkers * 2048"
  have "?R * nWorkers \<le> len div 2048" by (rule div_times_less_eq_dividend)
  then have "?done \<le> len div 2048 * 2048" by simp
  also have "\<dots> \<le> len" by (rule div_times_less_eq_dividend)
  finally have le: "?done \<le> len" .
  then have split: "[0..<len] = [0..<?done] @ [?done..<len]"
    using upt_add_eq_append [of 0 ?done "len - ?done"] by simp
  have "concat (stage3_batches nWorkers len) = [0..<nWorkers * ?R * 2048] @ (if len - ?done = 0 then [] else [len - (len - ?done)..<len])"
    unfolding stage3_batches_def Let_def concat_append concat_worker_blocks by simp
  also have "\<dots> = [0..<len]" unfolding split using le by (simp add: mult.commute mult.left_commute)
  finally show ?thesis .
qed

text \<open>In whatever order the batches arrive, every input is sent exactly once.\<close>

definition sent_order :: "nat \<Rightarrow> nat \<Rightarrow> nat list \<Rightarrow> nat list" where
  "sent_order nWorkers len ord = concat (map (\<lambda>k. stage3_batches nWorkers len ! k) ord)"

lemma mset_sent_order:
  assumes "0 < nWorkers" and "mset ord = mset [0..<length (stage3_batches nWorkers len)]"
  shows "mset (sent_order nWorkers len ord) = mset [0..<len]"
proof -
  let ?b = "stage3_batches nWorkers len"
  have perm: "mset (concat (map f xs)) = mset (concat (map f ys))" if "mset xs = mset ys" for f :: "nat \<Rightarrow> nat list" and xs ys
    using that by (metis mset_concat mset_map sum_mset_sum_list)
  have "mset (sent_order nWorkers len ord) = mset (concat (map (\<lambda>k. ?b ! k) [0..<length ?b]))"
    unfolding sent_order_def by (rule perm [OF assms(2)])
  also have "\<dots> = mset [0..<len]" by (simp only: map_nth concat_stage3_batches [OF assms(1)])
  finally show ?thesis .
qed

abbreviation be_encoding :: "u64 list \<Rightarrow> bytes" where
  "be_encoding e \<equiv> concat (map be_put64 e)"

lemma length_be_encoding: "length (be_encoding e) = 8 * length e"
  by (induction e) simp_all

lemma EncodingsWrite_all:
  assumes "length ks \<le> budget w" and "\<And>k. k \<in> set ks \<Longrightarrow> length (e k) = Nhash"
  shows "\<exists>buf' w'. fold_res (\<lambda>k bw. wrap_err p (EncodingsWrite bw (e k))) ks ([], w) = Inr (buf', w') \<and>
    wrote w' @ buf' = wrote w @ concat (map (\<lambda>k. be_encoding (e k)) ks) \<and> budget w \<le> budget w' + length ks"
proof -
  have "length (be_encoding (e k)) \<le> 1024 * 64" if "k \<in> set ks" for k using assms(2) [OF that] by (simp only: length_be_encoding)
  from buf_write_all [of ks w "\<lambda>k. be_encoding (e k)" "1024 * 64" "[]" p, OF assms(1) this] show ?thesis by (simp add: EncodingsWrite_def)
qed

lemma encode_batch_eq:
  assumes "\<forall>i<length (inputs message). encodeAndHash env key (s1_hasher message) (inputs message ! i) = Inr (e i)"
    and "set ks \<subseteq> {0..<length (inputs message)}"
  shows "encode_batch env key message ks = Inr (map e ks)"
proof -
  have "fold_res (\<lambda>i es. bind_res (go_nth (inputs message) i) (\<lambda>input.
       bind_res (encodeAndHash env key (s1_hasher message) input) (\<lambda>e. Inr (es @ [e])))) ks es = Inr (es @ map e ks)" for es
    using assms(2) by (induction ks arbitrary: es) (simp_all add: assms(1) go_nth_def)
  then show ?thesis by (simp add: encode_batch_def)
qed

lemma Sender_stage3_spec:
  assumes enc: "\<forall>i<length (inputs message). encodeAndHash (k_oprf env) key (s1_hasher message) (inputs message ! i) = Inr (e i)"
    and len: "\<forall>i. length (e i) = Nhash" and pool: "0 < maxProcs (k_oprf env)"
    and ord: "mset (k_batch_ord env) = mset [0..<length (stage3_batches (maxProcs (k_oprf env)) (length (inputs message)))]"
    and "length (inputs message) + 2 \<le> budget w"
  shows "\<exists>w'. Sender_stage3 env n message key w = Inr w' \<and> wrote w' = wrote w @ be_put64 (of_nat n) @
    concat (map (\<lambda>i. be_encoding (e i)) (sent_order (maxProcs (k_oprf env)) (length (inputs message)) (k_batch_ord env)))"
proof -
  let ?b = "stage3_batches (maxProcs (k_oprf env)) (length (inputs message))" and ?n = "length (inputs message)"
  let ?step = "\<lambda>k bw. bind_res (encode_batch (k_oprf env) key message (?b ! k)) (\<lambda>batch.
           fold_res (\<lambda>e bw. wrap_err ''stage3'' (EncodingsWrite bw e)) batch bw)"
  let ?so = "sent_order (maxProcs (k_oprf env)) ?n (k_batch_ord env)"
  have ms: "mset ?so = mset [0..<?n]" by (rule mset_sent_order [OF pool ord])
  then have so: "length ?so = ?n" by (metis size_mset length_upt diff_zero)
  have "set ?so = {0..<?n}" using mset_eq_setD [OF ms] by simp
  then have sub: "set (?b ! k) \<subseteq> {0..<?n}" if "k \<in> set (k_batch_ord env)" for k
    using that by (auto simp: sent_order_def)
  have "fold_res ?step ks bw = fold_res (\<lambda>i bw. wrap_err ''stage3'' (EncodingsWrite bw (e i))) (concat (map (\<lambda>k. ?b ! k) ks)) bw"
    if "set ks \<subseteq> set (k_batch_ord env)" for ks bw
    using that
  proof (induction ks arbitrary: bw)
    case (Cons k ks)
    have "?step k bw = fold_res (\<lambda>i bw. wrap_err ''stage3'' (EncodingsWrite bw (e i))) (?b ! k) bw" for bw
      using encode_batch_eq [OF enc sub] Cons.prems by (simp add: fold_res_map)
    with Cons show ?case by (simp add: fold_res_append bind_res_def cong: sum.case_cong)
  qed simp
  note fold = this [OF order.refl, folded sent_order_def]
  let ?w = "\<lparr>wrote = wrote w @ be_put64 (of_nat n), budget = budget w - 1\<rparr>"
  have "length ?so \<le> budget ?w" using so assms(5) by simp
  from EncodingsWrite_all [OF this, of e "''stage3''"] len obtain buf' w' where
    w': "fold_res (\<lambda>i bw. wrap_err ''stage3'' (EncodingsWrite bw (e i))) ?so ([], ?w) = Inr (buf', w')"
      "wrote w' @ buf' = wrote ?w @ concat (map (\<lambda>k. be_encoding (e k)) ?so)" "budget ?w \<le> budget w' + length ?so" by auto
  then have "0 < budget w'" using so assms(5) by simp
  with w' assms(5) show ?thesis
    by (simp add: Sender_stage3_def write_conn_ok fold Flush_spec del: append_assoc)
qed

section \<open>Matching\<close>

text \<open>
  The maps of the receiver find the hashed encoding \<open>V x h\<close> of a remote identifier \<open>x\<close> exactly when \<open>x\<close>
  is in the table with hash index \<open>h\<close>.
\<close>

definition finds :: "Cuckoo \<Rightarrow> (u64 \<rightharpoonup> nat) list \<Rightarrow> (bytes \<Rightarrow> nat \<Rightarrow> u64) \<Rightarrow> bytes set \<Rightarrow> bool" where
  "finds c E V S \<longleftrightarrow> length E = Nhash \<and> (\<forall>x\<in>S. \<forall>h<Nhash. \<forall>i. (E ! h) (V x h) = Some i \<longleftrightarrow>
     i \<in> {1..inserted c} \<and> items c ! i = x \<and> hashIndices c ! i = h)"

text \<open>The maps after the identifiers \<open>X\<close> and the first \<open>k\<close> encodings of \<open>x\<close>.\<close>

definition matched :: "(u64 \<rightharpoonup> nat) list \<Rightarrow> (bytes \<Rightarrow> nat \<Rightarrow> u64) \<Rightarrow> bytes set \<Rightarrow> bytes \<Rightarrow> nat \<Rightarrow> (u64 \<rightharpoonup> nat) list" where
  "matched E V X x k = map (\<lambda>h v. if v \<in> (\<lambda>x. V x h) ` X \<or> h < k \<and> v = V x h then None else (E ! h) v) [0..<Nhash]"

lemma matched_insert: "matched E V X x Nhash = matched E V (insert x X) y 0"
  by (simp add: matched_def) (auto simp: fun_eq_iff)

lemma matched_none: "length E = Nhash \<Longrightarrow> matched E V {} x 0 = E"
  by (intro nth_equalityI) (simp_all add: matched_def)

lemma match_hash_step:
  assumes F: "finds c E V S" and inv: "cuckoo_inv H c" and "[] \<notin> contents c" and x: "x \<in> S" "X \<subseteq> S" and k: "k < Nhash"
  shows "match_hash c (map (V x) [0..<Nhash]) k (matched E V X x k, I) =
    Inr (matched E V X x (Suc k), I @ (if x \<notin> X \<and> (E ! k) (V x k) \<noteq> None then [x] else []))"
proof -
  let ?O = "matched E V X x"
  have Ok: "(?O k ! k) (V x k) = (if V x k \<in> (\<lambda>x. V x k) ` X then None else (E ! k) (V x k))" using k by (simp add: matched_def)
  have upd: "(?O k)[k := (?O k ! k)(V x k := None)] = ?O (Suc k)"
    using k by (intro nth_equalityI) (auto simp: matched_def nth_list_update fun_eq_iff less_Suc_eq)
  have same: "?O (Suc k) = ?O k" if "(?O k ! k) (V x k) = None"
    using upd fun_upd_idem [of "?O k ! k" "V x k" None, OF that] by simp
  show ?thesis
  proof (cases "(E ! k) (V x k)")
    case None
    with Ok same k show ?thesis by (simp add: match_hash_def matched_def)
  next
    case (Some i)
    with F x(1) k have i: "i \<in> {1..inserted c}" "items c ! i = x" "hashIndices c ! i = k" by (auto simp: finds_def)
    have "x' = x" if "x' \<in> X" "V x k = V x' k" for x'
      using that F x(2) k Some i(2) unfolding finds_def by (metis subset_eq)
    then have mem: "V x k \<in> (\<lambda>x. V x k) ` X \<longleftrightarrow> x \<in> X" by auto
    have "x \<noteq> []" using i(1,2) assms(3) unfolding contents_def by (metis imageI)
    moreover have "GetItemWithHash c i = Inr (x, k)"
      using inv i by (auto simp: GetItemWithHash_def go_nth_def cuckoo_inv_def table_ok_def)
    ultimately show ?thesis
      using Ok Some mem same upd k by (cases "x \<in> X") (simp_all add: match_hash_def matched_def [of E V X x k])
  qed
qed

lemma match_all:
  assumes F: "finds c E V S" and inv: "cuckoo_inv H c" and "[] \<notin> contents c" and x: "x \<in> S" "X \<subseteq> S"
  shows "fold_res (match_hash c (map (V x) [0..<Nhash])) [0..<Nhash] (matched E V X x 0, I) =
    Inr (matched E V (insert x X) x 0, I @ (if x \<in> contents c - X then [x] else []))"
proof -
  note step = match_hash_step [OF assms]
  let ?hit = "\<lambda>k. if x \<notin> X \<and> (E ! k) (V x k) \<noteq> None then [x] else []"
  have "fold_res (match_hash c (map (V x) [0..<Nhash])) [0..<k] (matched E V X x 0, I) =
      Inr (matched E V X x k, I @ concat (map ?hit [0..<k]))" if "k \<le> Nhash" for k
    using that
  proof (induction k)
    case (Suc k)
    then have "fold_res (match_hash c (map (V x) [0..<Nhash])) [0..<Suc k] (matched E V X x 0, I) =
      match_hash c (map (V x) [0..<Nhash]) k (matched E V X x k, I @ concat (map ?hit [0..<k]))"
      by (simp add: fold_res_append bind_res_def split: sum.splits)
    also have "\<dots> = Inr (matched E V X x (Suc k), (I @ concat (map ?hit [0..<k])) @ ?hit k)"
      using Suc.prems by (intro step) simp
    finally show ?case by simp
  qed simp
  note this [OF order.refl, unfolded matched_insert [of E V X x x]]
  moreover have "concat (map ?hit [0..<Nhash]) = (if x \<in> contents c - X then [x] else [])"
  proof (cases "x \<in> contents c")
    case True
    then obtain i where i: "i \<in> {1..inserted c}" "items c ! i = x" by (auto simp: contents_def)
    have i': "j = i" if "j \<in> {1..inserted c}" "items c ! j = x" for j
      using inj_onD [OF inv [unfolded cuckoo_inv_def, THEN conjunct2, THEN conjunct2, THEN conjunct2, THEN conjunct2], of j i] i that by simp
    have "(E ! h) (V x h) \<noteq> None \<longleftrightarrow> h = hashIndices c ! i" if "h < Nhash" for h
    proof -
      have iff: "(E ! h) (V x h) = Some j \<longleftrightarrow> j \<in> {1..inserted c} \<and> items c ! j = x \<and> hashIndices c ! j = h" for j
        using F x(1) that by (simp add: finds_def)
      show ?thesis
      proof
        assume "(E ! h) (V x h) \<noteq> None"
        then obtain j where "(E ! h) (V x h) = Some j" by blast
        with iff have j: "j \<in> {1..inserted c}" "items c ! j = x" "hashIndices c ! j = h" by auto
        from i' [OF j(1,2)] j(3) show "h = hashIndices c ! i" by simp
      next
        assume "h = hashIndices c ! i"
        with i iff [of i] show "(E ! h) (V x h) \<noteq> None" by simp
      qed
    qed
    then have hits: "?hit h = (if x \<notin> X \<and> h = hashIndices c ! i then [x] else [])" if "h < Nhash" for h
      using that by simp
    have pl: "placed H c {1..inserted c}" using inv by (simp add: cuckoo_inv_def)
    from placedD(3) [OF this i(1)] obtain b where "b < Len c" "bucketLookup c ! b = i" by (auto simp: Len_def)
    with hash_index_less [OF inv, of b] i(1) have "hashIndices c ! i < Nhash" by simp
    then consider "hashIndices c ! i = 0" | "hashIndices c ! i = 1" | "hashIndices c ! i = 2" by linarith
    then show ?thesis using True hits by cases (simp_all add: upt_rec)
  next
    case False
    have "(E ! h) (V x h) = None" if "h < Nhash" for h
    proof (rule ccontr)
      assume "(E ! h) (V x h) \<noteq> None"
      then obtain j where "(E ! h) (V x h) = Some j" by blast
      with F x(1) that have "j \<in> {1..inserted c}" "items c ! j = x" by (simp_all add: finds_def)
      with False show False by (auto simp: contents_def)
    qed
    with False show ?thesis by (simp add: upt_rec)
  qed
  ultimately show ?thesis by simp
qed

lemma stage3_loop_spec:
  assumes F: "finds c E V S" and inv: "cuckoo_inv H c" and "[] \<notin> contents c" and "set xs \<subseteq> S" "X \<subseteq> S"
    and "concat r = concat (map (\<lambda>x. be_encoding (map (V x) [0..<Nhash])) xs)"
  shows "\<exists>Z r'. stage3_loop (length xs) c (matched E V X y 0) I r = Inr (I @ Z, r') \<and> distinct Z \<and>
    set Z = set xs \<inter> contents c - X \<and> concat r' = []"
  using assms(4-)
proof (induction xs arbitrary: X r I y)
  case (Cons x xs)
  from Cons.prems obtain r1 where r1: "EncodingsRead r = Inr (map (V x) [0..<Nhash], r1)"
    "concat r1 = concat (map (\<lambda>x. be_encoding (map (V x) [0..<Nhash])) xs)"
    using EncodingsRead_put [of "map (V x) [0..<Nhash]" r] by auto
  let ?I = "I @ (if x \<in> contents c - X then [x] else [])"
  have X: "x \<in> S" "insert x X \<subseteq> S" "set xs \<subseteq> S" using Cons.prems by auto
  obtain Z r' where Z: "stage3_loop (length xs) c (matched E V (insert x X) x 0) ?I r1 = Inr (?I @ Z, r')" "distinct Z"
    "set Z = set xs \<inter> contents c - insert x X" "concat r' = []"
    using Cons.IH [OF X(3,2) r1(2), of x ?I] by blast
  have "matched E V X y 0 = matched E V X x 0" by (simp add: matched_def)
  then have "stage3_loop (length (x # xs)) c (matched E V X y 0) I r = Inr (?I @ Z, r')"
    using r1(1) match_all [OF F inv assms(3) X(1) Cons.prems(2), of I] Z(1) by simp
  moreover have "distinct ((if x \<in> contents c - X then [x] else []) @ Z)" using Z(2,3) by auto
  moreover have "set ((if x \<in> contents c - X then [x] else []) @ Z) = set (x # xs) \<inter> contents c - X" using Z(3) by auto
  ultimately show ?case using Z(4) by (metis append_assoc)
qed simp

section \<open>Encodings of the sender\<close>

definition code_of :: "oprf_env \<Rightarrow> bytes \<Rightarrow> bytes \<Rightarrow> nat \<Rightarrow> bytes" where
  "code_of env key x h = PseudorandomCode (SeedSum128 env) (aes_block env key) x (of_nat h)"

definition sender_row :: "oprf_env \<Rightarrow> bytes \<Rightarrow> Cuckoo \<Rightarrow> Key \<Rightarrow> bytes \<Rightarrow> nat \<Rightarrow> bytes" where
  "sender_row env key c k x h =
     map2 (XOR) (map2 (AND) (code_of env key x h) (secret k)) (oprfKeys k ! (indices_of (hashes env) c x ! h))"

definition sender_hash :: "oprf_env \<Rightarrow> bytes \<Rightarrow> Cuckoo \<Rightarrow> Key \<Rightarrow> bytes \<Rightarrow> nat \<Rightarrow> u64" where
  "sender_hash env key c k x h = row_hash env c (sender_row env key c k x h)"

text \<open>No two different identifiers get the same hashed encoding for the same hash index.\<close>

definition no_collision :: "(bytes \<Rightarrow> nat \<Rightarrow> u64) \<Rightarrow> bytes set \<Rightarrow> bytes set \<Rightarrow> bool" where
  "no_collision V X Y \<longleftrightarrow> (\<forall>x\<in>X \<union> Y. \<forall>y\<in>Y. \<forall>h<Nhash. V x h = V y h \<longrightarrow> x = y)"

lemma sender_row_occupied:
  assumes inv: "cuckoo_inv (hashes env) c" and b: "b < Len c" "bucketLookup c ! b \<noteq> 0"
    and enc: "\<forall>b<Len c. \<forall>x. length x = 64 \<longrightarrow> map2 (XOR) (map2 (AND) x (secret k)) (oprfKeys k ! b) =
      map2 (XOR) (T ! b) (map2 (AND) (map2 (XOR) x (prc_row env key c b)) (secret k))"
    and len: "length (T ! b) = 64" "length (secret k) = 64" "\<And>s. length (aes_block env key s) = BlockSize"
  shows "sender_row env key c k (items c ! (bucketLookup c ! b)) (hashIndices c ! (bucketLookup c ! b)) = T ! b"
proof -
  have "homed (hashes env) c b (bucketLookup c ! b)"
    using inv b placedD(2) [of "hashes env" c "{1..inserted c}" b] by (simp add: cuckoo_inv_def Len_def)
  then have "sender_row env key c k (items c ! (bucketLookup c ! b)) (hashIndices c ! (bucketLookup c ! b)) =
      map2 (XOR) (map2 (AND) (prc_row env key c b) (secret k)) (oprfKeys k ! b)"
    by (simp add: sender_row_def homed_def code_of_def prc_row_def)
  also have "\<dots> = map2 (XOR) (T ! b) (map2 (AND) (map2 (XOR) (prc_row env key c b) (prc_row env key c b)) (secret k))"
    using enc b(1) length_prc_row [OF len(3)] by blast
  also have "\<dots> = T ! b" using len length_prc_row [OF len(3)] by (intro masked_self) simp_all
  finally show ?thesis .
qed

lemma finds_sender_hash:
  assumes inv: "cuckoo_inv (hashes env) c" and ix: "indexes env c T (Len c) E"
    and enc: "\<forall>b<Len c. \<forall>x. length x = 64 \<longrightarrow> map2 (XOR) (map2 (AND) x (secret k)) (oprfKeys k ! b) =
      map2 (XOR) (T ! b) (map2 (AND) (map2 (XOR) x (prc_row env key c b)) (secret k))"
    and len: "\<forall>b<Len c. length (T ! b) = 64" "length (secret k) = 64" "\<And>s. length (aes_block env key s) = BlockSize"
    and nc: "no_collision (sender_hash env key c k) S (contents c)"
  shows "finds c E (sender_hash env key c k) S"
proof -
  let ?V = "sender_hash env key c k" and ?L = "bucketLookup c"
  have pl: "placed (hashes env) c {1..inserted c}" using inv by (simp add: cuckoo_inv_def)
  have row: "row_hash env c (T ! b) = ?V (items c ! (?L ! b)) (hashIndices c ! (?L ! b))" if "b < Len c" "?L ! b \<noteq> 0" for b
    using sender_row_occupied [OF inv that enc] len that by (simp add: sender_hash_def)
  have sound: "i \<in> {1..inserted c} \<and> items c ! i = x \<and> hashIndices c ! i = h"
    if "(E ! h) (?V x h) = Some i" "x \<in> S \<union> contents c" "h < Nhash" for x h i
  proof -
    from ix that(1,3) obtain b where b: "b < Len c" "?L ! b = i" "i \<noteq> 0" "hashIndices c ! i = h" "row_hash env c (T ! b) = ?V x h"
      unfolding indexes_def by blast
    have i: "i \<in> {1..inserted c}" using placedD(1) [OF pl, of b] b by (simp add: Len_def)
    then have "items c ! i \<in> contents c" unfolding contents_def by (rule imageI)
    moreover have "?V x h = ?V (items c ! i) h" using row [of b] b by simp
    ultimately have "x = items c ! i" using nc that(2,3) unfolding no_collision_def by blast
    with i b(4) show ?thesis by simp
  qed
  have complete: "(E ! h) (?V x h) = Some i" if "x \<in> S" "i \<in> {1..inserted c}" "items c ! i = x" "hashIndices c ! i = h" "h < Nhash" for x h i
  proof -
    from placedD(3) [OF pl that(2)] obtain b where b: "b < Len c" "?L ! b = i" by (auto simp: Len_def)
    with that(2) have "?L ! b \<noteq> 0" by auto
    with ix b(1) have "(E ! (hashIndices c ! (?L ! b))) (row_hash env c (T ! b)) \<noteq> None" unfolding indexes_def by blast
    then have "(E ! h) (?V x h) \<noteq> None" using row [OF b(1) \<open>?L ! b \<noteq> 0\<close>] b(2) that(3,4) by simp
    then obtain j where j: "(E ! h) (?V x h) = Some j" by blast
    from sound [OF j UnI1 [OF that(1)] that(5)] that(3) have "j \<in> {1..inserted c}" "items c ! j = items c ! i" by simp_all
    with inj_onD [OF inv [unfolded cuckoo_inv_def, THEN conjunct2, THEN conjunct2, THEN conjunct2, THEN conjunct2], of j i] that(2)
    show ?thesis using j by simp
  qed
  have "length E = Nhash" using ix by (simp add: indexes_def)
  then show ?thesis unfolding finds_def
  proof (intro conjI ballI allI impI iffI; (elim conjE)?)
    fix x h i assume x: "x \<in> S" and h: "h < Nhash"
    show "i \<in> {1..inserted c}" "items c ! i = x" "hashIndices c ! i = h" if "(E ! h) (?V x h) = Some i"
      using sound [OF that UnI1 [OF x] h] by simp_all
    show "(E ! h) (?V x h) = Some i" if "i \<in> {1..inserted c}" "items c ! i = x" "hashIndices c ! i = h"
      by (rule complete [OF x that h])
  qed
qed

lemma encodeAndHash_eq:
  assumes "env_pools env" and "table_ok c" and "length (oprfKeys k) = Len c" and "\<forall>b<Len c. length (oprfKeys k ! b) = 64"
    and "length (secret k) = 64" and "\<And>s. length (aes_block env key s) = BlockSize"
  shows "encodeAndHash env k (GetHasher (cHasher c)) \<lparr>prcEncoded = map (code_of env key x) [0..<Nhash], bucketIdx = indices_of (hashes env) c x\<rparr> =
    Inr (map (sender_hash env key c k x) [0..<Nhash])"
proof -
  have code: "length (code_of env key x h) = 64" for h using PseudorandomCode_length [OF assms(6)] by (simp add: code_of_def)
  have "Encode_oprf (maxProcs env) (op_ord env h) k (indices_of (hashes env) c x ! h) (code_of env key x h) =
      Inr (sender_row env key c k x h)" if "h < Nhash" for h
    using Encode_oprf_eq [of "maxProcs env" "op_ord env h" "indices_of (hashes env) c x ! h" k "code_of env key x h"]
      indices_of_nth_less [OF assms(2) that, of "hashes env" x] assms code by (simp add: env_pools_def sender_row_def Len_def)
  then show ?thesis
    using length_indices_of [OF assms(2), of "hashes env" x]
    by (simp add: encodeAndHash_def sender_hash_def row_hash_def upt_rec)
qed

section \<open>First stage\<close>

lemma encode_inputs_eq:
  assumes "table_ok c" and "cHasher c = h" and "length xs = n"
  shows "encode_inputs env (aes_block env key) h n xs =
    Inr \<lparr>inputs = map (\<lambda>x. \<lparr>prcEncoded = map (code_of env key x) [0..<Nhash], bucketIdx = indices_of (hashes env) c x\<rparr>) xs,
         s1_hasher = GetHasher h\<rparr>"
proof -
  let ?f = "\<lambda>x. \<lparr>prcEncoded = map (code_of env key x) [0..<Nhash], bucketIdx = indices_of (hashes env) c x\<rparr>"
  let ?z = "replicate n \<lparr>prcEncoded = replicate Nhash [], bucketIdx = replicate Nhash 0\<rparr>"
  have inp: "encode_input env (aes_block env key) h x = Inr (?f x)" for x
    using BucketIndices_eq [OF assms(1)] assms(2) by (simp add: encode_input_def code_of_def [abs_def] Let_def)
  have "fold_res (\<lambda>i ins. bind_res (encode_input env (aes_block env key) h (xs ! i)) (go_set ins i)) [0..<length xs] ?z =
      Inr (fold (\<lambda>k e. e[k := ?f (xs ! k)]) [0..<length xs] ?z)"
    by (rule fold_res_updates [where n = n]) (simp_all add: inp go_set_def assms(3))
  moreover have "fold (\<lambda>k e. e[k := ?f (xs ! k)]) [0..<length xs] ?z = map ?f xs"
    by (rule nth_equalityI) (simp_all add: fold_updates assms(3))
  ultimately show ?thesis by (simp add: encode_inputs_def)
qed

lemma receiver_stage1_run:
  assumes "concat r = sd 0 @ sd 1 @ sd 2 @ key @ rest" and "\<forall>i. length (sd i) = SaltLength" and "length key = 16"
    and "NewCuckoo (k_rb env) n [sd 0, sd 1, sd 2] = Inr c0" and "insert_all env ys c0 = Inr c" and "0 < budget w"
  shows "\<exists>r'. Receiver_stage1 env n ys r w = Inr (c, key, r', \<lparr>wrote = wrote w @ be_put64 (of_nat n), budget = budget w - 1\<rparr>) \<and> concat r' = rest"
proof -
  obtain r1 where r1: "ReadFull SaltLength r = Inr (sd 0, r1)" "concat r1 = sd 1 @ sd 2 @ key @ rest"
    using ReadFull_spec [OF assms(1)] assms(2) by auto
  obtain r2 where r2: "ReadFull SaltLength r1 = Inr (sd 1, r2)" "concat r2 = sd 2 @ key @ rest"
    using ReadFull_spec [OF r1(2)] assms(2) by auto
  obtain r3 where r3: "ReadFull SaltLength r2 = Inr (sd 2, r3)" "concat r3 = key @ rest"
    using ReadFull_spec [OF r2(2)] assms(2) by auto
  obtain r4 where r4: "ReadFull 16 r3 = Inr (key, r4)" "concat r4 = rest"
    using ReadFull_spec [OF r3(2) assms(3)] by auto
  from r1 r2 r3 r4 assms(4-) show ?thesis by (simp add: Receiver_stage1_def write_conn_ok upt_rec)
qed

lemma sender_stage1_run:
  assumes "concat r = be_put64 (of_nat m) @ rest" and "m < 2 ^ 63" and "k_seed env = (\<lambda>i. Inr (sd i))"
    and "k_secret env = Inr key" and "length key = 16"
    and "NewCuckooHasher m [sd 0, sd 1, sd 2] = Inr (cHasher c)" and "table_ok c" and "Len c = max 1 (factor_mul m)"
    and "length xs = n" and "4 \<le> budget w"
  shows "\<exists>r'. Sender_stage1 env n xs r w = Inr (Len c,
      \<lparr>inputs = map (\<lambda>x. \<lparr>prcEncoded = map (code_of (k_oprf env) key x) [0..<Nhash], bucketIdx = indices_of (hashes (k_oprf env)) c x\<rparr>) xs,
       s1_hasher = GetHasher (cHasher c)\<rparr>, r', \<lparr>wrote = wrote w @ sd 0 @ sd 1 @ sd 2 @ key, budget = budget w - 4\<rparr>) \<and> concat r' = rest"
proof -
  obtain r1 where r1: "read_int64 r = Inr (of_nat m, r1)" "concat r1 = rest" using read_int64_put [OF assms(1)] by blast
  have max: "(if 1 > factor_mul m then 1 else factor_mul m) = Len c" using assms(8) by simp
  have "fold_res (\<lambda>i (seeds, w). bind_res (k_seed env i) (\<lambda>s. bind_res (write_conn s w) (\<lambda>w. Inr (seeds @ [s], w)))) [0..<Nhash] ([], w) =
      Inr ([sd 0, sd 1, sd 2], \<lparr>wrote = wrote w @ sd 0 @ sd 1 @ sd 2, budget = budget w - 3\<rparr>)"
    using assms(3,10) by (simp add: write_conn_ok upt_rec numeral_2_eq_2)
  with r1 max assms int64_size [OF assms(2)] show ?thesis
    by (simp add: Sender_stage1_def write_conn_ok NewCipher_def encode_inputs_eq [OF assms(7) refl assms(9)] Let_def)
qed

section \<open>Properties\<close>

text \<open>
  What a run relies on: both sides have the same hash functions and block cipher, the contexts are not
  cancelled, the random sources deliver, and every batch of the sender reaches its writer once.
\<close>

definition kkrt_run_ok :: "kkrt_env \<Rightarrow> kkrt_env \<Rightarrow> nat \<Rightarrow> (nat \<Rightarrow> bytes) \<Rightarrow> bytes \<Rightarrow> bytes \<Rightarrow> bytes \<Rightarrow> (nat \<Rightarrow> nat \<Rightarrow> bytes) \<Rightarrow> bool" where
  "kkrt_run_ok ks kr n sd key choices rb msg \<longleftrightarrow>
     SeedSum128 (k_oprf ks) = SeedSum128 (k_oprf kr) \<and> aes_block (k_oprf ks) = aes_block (k_oprf kr) \<and>
     hashes (k_oprf ks) = hashes (k_oprf kr) \<and> oprf_run_ok (k_oprf kr) (k_oprf ks) key \<and>
     k_ctx ks = (\<lambda>_. None) \<and> k_ctx kr = (\<lambda>_. None) \<and>
     k_seed ks = (\<lambda>i. Inr (sd i)) \<and> (\<forall>i. length (sd i) = SaltLength) \<and>
     k_secret ks = Inr key \<and> length key = BlockSize \<and> k_choices ks = Inr choices \<and> length choices = 64 \<and>
     k_rb kr = Inr rb \<and> k_msgs kr = (\<lambda>i j. Inr (msg i j)) \<and> (\<forall>i j. length (msg i j) = 64) \<and>
     mset (k_batch_ord ks) = mset [0..<length (stage3_batches (maxProcs (k_oprf ks)) n)]"

lemma sender_hash_cong:
  assumes "SeedSum128 es = SeedSum128 er" and "aes_block es = aes_block er" and "hashes es = hashes er"
  shows "code_of es = code_of er" and "sender_hash es = sender_hash er"
  by (intro ext; simp add: sender_hash_def sender_row_def code_of_def row_hash_def assms)+

lemma receiver_table:
  assumes new: "NewCuckoo (Inr rb) (length ys) [sd 0, sd 1, sd 2] = Inr c0" and ins: "insert_all env ys c0 = Inr c"
    and sd: "\<forall>i. length (sd i) = SaltLength" and "[] \<notin> set ys"
  shows "cuckoo_inv (hashes (k_oprf env)) c" and "contents c = set ys" and "Len c = max 1 (factor_mul (length ys))"
    and "NewCuckooHasher (length ys) [sd 0, sd 1, sd 2] = Inr (cHasher c)"
proof -
  let ?H = "hashes (k_oprf env)"
  have "\<exists>c. NewCuckoo (Inr rb) (length ys) [sd 0, sd 1, sd 2] = Inr c \<and> cuckoo_inv ?H c \<and> contents c = {} \<and>
      length (items c) = length ys + 1 \<and> Len c = max 1 (factor_mul (length ys))"
    by (rule NewCuckoo_spec) (use sd in simp_all)
  with new have c0: "cuckoo_inv ?H c0" "contents c0 = {}" "length (items c0) = length ys + 1" "Len c0 = max 1 (factor_mul (length ys))"
    by simp_all
  have h0: "NewCuckooHasher (length ys) [sd 0, sd 1, sd 2] = Inr (cHasher c0)" and i0: "inserted c0 = 0"
    using new by (auto simp: NewCuckoo_def bind_res_Inr_iff)
  have "inserted c0 + length ys < length (items c0)" using i0 c0(3) by simp
  from insert_all_spec [OF ins c0(1) this assms(4)] have "cuckoo_inv ?H c" "contents c = set ys" "cHasher c = cHasher c0"
    using c0(2) by simp_all
  with h0 c0(4) show "cuckoo_inv ?H c" "contents c = set ys" "Len c = max 1 (factor_mul (length ys))"
    "NewCuckooHasher (length ys) [sd 0, sd 1, sd 2] = Inr (cHasher c)" by (simp_all add: Len_def)
qed

text \<open>The last stage on both sides: what the sender writes makes the receiver find the common identifiers.\<close>

lemma last_stage:
  fixes xs :: "bytes list" and ks :: kkrt_env
  defines "so \<equiv> sent_order (maxProcs (k_oprf ks)) (length xs) (k_batch_ord ks)"
  assumes ord: "mset (k_batch_ord ks) = mset [0..<length (stage3_batches (maxProcs (k_oprf ks)) (length xs))]"
    and pool: "env_pools (k_oprf ks)" and n: "length xs < 2 ^ 63"
    and F: "finds c E V (set xs)" and inv: "cuckoo_inv H c" and "[] \<notin> contents c"
    and enc: "\<And>x. encodeAndHash (k_oprf ks) k (GetHasher (cHasher c)) (inp x) = Inr (map (V x) [0..<Nhash])"
  shows "length xs + 2 \<le> budget w \<Longrightarrow> \<exists>w'. Sender_stage3 ks (length xs) \<lparr>inputs = map inp xs, s1_hasher = GetHasher (cHasher c)\<rparr> k w = Inr w' \<and>
      wrote w' = wrote w @ be_put64 (of_nat (length xs)) @ concat (map (\<lambda>i. be_encoding (map (V (xs ! i)) [0..<Nhash])) so)"
    and "concat r = be_put64 (of_nat (length xs)) @ concat (map (\<lambda>i. be_encoding (map (V (xs ! i)) [0..<Nhash])) so) \<Longrightarrow>
      \<exists>zs r'. Receiver_stage3 c E r = Inr (zs, r') \<and> distinct zs \<and> set zs = set xs \<inter> contents c"
proof -
  let ?n = "length xs"
  have W: "0 < maxProcs (k_oprf ks)" using pool by (simp add: env_pools_def pool_ok_def)
  show "\<exists>w'. Sender_stage3 ks ?n \<lparr>inputs = map inp xs, s1_hasher = GetHasher (cHasher c)\<rparr> k w = Inr w' \<and>
      wrote w' = wrote w @ be_put64 (of_nat ?n) @ concat (map (\<lambda>i. be_encoding (map (V (xs ! i)) [0..<Nhash])) so)"
    if "?n + 2 \<le> budget w"
    using Sender_stage3_spec [of "\<lparr>inputs = map inp xs, s1_hasher = GetHasher (cHasher c)\<rparr>" ks k "\<lambda>i. map (V (xs ! i)) [0..<Nhash]" w ?n]
      W ord that enc by (simp add: so_def)
  have "mset so = mset [0..<?n]" unfolding so_def by (rule mset_sent_order [OF W ord])
  then have so: "set so = {0..<?n}" "length so = ?n" by (metis mset_eq_setD set_upt, metis size_mset length_upt diff_zero)
  let ?xs = "map (\<lambda>i. xs ! i) so"
  have xs: "set ?xs = set xs" using nth_image [of ?n xs] so(1) by simp
  show "\<exists>zs r'. Receiver_stage3 c E r = Inr (zs, r') \<and> distinct zs \<and> set zs = set xs \<inter> contents c"
    if r: "concat r = be_put64 (of_nat ?n) @ concat (map (\<lambda>i. be_encoding (map (V (xs ! i)) [0..<Nhash])) so)"
  proof -
    obtain r1 where r1: "read_int64 r = Inr (of_nat ?n, r1)"
      "concat r1 = concat (map (\<lambda>x. be_encoding (map (V x) [0..<Nhash])) ?xs)"
      using read_int64_put [OF r] by (auto simp: comp_def)
    have sub: "set ?xs \<subseteq> set xs" "{} \<subseteq> set xs" using xs by simp_all
    from stage3_loop_spec [OF F inv assms(7) sub r1(2), of "[]" "[]"] obtain Z r' where
      "stage3_loop ?n c E [] r1 = Inr (Z, r')" "distinct Z" "set Z = set xs \<inter> contents c"
      using F xs so(2) by (auto simp: matched_none finds_def)
    then show ?thesis using r1(1) int64_size [OF n] by (simp add: Receiver_stage3_def)
  qed
qed

text \<open>
  The first two stages have prepared both sides: the receiver's maps find the sender's hashed encodings,
  and the two sides of the oblivious pseudorandom function run against each other.
\<close>

lemma oprf_stage:
  fixes kr :: kkrt_env and ks :: kkrt_env
  defines "K \<equiv> \<lambda>c key choices msg. \<lparr>secret = choices, oprfKeys = run_keys (k_oprf kr) key c msg choices\<rparr>"
    and "inp \<equiv> \<lambda>c key x. \<lparr>prcEncoded = map (code_of (k_oprf ks) key x) [0..<Nhash], bucketIdx = indices_of (hashes (k_oprf ks)) c x\<rparr>"
  assumes run: "kkrt_run_ok ks kr n sd key choices rb msg" and inv: "cuckoo_inv (hashes (k_oprf kr)) c" and pos: "0 < Len c"
    and nc: "no_collision (sender_hash (k_oprf kr) key c (K c key choices msg)) S (contents c)"
    and budgets: "1538 \<le> budget w" "512 \<le> budget v"
  shows "\<exists>s t E. finds c E (sender_hash (k_oprf kr) key c (K c key choices msg)) S \<and>
    (\<forall>x. encodeAndHash (k_oprf ks) (K c key choices msg) (GetHasher (cHasher c)) (inp c key x) =
      Inr (map (sender_hash (k_oprf kr) key c (K c key choices msg) x) [0..<Nhash])) \<and>
    (\<forall>rs rr rest rest'. concat rs = t @ rest \<and> concat rr = s @ rest' \<longrightarrow>
      (\<exists>rs' w' rr' v'.
        Receiver_stage2 kr c key rs w = Inr (E, rs', w') \<and> concat rs' = rest \<and> wrote w' = wrote w @ s \<and>
        Sender_stage2 ks (Len c) rr v = Inr (K c key choices msg, rr', v') \<and>
        concat rr' = rest' \<and> wrote v' = wrote v @ t \<and> budget w \<le> budget w' + 1538 \<and> budget v \<le> budget v' + 512))"
proof -
  let ?es = "k_oprf ks" and ?er = "k_oprf kr" and ?K = "K c key choices msg"
  define T where "T = run_encodings ?er c msg"
  have cong: "code_of ?es = code_of ?er" "sender_hash ?es = sender_hash ?er" "hashes ?es = hashes ?er" "aes_block ?es = aes_block ?er"
    using sender_hash_cong [of ?es ?er] run by (simp_all add: kkrt_run_ok_def)
  have ok: "oprf_run_ok ?er ?es key" "length key = BlockSize" "length choices = 64" "\<forall>i j. length (msg i j) = 64"
    "k_msgs kr = (\<lambda>i j. Inr (msg i j))" "k_choices ks = Inr choices"
    using run by (simp_all add: kkrt_run_ok_def)
  have pools: "env_pools ?es" and aes: "\<And>s. length (aes_block ?er key s) = BlockSize"
    using ok(1) by (simp_all add: oprf_run_ok_def oprf_env_ok_def)
  have table: "table_ok c" using inv by (simp add: cuckoo_inv_def)
  obtain s t E where o: "indexes ?er c T (Len c) E" "length (oprfKeys ?K) = Len c"
    "\<forall>b<Len c. \<forall>x. length x = 64 \<longrightarrow> map2 (XOR) (map2 (AND) x (secret ?K)) (oprfKeys ?K ! b) =
      map2 (XOR) (T ! b) (map2 (AND) (map2 (XOR) x (prc_row ?er key c b)) (secret ?K))"
    "\<forall>b<Len c. length (T ! b) = 64 \<and> length (oprfKeys ?K ! b) = 64"
    "\<forall>rs rr rest rest'. concat rs = t @ rest \<and> concat rr = s @ rest' \<longrightarrow>
      (\<exists>rs' w' rr' v'.
        Receiver_stage2 kr c key rs w = Inr (E, rs', w') \<and> concat rs' = rest \<and> wrote w' = wrote w @ s \<and>
        Sender_stage2 ks (Len c) rr v = Inr (?K, rr', v') \<and>
        concat rr' = rest' \<and> wrote v' = wrote v @ t \<and> budget w \<le> budget w' + 1538 \<and> budget v \<le> budget v' + 512)"
    using oprf_run [OF ok(1,2) inv pos ok(5,4,3) budgets]
    unfolding T_def K_def Receiver_stage2_def Sender_stage2_def ok(6) by auto
  have sec: "length (secret ?K) = 64" using ok(3) by (simp add: K_def)
  have "finds c E (sender_hash ?er key c ?K) S"
    by (rule finds_sender_hash [OF inv o(1,3)]) (use o(4) sec aes nc in simp_all)
  moreover have "encodeAndHash ?es ?K (GetHasher (cHasher c)) (inp c key x) = Inr (map (sender_hash ?er key c ?K x) [0..<Nhash])" for x
    using encodeAndHash_eq [OF pools table o(2) _ sec, of key x] o(4) aes cong by (simp add: inp_def)
  ultimately show ?thesis using o(5) by blast
qed

text \<open>A run of the KKRT protocol.\<close>

lemma kkrt_run:
  assumes run: "kkrt_run_ok ks kr (length xs) sd key choices rb msg"
    and new: "NewCuckoo (Inr rb) (length ys) [sd 0, sd 1, sd 2] = Inr c0" and ins: "insert_all kr ys c0 = Inr c"
    and sizes: "length xs < 2 ^ 63" "length ys < 2 ^ 63" and nonempty: "[] \<notin> set ys"
    and nc: "no_collision (sender_hash (k_oprf kr) key c
      \<lparr>secret = choices, oprfKeys = run_keys (k_oprf kr) key c msg choices\<rparr>) (set xs) (set ys)"
    and budgets: "length xs + 518 \<le> budget v" "1539 \<le> budget w"
  shows "\<exists>a b. \<forall>rs rr. concat rs = b \<and> concat rr = a \<longrightarrow>
    (\<exists>v' w' zs. Send ks (length xs) xs rs v = Some (Inr v') \<and> wrote v' = wrote v @ a \<and>
      Intersect kr (length ys) ys rr w = Some (Inr (zs, w')) \<and> wrote w' = wrote w @ b \<and>
      distinct zs \<and> set zs = set xs \<inter> set ys)"
proof -
  let ?es = "k_oprf ks" and ?er = "k_oprf kr"
  let ?K = "\<lparr>secret = choices, oprfKeys = run_keys ?er key c msg choices\<rparr>" and ?V = "sender_hash ?er key c
      \<lparr>secret = choices, oprfKeys = run_keys ?er key c msg choices\<rparr>"
  let ?inp = "\<lambda>x. \<lparr>prcEncoded = map (code_of ?es key x) [0..<Nhash], bucketIdx = indices_of (hashes ?es) c x\<rparr>"
  have ok: "length key = 16" "\<forall>i. length (sd i) = SaltLength" "k_seed ks = (\<lambda>i. Inr (sd i))" "k_secret ks = Inr key"
    "k_ctx ks = (\<lambda>_. None)" "k_ctx kr = (\<lambda>_. None)" "NewCuckoo (k_rb kr) (length ys) [sd 0, sd 1, sd 2] = Inr c0"
    "mset (k_batch_ord ks) = mset [0..<length (stage3_batches (maxProcs ?es) (length xs))]" and pools: "env_pools ?es"
    using run new by (simp_all add: kkrt_run_ok_def oprf_run_ok_def)
  note c = receiver_table [OF new ins ok(2) nonempty]
  have table: "table_ok c" and ne: "[] \<notin> contents c" using c(1,2) nonempty by (simp_all add: cuckoo_inv_def)
  let ?w1 = "\<lparr>wrote = wrote w @ be_put64 (of_nat (length ys)), budget = budget w - 1\<rparr>"
  let ?v1 = "\<lparr>wrote = wrote v @ sd 0 @ sd 1 @ sd 2 @ key, budget = budget v - 4\<rparr>"
  have pos: "0 < Len c" "1538 \<le> budget ?w1" "512 \<le> budget ?v1" "4 \<le> budget v" "0 < budget w" using c(3) budgets by simp_all
  obtain s t E where F: "finds c E ?V (set xs)"
    and enc: "\<And>x. encodeAndHash ?es ?K (GetHasher (cHasher c)) (?inp x) = Inr (map (?V x) [0..<Nhash])"
    and o: "\<And>rs rr rest rest'. concat rs = t @ rest \<and> concat rr = s @ rest' \<Longrightarrow>
      \<exists>rs' w' rr' v'.
        Receiver_stage2 kr c key rs ?w1 = Inr (E, rs', w') \<and> concat rs' = rest \<and> wrote w' = wrote ?w1 @ s \<and>
        Sender_stage2 ks (Len c) rr ?v1 = Inr (?K, rr', v') \<and>
        concat rr' = rest' \<and> wrote v' = wrote ?v1 @ t \<and> budget ?w1 \<le> budget w' + 1538 \<and> budget ?v1 \<le> budget v' + 512"
    using oprf_stage [OF run c(1) pos(1) nc [folded c(2)] pos(2,3)] by blast
  note last = last_stage [OF ok(8) pools sizes(1) F c(1) ne enc]
  let ?encs = "be_put64 (of_nat (length xs)) @ concat (map (\<lambda>i. be_encoding (map (?V (xs ! i)) [0..<Nhash]))
      (sent_order (maxProcs ?es) (length xs) (k_batch_ord ks)))"
  let ?a = "sd 0 @ sd 1 @ sd 2 @ key @ t @ ?encs" and ?b = "be_put64 (of_nat (length ys)) @ s"
  have "\<exists>v' w' zs. Send ks (length xs) xs rs v = Some (Inr v') \<and> wrote v' = wrote v @ ?a \<and>
      Intersect kr (length ys) ys rr w = Some (Inr (zs, w')) \<and> wrote w' = wrote w @ ?b \<and>
      distinct zs \<and> set zs = set xs \<inter> set ys" if rs: "concat rs = ?b" and rr: "concat rr = ?a" for rs rr
  proof -
    obtain rs1 where s1: "Sender_stage1 ks (length xs) xs rs v =
        Inr (Len c, \<lparr>inputs = map ?inp xs, s1_hasher = GetHasher (cHasher c)\<rparr>, rs1, ?v1)" "concat rs1 = s"
      using sender_stage1_run [OF rs sizes(2) ok(3,4,1) c(4) table c(3) refl pos(4)] by auto
    obtain rr1 where r1: "Receiver_stage1 kr (length ys) ys rr w = Inr (c, key, rr1, ?w1)" "concat rr1 = t @ ?encs"
      using receiver_stage1_run [OF rr ok(2,1,7) ins pos(5)] by auto
    from o [of rr1 ?encs rs1 "[]"] r1(2) s1(2) obtain rr2 w2 rs2 v2 where
      o2: "Receiver_stage2 kr c key rr1 ?w1 = Inr (E, rr2, w2)" "concat rr2 = ?encs" "wrote w2 = wrote ?w1 @ s"
        "Sender_stage2 ks (Len c) rs1 ?v1 = Inr (?K, rs2, v2)" "wrote v2 = wrote ?v1 @ t" "budget ?v1 \<le> budget v2 + 512"
      by (auto simp only: append_Nil2)
    have "length xs + 2 \<le> budget v2" using o2(6) budgets(1) by simp
    from last(1) [OF this] obtain v3 where v3: "wrote v3 = wrote v2 @ ?encs"
      "Sender_stage3 ks (length xs) \<lparr>inputs = map ?inp xs, s1_hasher = GetHasher (cHasher c)\<rparr> ?K v2 = Inr v3" by blast
    from last(2) [OF o2(2)] obtain zs r' where zs: "Receiver_stage3 c E rr2 = Inr (zs, r')" "distinct zs" "set zs = set xs \<inter> set ys"
      unfolding c(2) by blast
    have "Send ks (length xs) xs rs v = Some (Inr v3)" using s1(1) o2(4) v3(2) ok(5) by (simp add: Send_def)
    moreover have "Intersect kr (length ys) ys rr w = Some (Inr (zs, w2))" using r1(1) o2(1) zs(1) ok(6) by (simp add: Intersect_def)
    ultimately show ?thesis using zs(2,3) v3(1) o2(3,5) by simp
  qed
  then show ?thesis by blast
qed

text \<open>
  Property C1. The KKRT protocol computes the intersection. When the receiver can insert its identifiers
  into the cuckoo table and no two different identifiers get the same hashed encoding, a run of the
  sender against the receiver, with the bytes of each direction arriving in any pieces and the sender's
  batches in any order, ends without error on both sides; the receiver returns exactly the common
  identifiers, each once, however often the sender has them.
\<close>
theorem kkrt_intersection:
  assumes run: "kkrt_run_ok ks kr (length xs) sd key choices rb msg"
    and new: "NewCuckoo (Inr rb) (length ys) [sd 0, sd 1, sd 2] = Inr c0" and ins: "insert_all kr ys c0 = Inr c"
    and sizes: "length xs < 2 ^ 63" "length ys < 2 ^ 63" and nonempty: "[] \<notin> set ys"
    and nc: "no_collision (sender_hash (k_oprf kr) key c
      \<lparr>secret = choices, oprfKeys = run_keys (k_oprf kr) key c msg choices\<rparr>) (set xs) (set ys)"
    and budgets: "length xs + 518 \<le> budget v" "1539 \<le> budget w"
  shows "\<exists>a b. \<forall>rs rr. concat rs = b \<and> concat rr = a \<longrightarrow>
    (\<exists>v' w' zs. Send ks (length xs) xs rs v = Some (Inr v') \<and> wrote v' = wrote v @ a \<and>
      Intersect kr (length ys) ys rr w = Some (Inr (zs, w')) \<and> wrote w' = wrote w @ b \<and>
      distinct zs \<and> set zs = set xs \<inter> set ys)"
  by (rule kkrt_run [OF assms])

definition toy_kkrt :: "oprf_env \<Rightarrow> kkrt_env" where
  "toy_kkrt env = \<lparr>k_oprf = env, k_ctx = (\<lambda>_. None), k_seed = (\<lambda>i. Inr (replicate SaltLength (of_nat i))), k_secret = Inr (replicate 16 3),
     k_choices = Inr (replicate 64 85), k_rb = Inr [], k_evict = (\<lambda>_ _. 0), k_msgs = (\<lambda>i j. Inr (replicate 64 (of_nat (i + j)))), k_batch_ord = [0]\<rparr>"

lemma toy_kkrt_ok:
  "kkrt_run_ok (toy_kkrt (toy_oprf 9 11)) (toy_kkrt (toy_oprf 5 7)) 2 (\<lambda>i. replicate SaltLength (of_nat i)) (replicate 16 3)
    (replicate 64 85) [] (\<lambda>i j. replicate 64 (of_nat (i + j)))"
  using toy_oprf_ok by (simp add: kkrt_run_ok_def toy_kkrt_def stage3_batches_def) (simp add: toy_oprf_def)

lemma toy_insert:
  assumes "\<forall>s\<in>set seeds. length s = SaltLength" "length seeds = Nhash"
  obtains c0 c where "NewCuckoo (Inr rb) (length [[5 :: byte]]) seeds = Inr c0" "insert_all env [[5]] c0 = Inr c"
proof -
  obtain h where h: "NewCuckooHasher 1 seeds = Inr h" "length (hashers h) = Nhash" "bucketSize h = max 1 (factor_mul 1)"
    using NewCuckooHasher_spec [OF assms(2,1)] by blast
  from h(3) have "0 < bucketSize h" by simp
  moreover obtain h1 h2 h3 where "hashers h = [h1, h2, h3]" using h(2) by (auto simp: numeral_3_eq_3 length_Suc_conv)
  ultimately have "\<exists>c. insert_all env [[5]] \<lparr>items = replicate (1 + 1) [], inserted = 0, hashIndices = replicate (1 + 1) 0,
            bucketLookup = replicate (bucketSize h) 0, cHasher = h\<rparr> = Inr c"
    by (simp add: insert_all_def Insert_def BucketIndices_def Exists_def go_set_def go_nth_def Let_def tryAdd_def isEmpty_def)
  with h(1) that show ?thesis by (auto simp: NewCuckoo_def)
qed

theorem kkrt_intersection_witness:
  "\<exists>a b. \<forall>rs rr. concat rs = b \<and> concat rr = a \<longrightarrow>
    (\<exists>v' w' zs. Send (toy_kkrt (toy_oprf 9 11)) (length [[5 :: byte], [5]]) [[5], [5]] rs \<lparr>wrote = [], budget = 520\<rparr> = Some (Inr v') \<and>
      wrote v' = wrote \<lparr>wrote = [], budget = 520\<rparr> @ a \<and>
      Intersect (toy_kkrt (toy_oprf 5 7)) (length [[5 :: byte]]) [[5]] rr \<lparr>wrote = [], budget = 1539\<rparr> = Some (Inr (zs, w')) \<and>
      wrote w' = wrote \<lparr>wrote = [], budget = 1539\<rparr> @ b \<and>
      distinct zs \<and> set zs = set [[5 :: byte], [5]] \<inter> set [[5]])"
proof -
  let ?sd = "\<lambda>i. replicate SaltLength (of_nat i :: byte)"
  obtain c0 c where c: "NewCuckoo (Inr []) (length [[5 :: byte]]) [?sd 0, ?sd 1, ?sd 2] = Inr c0" "insert_all (toy_kkrt (toy_oprf 5 7)) [[5]] c0 = Inr c"
    by (rule toy_insert) auto
  have run: "kkrt_run_ok (toy_kkrt (toy_oprf 9 11)) (toy_kkrt (toy_oprf 5 7)) (length [[5 :: byte], [5]]) ?sd (replicate 16 3)
    (replicate 64 85) [] (\<lambda>i j. replicate 64 (of_nat (i + j)))" using toy_kkrt_ok by (simp add: numeral_2_eq_2)
  show ?thesis by (rule kkrt_intersection [OF run c]) (simp_all add: no_collision_def)
qed

end
