(* ===== verification/KKRT_Workers.thy ===== *)
theory KKRT_Workers
  imports KKRT
begin

text \<open>
  The goroutines of the last stage of \<open>pkg/kkrtpsi/sender.go\<close> as a step relation: the workers that send
  batches on the buffered channel \<open>localEncodings\<close>, the extra worker for the rest, and the writer that
  takes the batches, counts what it has written and closes the channel. What is in a batch is the
  subject of KKRT; here a batch is the list of the indices of its inputs.
\<close>

section \<open>States and steps\<close>

text \<open>
  \<open>todo\<close> are the batches each worker still has to send, \<open>queue\<close> is the contents of the channel,
  \<open>written\<close> the inputs whose encodings the writer has written, \<open>cancelled\<close> the context of the errgroup.
\<close>

record s3_state =
  todo :: "nat list list list"
  queue :: "nat list list"
  chan_closed :: bool
  written :: "nat list"
  writing :: bool
  cancelled :: bool
  s3_panicked :: bool

definition worker_batches :: "nat \<Rightarrow> nat \<Rightarrow> nat list list list" where
  "worker_batches nWorkers len =
     (let batchSize = 2048; nBatches = len div batchSize; workerResp = nBatches div nWorkers;
          workLeft = len - workerResp * nWorkers * batchSize in
      map (\<lambda>w. map (\<lambda>batchNumber. let step = (w * workerResp + batchNumber) * batchSize
                     in [step..<step + batchSize]) [0..<workerResp]) [0..<nWorkers] @
      [if workLeft = 0 then [] else [[len - workLeft..<len]]])"

text \<open>The writer closes the channel at once when there is nothing to send.\<close>

definition s3_init :: "nat \<Rightarrow> nat \<Rightarrow> s3_state" where
  "s3_init nWorkers len =
     \<lparr>todo = worker_batches nWorkers len, queue = [], chan_closed = (len = 0), written = [], writing = True,
      cancelled = False, s3_panicked = False\<rparr>"

definition close_chan :: "s3_state \<Rightarrow> s3_state" where
  "close_chan s = (if chan_closed s then s\<lparr>s3_panicked := True\<rparr> else s\<lparr>chan_closed := True\<rparr>)"

text \<open>
  The channel has room for \<open>2 * nWorkers\<close> batches. \<open>faults\<close> tells whether the context may be cancelled and
  the connection may fail.
\<close>

inductive s3_step :: "nat \<Rightarrow> nat \<Rightarrow> bool \<Rightarrow> s3_state \<Rightarrow> s3_state \<Rightarrow> bool"
  for nWorkers :: nat and len :: nat and faults :: bool where
  send: "\<not> s3_panicked s \<Longrightarrow> i < length (todo s) \<Longrightarrow> todo s ! i = b # bs \<Longrightarrow> \<not> chan_closed s \<Longrightarrow>
     length (queue s) < nWorkers * 2 \<Longrightarrow> s3_step nWorkers len faults s (s\<lparr>todo := (todo s)[i := bs], queue := queue s @ [b]\<rparr>)"
| send_closed: "\<not> s3_panicked s \<Longrightarrow> i < length (todo s) \<Longrightarrow> todo s ! i = b # bs \<Longrightarrow> chan_closed s \<Longrightarrow>
     s3_step nWorkers len faults s (s\<lparr>s3_panicked := True\<rparr>)"
| quit: "\<not> s3_panicked s \<Longrightarrow> i < length (todo s) \<Longrightarrow> todo s ! i = b # bs \<Longrightarrow> cancelled s \<Longrightarrow>
     s3_step nWorkers len faults s (s\<lparr>todo := (todo s)[i := []]\<rparr>)"
| receive: "\<not> s3_panicked s \<Longrightarrow> writing s \<Longrightarrow> queue s = b # q \<Longrightarrow>
     s3_step nWorkers len faults s
       ((if length (written s @ b) = len then close_chan s else s)\<lparr>queue := q, written := written s @ b\<rparr>)"
| finish: "\<not> s3_panicked s \<Longrightarrow> writing s \<Longrightarrow> queue s = [] \<Longrightarrow> chan_closed s \<Longrightarrow>
     s3_step nWorkers len faults s (s\<lparr>writing := False\<rparr>)"
| write_error: "\<not> s3_panicked s \<Longrightarrow> faults \<Longrightarrow> writing s \<Longrightarrow> queue s = b # q \<Longrightarrow>
     s3_step nWorkers len faults s (s\<lparr>queue := q, writing := False, cancelled := True\<rparr>)"
| cancel: "\<not> s3_panicked s \<Longrightarrow> faults \<Longrightarrow> s3_step nWorkers len faults s (s\<lparr>cancelled := True\<rparr>)"

inductive_cases s3_stepE: "s3_step nWorkers len faults s t"

abbreviation s3_reachable :: "nat \<Rightarrow> nat \<Rightarrow> bool \<Rightarrow> s3_state \<Rightarrow> s3_state \<Rightarrow> bool" where
  "s3_reachable nWorkers len faults \<equiv> (s3_step nWorkers len faults)\<^sup>*\<^sup>*"

lemma concat_worker_batches: "concat (worker_batches nWorkers len) = stage3_batches nWorkers len"
  by (simp add: worker_batches_def stage3_batches_def Let_def)

lemma worker_batches_nonempty: "b \<in> set (concat (worker_batches nWorkers len)) \<Longrightarrow> b \<noteq> []"
  by (auto simp: worker_batches_def Let_def eq_commute [of "[]"] split: if_splits)

lemma todo_nth: "i < length bss \<Longrightarrow> bss ! i = b # bs \<Longrightarrow> b \<in> set (concat bss)"
  by (metis UN_I list.set_intros(1) nth_mem set_concat)

section \<open>Invariant\<close>

text \<open>
  No input is written twice, so that the channel is closed only when no batch is left anywhere; without
  faults every input is written or pending.
\<close>

definition s3_pending :: "s3_state \<Rightarrow> nat list list" where
  "s3_pending s = queue s @ concat (todo s)"

definition s3_inv :: "nat \<Rightarrow> bool \<Rightarrow> s3_state \<Rightarrow> bool" where
  "s3_inv len faults s \<longleftrightarrow> \<not> s3_panicked s \<and> [] \<notin> set (s3_pending s) \<and>
     mset (written s) + mset (concat (s3_pending s)) \<subseteq># mset [0..<len] \<and> (chan_closed s \<longleftrightarrow> length (written s) = len) \<and>
     (\<not> faults \<longrightarrow> mset (written s) + mset (concat (s3_pending s)) = mset [0..<len] \<and> \<not> cancelled s \<and> (writing s \<or> chan_closed s))"

lemma s3_inv_init:
  assumes "0 < nWorkers"
  shows "s3_inv len faults (s3_init nWorkers len)"
proof -
  have "mset (concat (concat (worker_batches nWorkers len))) = mset [0..<len]"
    by (simp only: concat_worker_batches concat_stage3_batches [OF assms])
  moreover have "[] \<notin> set (concat (worker_batches nWorkers len))" using worker_batches_nonempty by blast
  ultimately show ?thesis by (simp add: s3_inv_def s3_init_def s3_pending_def del: mset_upt set_concat)
qed

text \<open>A closed channel leaves nothing pending.\<close>

lemma s3_inv_closed:
  assumes inv: "s3_inv len faults s" and "length (written s) = len"
  shows "s3_pending s = []"
proof (rule ccontr)
  assume "s3_pending s \<noteq> []"
  then obtain b bs where b: "s3_pending s = b # bs" by (cases "s3_pending s") auto
  then have "b \<noteq> []" using inv by (auto simp: s3_inv_def)
  moreover have "length (written s) + length (concat (s3_pending s)) \<le> len"
    using size_mset_mono [of "mset (written s) + mset (concat (s3_pending s))" "mset [0..<len]"] inv by (simp add: s3_inv_def)
  ultimately show False using assms(2) b by simp
qed

lemma mset_pending_send:
  assumes "i < length (todo s)" and "todo s ! i = b # bs"
  shows "mset (queue s @ b # concat ((todo s)[i := bs])) = mset (s3_pending s)"
  using mset_concat_update [OF assms(1), of bs] assms(2) by (simp add: s3_pending_def)

lemma mset_pending_quit:
  assumes "i < length (todo s)" and "todo s ! i = b # bs"
  shows "mset (s3_pending (s\<lparr>todo := (todo s)[i := []]\<rparr>)) \<subseteq># mset (s3_pending s)"
  using mset_concat_update [OF assms(1), of "[]"] by (simp add: s3_pending_def) (metis mset_subset_eq_add_left)

lemma mset_concat_cong: "mset xs = mset ys \<Longrightarrow> mset (concat xs) = mset (concat ys)"
  by (metis mset_concat mset_map sum_mset_sum_list)

lemma mset_concat_mono:
  assumes "mset xs \<subseteq># mset ys"
  shows "mset (concat xs) \<subseteq># mset (concat ys)"
proof -
  from assms obtain zs where "mset ys = mset (xs @ zs)" by (metis ex_mset mset_append mset_subset_eq_exists_conv)
  from mset_concat_cong [OF this] show ?thesis by simp
qed

lemma s3_inv_step:
  assumes "s3_step nWorkers len faults s t" and inv: "s3_inv len faults s"
  shows "s3_inv len faults t"
  using assms(1)
proof (cases rule: s3_step.cases)
  case (send i b bs)
  have "mset (s3_pending t) = mset (s3_pending s)"
    unfolding send(1) mset_pending_send [OF send(3,4), symmetric] by (simp add: s3_pending_def)
  note p = this mset_concat_cong [OF this]
  have "[] \<notin> set (s3_pending t)" using inv mset_eq_setD [OF p(1)] by (simp add: s3_inv_def)
  then show ?thesis using inv p(2) send(1) by (auto simp: s3_inv_def)
next
  case (send_closed i b bs)
  have "s3_pending s = []" using inv send_closed(5) by (intro s3_inv_closed [OF inv]) (simp add: s3_inv_def)
  moreover have "b \<in> set (s3_pending s)" using todo_nth [OF send_closed(3,4)] by (simp add: s3_pending_def)
  ultimately show ?thesis by simp
next
  case (quit i b bs)
  have sub: "mset (s3_pending t) \<subseteq># mset (s3_pending s)" unfolding quit(1) by (rule mset_pending_quit [OF quit(3,4)])
  have "set (s3_pending t) \<subseteq> set (s3_pending s)" using set_mset_mono [OF sub] by simp
  moreover have "mset (written s) + mset (concat (s3_pending t)) \<subseteq># mset [0..<len]"
    using inv mset_concat_mono [OF sub] unfolding s3_inv_def by (meson subset_mset.add_left_mono subset_mset.order_trans)
  moreover have faults using inv quit(5) by (auto simp: s3_inv_def)
  ultimately show ?thesis using inv quit(1) by (auto simp: s3_inv_def)
next
  case (receive b q)
  have p: "s3_pending s = b # s3_pending t" using receive by (simp add: s3_pending_def close_chan_def)
  then have "b \<noteq> []" using inv by (auto simp: s3_inv_def)
  have open_: "\<not> chan_closed s"
  proof
    assume "chan_closed s"
    then have "s3_pending s = []" using inv by (intro s3_inv_closed [OF inv]) (simp add: s3_inv_def)
    with p show False by simp
  qed
  have t: "written t = written s @ b" "cancelled t = cancelled s" "writing t" "\<not> s3_panicked t" "chan_closed t \<longleftrightarrow> length (written t) = len"
    using receive(1-3) open_ by (simp_all add: close_chan_def)
  then have "mset (written t) + mset (concat (s3_pending t)) = mset (written s) + mset (concat (s3_pending s))" using p by simp
  moreover have "[] \<notin> set (s3_pending t)" using inv p by (simp add: s3_inv_def)
  ultimately show ?thesis using inv t(2-5) unfolding s3_inv_def by simp
next
  case finish
  then show ?thesis using inv by (simp add: s3_inv_def s3_pending_def)
next
  case (write_error b q)
  have p: "s3_pending s = b # s3_pending t" using write_error by (simp add: s3_pending_def)
  then have "mset (written s) + mset (concat (s3_pending t)) \<subseteq># mset (written s) + mset (concat (s3_pending s))" by simp
  then have "mset (written s) + mset (concat (s3_pending t)) \<subseteq># mset [0..<len]"
    using inv unfolding s3_inv_def by (meson subset_mset.order_trans)
  then show ?thesis using inv p write_error(1,3) by (simp add: s3_inv_def)
next
  case cancel
  then show ?thesis using inv by (simp add: s3_inv_def s3_pending_def)
qed

lemma s3_inv_reachable:
  assumes "0 < nWorkers" and "s3_reachable nWorkers len faults (s3_init nWorkers len) s"
  shows "s3_inv len faults s"
  using assms(2) by (induction rule: rtranclp_induct) (auto intro: s3_inv_init assms(1) s3_inv_step)

section \<open>Progress\<close>

definition s3_measure :: "s3_state \<Rightarrow> nat" where
  "s3_measure s = 2 * length (concat (todo s)) + length (queue s) + (if writing s then 1 else 0)"

lemma length_concat_update:
  assumes "i < length bss" and "bss ! i = b # bs"
  shows "length (concat bss) = Suc (length (concat (bss[i := bs])))"
proof -
  have "size (mset (concat (bss[i := bs])) + mset (bss ! i)) = size (mset (concat bss) + mset bs)"
    by (simp only: mset_concat_update [OF assms(1)])
  with assms(2) show ?thesis by simp
qed

lemma s3_measure_step:
  assumes "s3_step nWorkers len False s t" and inv: "s3_inv len False s"
  shows "s3_measure t < s3_measure s"
  using assms(1)
proof (cases rule: s3_step.cases)
  case (send i b bs)
  then show ?thesis using length_concat_update [OF send(3,4)] by (simp add: s3_measure_def)
next
  case (send_closed i b bs)
  have "s3_inv len False t" by (rule s3_inv_step [OF assms])
  with send_closed(1) show ?thesis by (simp add: s3_inv_def)
next
  case (quit i b bs)
  with inv show ?thesis by (simp add: s3_inv_def)
next
  case (receive b q)
  then show ?thesis by (simp add: s3_measure_def close_chan_def)
next
  case finish
  then show ?thesis by (simp add: s3_measure_def)
qed simp_all

lemma s3_measure_path:
  assumes "0 < nWorkers" and "(s3_step nWorkers len False ^^ k) (s3_init nWorkers len) s"
  shows "s3_measure s + k \<le> s3_measure (s3_init nWorkers len) \<and> s3_inv len False s"
  using assms(2)
proof (induction k arbitrary: s)
  case 0
  then have "s = s3_init nWorkers len" by simp
  then show ?case using s3_inv_init [OF assms(1)] by simp
next
  case (Suc k)
  then obtain u where u: "(s3_step nWorkers len False ^^ k) (s3_init nWorkers len) u" "s3_step nWorkers len False u s" by auto
  from Suc.IH [OF u(1)] s3_measure_step [OF u(2)] s3_inv_step [OF u(2)] show ?case by simp
qed

text \<open>Without faults a state that is not final has a step.\<close>

lemma s3_progress:
  assumes inv: "s3_inv len False s" and "0 < nWorkers" and "writing s"
  shows "\<exists>t. s3_step nWorkers len False s t"
proof -
  have ok: "\<not> s3_panicked s" using inv by (simp add: s3_inv_def)
  consider (queue) b q where "queue s = b # q" | (closed) "queue s = []" "chan_closed s" | (work) "queue s = []" "\<not> chan_closed s"
    by (cases "queue s") auto
  then show ?thesis
  proof cases
    case queue
    with ok assms(3) show ?thesis by (blast intro: s3_step.receive)
  next
    case closed
    with ok assms(3) show ?thesis by (blast intro: s3_step.finish)
  next
    case work
    have "concat (todo s) \<noteq> []"
    proof
      assume "concat (todo s) = []"
      with work(1) have "s3_pending s = []" by (simp only: s3_pending_def append_Nil)
      then have "mset (written s) = mset [0..<len]" using inv by (simp add: s3_inv_def)
      from arg_cong [OF this, of size] have "length (written s) = len" by simp
      with work(2) inv show False by (simp add: s3_inv_def)
    qed
    then obtain i b bs where "i < length (todo s)" "todo s ! i = b # bs" by (auto simp: in_set_conv_nth neq_Nil_conv)
    with ok work assms(2) show ?thesis by (intro exI) (rule s3_step.send, auto)
  qed
qed

section \<open>Properties\<close>

text \<open>
  Property C13. In no interleaving of the goroutines of the last stage, with a cancelled context or a
  failing connection included, does a worker send on the closed channel or is the channel closed twice;
  when it is closed, every input has been written exactly once.
\<close>
theorem stage3_safe:
  assumes "0 < nWorkers" and "s3_reachable nWorkers len faults (s3_init nWorkers len) s"
  shows "\<not> s3_panicked s \<and> (chan_closed s \<longrightarrow> mset (written s) = mset [0..<len] \<and> queue s = [] \<and> concat (todo s) = [])"
proof -
  have inv: "s3_inv len faults s" by (rule s3_inv_reachable [OF assms])
  have "mset (written s) = mset [0..<len] \<and> queue s = [] \<and> concat (todo s) = []" if "chan_closed s"
  proof -
    have len: "length (written s) = len" using inv that by (simp add: s3_inv_def)
    have none: "s3_pending s = []" by (rule s3_inv_closed [OF inv len])
    then have "mset (written s) \<subseteq># mset [0..<len]" using inv by (simp add: s3_inv_def)
    moreover have "size (mset (written s)) = size (mset [0..<len])" using len by simp
    ultimately have "mset (written s) = mset [0..<len]" by (metis mset_subset_size order_less_irrefl subset_mset.le_neq_trans)
    with none show ?thesis by (simp add: s3_pending_def)
  qed
  with inv show ?thesis by (simp add: s3_inv_def)
qed

text \<open>
  Property C14. While the context is not cancelled and the connection does not fail, every run of the last
  stage ends after at most two steps per batch and one more, with the channel closed and every input
  written exactly once.
\<close>
theorem stage3_completes:
  assumes "0 < nWorkers"
  shows "((s3_step nWorkers len False ^^ k) (s3_init nWorkers len) s \<longrightarrow> k \<le> 2 * length (stage3_batches nWorkers len) + 1) \<and>
    (s3_reachable nWorkers len False (s3_init nWorkers len) s \<and> \<not> (\<exists>t. s3_step nWorkers len False s t) \<longrightarrow>
      \<not> writing s \<and> chan_closed s \<and> mset (written s) = mset [0..<len])"
proof (intro conjI impI; (elim conjE)?)
  show "k \<le> 2 * length (stage3_batches nWorkers len) + 1" if "(s3_step nWorkers len False ^^ k) (s3_init nWorkers len) s"
    using s3_measure_path [OF assms that] by (simp add: s3_measure_def s3_init_def concat_worker_batches)
next
  assume r: "s3_reachable nWorkers len False (s3_init nWorkers len) s" and stuck: "\<not> (\<exists>t. s3_step nWorkers len False s t)"
  have inv: "s3_inv len False s" by (rule s3_inv_reachable [OF assms r])
  show w: "\<not> writing s" using s3_progress [OF inv assms] stuck by blast
  with inv show c: "chan_closed s" unfolding s3_inv_def by blast
  have "length (written s) = len" using inv c by (simp add: s3_inv_def)
  from s3_inv_closed [OF inv this] inv show "mset (written s) = mset [0..<len]" by (simp add: s3_inv_def)
qed

lemma one_input_run:
  defines "f \<equiv> \<lparr>todo = [[], []], queue = [], chan_closed = True, written = [0], writing = False, cancelled = False, s3_panicked = False\<rparr>"
  shows "s3_reachable 1 1 False (s3_init 1 1) f" and "\<not> (\<exists>t. s3_step 1 1 False f t)"
proof -
  let ?s0 = "\<lparr>todo = [[], [[0]]], queue = [], chan_closed = False, written = [], writing = True, cancelled = False, s3_panicked = False\<rparr>"
  have "s3_init 1 1 = ?s0" by (simp add: s3_init_def worker_batches_def)
  moreover have "s3_step 1 1 False ?s0 (?s0\<lparr>todo := [[], []], queue := [[0]]\<rparr>)"
    using s3_step.send [of ?s0 1 "[0]" "[]" 1 1 False] by simp
  moreover have "s3_step 1 1 False (?s0\<lparr>todo := [[], []], queue := [[0]]\<rparr>) (f\<lparr>writing := True\<rparr>)"
    using s3_step.receive [of "?s0\<lparr>todo := [[], []], queue := [[0]]\<rparr>" "[0]" "[]" 1 1 False] by (simp add: f_def close_chan_def)
  moreover have "s3_step 1 1 False (f\<lparr>writing := True\<rparr>) f"
    using s3_step.finish [of "f\<lparr>writing := True\<rparr>" 1 1 False] by (simp add: f_def)
  ultimately show "s3_reachable 1 1 False (s3_init 1 1) f" by (metis (no_types) rtranclp.rtrancl_into_rtrancl rtranclp.rtrancl_refl)
  show "\<not> (\<exists>t. s3_step 1 1 False f t)"
    by (auto simp: f_def less_Suc_eq nth_Cons split: nat.splits elim!: s3_stepE)
qed

theorem stage3_completes_witness:
  "\<exists>s. s3_reachable 1 1 False (s3_init 1 1) s \<and> \<not> writing s \<and> chan_closed s \<and> mset (written s) = mset [0..<1]"
  using stage3_completes [of 1 0 1, THEN conjunct2] one_input_run by fastforce

theorem stage3_safe_witness:
  "\<exists>s. s3_reachable 1 1 False (s3_init 1 1) s \<and> \<not> s3_panicked s \<and> (chan_closed s \<longrightarrow> mset (written s) = mset [0..<1])"
  using stage3_safe [of 1 1 False] one_input_run(1) by fastforce

text \<open>All workers give up: the writer waits for a channel that nobody will close.\<close>

definition deserted :: "s3_state \<Rightarrow> bool" where
  "deserted s \<longleftrightarrow> concat (todo s) = [] \<and> queue s = [] \<and> \<not> chan_closed s \<and> writing s"

lemma deserted_step:
  assumes "s3_step nWorkers len faults s t" and d: "deserted s"
  shows "deserted t"
proof -
  have "todo s ! i \<noteq> b # bs" if "i < length (todo s)" for i b bs
    using todo_nth [OF that, of b bs] d by (auto simp: deserted_def simp del: concat_eq_Nil_conv set_concat)
  with assms show ?thesis by (auto simp: deserted_def elim!: s3_stepE)
qed

lemma all_quit:
  assumes "\<not> s3_panicked s" and "cancelled s"
  shows "k \<le> length (todo s) \<Longrightarrow> s3_reachable nWorkers len True s (s\<lparr>todo := replicate k [] @ drop k (todo s)\<rparr>)"
proof (induction k)
  case (Suc k)
  let ?s = "s\<lparr>todo := replicate k [] @ drop k (todo s)\<rparr>"
  have k: "k < length (todo s)" using Suc.prems by simp
  have upd: "(replicate k [] @ drop k (todo s))[k := []] = replicate (Suc k) [] @ drop (Suc k) (todo s)"
    using k by (simp add: list_update_append replicate_append_same [symmetric] Cons_nth_drop_Suc [symmetric])
  have "s3_reachable nWorkers len True ?s (s\<lparr>todo := replicate (Suc k) [] @ drop (Suc k) (todo s)\<rparr>)"
  proof (cases "todo s ! k")
    case Nil
    then have "replicate (Suc k) [] @ drop (Suc k) (todo s) = replicate k [] @ drop k (todo s)"
      using k by (simp add: replicate_append_same [symmetric] Cons_nth_drop_Suc [symmetric])
    then show ?thesis by simp
  next
    case (Cons b bs)
    have "s3_step nWorkers len True ?s (?s\<lparr>todo := (todo ?s)[k := []]\<rparr>)"
      by (rule s3_step.quit [where b = b and bs = bs]) (use assms k Cons in \<open>simp_all add: nth_append\<close>)
    then show ?thesis using upd by (simp add: r_into_rtranclp)
  qed
  with Suc show ?case by (meson Suc_leD rtranclp_trans)
qed simp

text \<open>
  Property C39. When the context is cancelled the last stage need not end: for every non-empty input there
  is an interleaving after which the writer waits on the channel for ever, so that \<open>g.Wait\<close> never returns.
\<close>
theorem stage3_cancel_hangs:
  assumes "0 < len"
  shows "\<exists>s. s3_reachable nWorkers len True (s3_init nWorkers len) s \<and> (\<forall>t. s3_reachable nWorkers len True s t \<longrightarrow> writing t)"
proof -
  let ?c = "(s3_init nWorkers len)\<lparr>cancelled := True\<rparr>"
  let ?s = "?c\<lparr>todo := replicate (length (todo ?c)) [] @ drop (length (todo ?c)) (todo ?c)\<rparr>"
  have "s3_step nWorkers len True (s3_init nWorkers len) ?c" by (rule s3_step.cancel) (simp_all add: s3_init_def)
  moreover have "s3_reachable nWorkers len True ?c ?s" by (rule all_quit) (simp_all add: s3_init_def)
  ultimately have "s3_reachable nWorkers len True (s3_init nWorkers len) ?s" by (rule converse_rtranclp_into_rtranclp)
  moreover have d: "deserted ?s" using assms by (simp add: deserted_def) (simp add: s3_init_def)
  have "writing t" if "s3_reachable nWorkers len True ?s t" for t
  proof -
    from that have "deserted t"
    proof (induction rule: rtranclp_induct)
      case base
      show ?case by (rule d)
    qed (rule deserted_step)
    then show ?thesis by (simp add: deserted_def)
  qed
  ultimately show ?thesis by blast
qed

theorem stage3_cancel_hangs_witness:
  "\<exists>s. s3_reachable 4 5 True (s3_init 4 5) s \<and> (\<forall>t. s3_reachable 4 5 True s t \<longrightarrow> writing t)"
  by (rule stage3_cancel_hangs) simp

end
