(* ===== verification/NPSI.thy ===== *)
theory NPSI
  imports Conn Hash Select
begin

text \<open>
  The naive protocol of \<open>pkg/npsi\<close>: the receiver sends a salt, the sender sends the salted hashes of its
  identifiers, and the receiver looks them up among its own. Hashing runs in batches on a pool of
  goroutines that is shared by the whole process.
\<close>

section \<open>Hashes on the connection\<close>

definition HashRead :: "io_reader \<Rightarrow> (u64 \<times> io_reader) result" where
  "HashRead r = read_int64 r"

text \<open>\<open>bufio.NewReadWriter(bufio.NewReader(rw), bufio.NewWriter(rw))\<close> has buffers of 4096 bytes.\<close>

definition HashWrite :: "buf_writer \<Rightarrow> u64 \<Rightarrow> buf_writer result" where
  "HashWrite w u = buf_write 4096 (be_put64 u) w"

text \<open>What the channel of ReadAll delivers: an error ends it like the end of the stream.\<close>

fun ReadAll :: "nat \<Rightarrow> io_reader \<Rightarrow> u64 list" where
  "ReadAll 0 r = []"
| "ReadAll (Suc n) r = (case HashRead r of Inr (u, r) \<Rightarrow> u # ReadAll n r | Inl _ \<Rightarrow> [])"

type_synonym hashPair = "bytes \<times> u64"

definition HashAll :: "hash_lib \<Rightarrow> Hasher \<Rightarrow> bytes list \<Rightarrow> hashPair list" where
  "HashAll H h identifiers = map (\<lambda>identifier. (identifier, Hash64 H h identifier)) identifiers"

section \<open>Parallel hashing\<close>

abbreviation batchSize :: nat where
  "batchSize \<equiv> 512"

record hOp =
  hop_hh :: Hasher
  hop_l :: nat
  hop_x :: "bytes list"
  hop_h :: "u64 list"

definition makeOp :: "Hasher \<Rightarrow> nat \<Rightarrow> hOp" where
  "makeOp hh l = \<lparr>hop_hh = hh, hop_l = l, hop_x = replicate l [], hop_h = []\<rparr>"

definition handler :: "hash_lib \<Rightarrow> hOp \<Rightarrow> hOp" where
  "handler H op = op\<lparr>hop_h := map (\<lambda>i. Hash64 H (hop_hh op) (hop_x op ! i)) [0..<hop_l op]\<rparr>"

text \<open>The pairs that \<open>f\<close> sends for a batch, and the batches in the order in which they go to the bus.\<close>

definition pump :: "hOp \<Rightarrow> hashPair list" where
  "pump op = map (\<lambda>i. (hop_x op ! i, hop_h op ! i)) [0..<hop_l op]"

fun batcher :: "Hasher \<Rightarrow> hOp \<Rightarrow> nat \<Rightarrow> bytes list \<Rightarrow> hOp list" where
  "batcher h batch i [] = (if i \<noteq> 0 then [batch\<lparr>hop_l := i\<rparr>] else [])"
| "batcher h batch i (identifier # identifiers) =
     (let batch = batch\<lparr>hop_x := (hop_x batch)[i := identifier]\<rparr>; i = i + 1 in
      if i = batchSize then batch # batcher h (makeOp h batchSize) 0 identifiers
      else batcher h batch i identifiers)"

text \<open>
  The handlers send their pairs on one unbuffered channel: \<open>sched\<close> lists the batches in the order in
  which their handlers get to send; a handler that has sent everything is skipped.
\<close>

fun interleave :: "nat list \<Rightarrow> 'a list list \<Rightarrow> 'a list" where
  "interleave [] bs = []"
| "interleave (k # sched) bs =
     (if k < length bs \<and> bs ! k \<noteq> [] then hd (bs ! k) # interleave sched (bs[k := tl (bs ! k)])
      else interleave sched bs)"

definition HashAllParallel :: "hash_lib \<Rightarrow> nat list \<Rightarrow> Hasher \<Rightarrow> bytes list \<Rightarrow> hashPair list" where
  "HashAllParallel H sched h identifiers =
     interleave sched (map (\<lambda>op. pump (handler H op)) (batcher h (makeOp h batchSize) 0 identifiers))"

section \<open>Sender and receiver\<close>

record npsi_env =
  np_ctx :: "nat \<Rightarrow> error option"
  np_lib :: hash_lib
  np_salt :: "bytes result"
  np_sched :: "nat list"
  np_iter :: "u64 list \<Rightarrow> u64 list"

text \<open>One call of \<open>Read\<close> on a buffered reader returns at most what the connection delivers at once.\<close>

definition Sender_stage1 :: "io_reader \<Rightarrow> (bytes \<times> io_reader) result" where
  "Sender_stage1 r = (case io_read SaltLength r of
     (Inl e, _) \<Rightarrow> Inl (Wrapped ''stage1'' e)
   | (Inr k, r) \<Rightarrow> if length k \<noteq> SaltLength then Inl ErrSaltLengthMismatch else Inr (k, r))"

definition Sender_stage2 :: "npsi_env \<Rightarrow> nat \<Rightarrow> bytes list \<Rightarrow> bytes \<Rightarrow> io_writer \<Rightarrow> io_writer result" where
  "Sender_stage2 env n identifiers k w =
     bind_res (NewMetroHasher k) (\<lambda>h.
     bind_res (buf_write 4096 (be_put64 (of_nat n)) ([], w)) (\<lambda>bw.
     bind_res (fold_res (\<lambda>p bw. wrap_err ''stage2'' (HashWrite bw (snd p)))
         (HashAllParallel (np_lib env) (np_sched env) h identifiers) bw) (\<lambda>bw.
       Inr (Flush bw))))"

definition Send :: "npsi_env \<Rightarrow> nat \<Rightarrow> bytes list \<Rightarrow> io_reader \<Rightarrow> io_writer \<Rightarrow> io_writer result option" where
  "Send env n identifiers r w =
     bind_run (Sel (np_ctx env 1) (Some (Sender_stage1 r))) (\<lambda>(k, r).
       Sel (np_ctx env 2) (Some (Sender_stage2 env n identifiers k w)))"

definition Receiver_stage1 :: "npsi_env \<Rightarrow> io_writer \<Rightarrow> (bytes \<times> io_writer) result" where
  "Receiver_stage1 env w =
     bind_res (np_salt env) (\<lambda>k. bind_res (buf_write 4096 k ([], w)) (\<lambda>bw. Inr (k, Flush bw)))"

text \<open>The two goroutines fill one map each; \<open>np_iter\<close> is the order in which the map is iterated.\<close>

definition Receiver_stage2 :: "npsi_env \<Rightarrow> bytes list \<Rightarrow> bytes \<Rightarrow> io_reader \<Rightarrow> bytes list result" where
  "Receiver_stage2 env identifiers k r =
     bind_res (NewMetroHasher k) (\<lambda>h.
     bind_res (read_int64 r) (\<lambda>(n, r).
       let sender = ReadAll (nat (sint n)) r;
           receiver = HashAllParallel (np_lib env) (np_sched env) h identifiers;
           remoteIDs = fold (\<lambda>h m. m(h := True)) sender (\<lambda>_. False);
           localIDs = fold (\<lambda>(x, h) m. m(h \<mapsto> x)) receiver (\<lambda>_. None) in
       Inr (fold (\<lambda>h intersected. if remoteIDs h then intersected @ [the (localIDs h)] else intersected)
         (np_iter env (remdups (map snd receiver))) [])))"

definition Intersect :: "npsi_env \<Rightarrow> bytes list \<Rightarrow> io_reader \<Rightarrow> io_writer \<Rightarrow> (bytes list \<times> io_writer) result option" where
  "Intersect env identifiers r w =
     bind_run (Sel (np_ctx env 1) (Some (Receiver_stage1 env w))) (\<lambda>(k, w).
     bind_run (Sel (np_ctx env 2) (Some (Receiver_stage2 env identifiers k r))) (\<lambda>intersected.
       Some (Inr (intersected, w))))"

section \<open>Hashing in parallel\<close>

text \<open>A schedule that serves every batch often enough delivers everything.\<close>

lemma mset_interleave:
  "\<forall>k<length bs. length (bs ! k) \<le> count_list sched k \<Longrightarrow> mset (interleave sched bs) = mset (concat bs)"
proof (induction sched arbitrary: bs)
  case Nil
  then have "concat bs = []" by (auto simp: in_set_conv_nth)
  then show ?case by simp
next
  case (Cons k sched)
  show ?case
  proof (cases "k < length bs \<and> bs ! k \<noteq> []")
    case True
    have "\<forall>j<length (bs[k := tl (bs ! k)]). length (bs[k := tl (bs ! k)] ! j) \<le> count_list sched j"
    proof (intro allI impI)
      fix j assume j: "j < length (bs[k := tl (bs ! k)])"
      then show "length (bs[k := tl (bs ! k)] ! j) \<le> count_list sched j"
        using Cons.prems [rule_format, of j] True by (cases "j = k") (simp_all add: nth_list_update)
    qed
    from Cons.IH [OF this] True mset_concat_update [of k bs "tl (bs ! k)"]
    have "mset (interleave sched (bs[k := tl (bs ! k)])) + mset (bs ! k) = mset (concat bs) + mset (tl (bs ! k))" by simp
    moreover have "mset (bs ! k) = add_mset (hd (bs ! k)) (mset (tl (bs ! k)))" using True by (cases "bs ! k") simp_all
    ultimately show ?thesis using True by simp
  next
    case False
    have "\<forall>j<length bs. length (bs ! j) \<le> count_list sched j"
    proof (intro allI impI)
      fix j assume "j < length bs"
      then show "length (bs ! j) \<le> count_list sched j" using Cons.prems [rule_format, of j] False by (cases "j = k") simp_all
    qed
    with Cons.IH False show ?thesis by auto
  qed
qed

lemma batcher_spec:
  assumes "i < batchSize" and "hop_l b = batchSize" and "length (hop_x b) = batchSize" and "hop_hh b = h"
  shows "concat (map (\<lambda>op. pump (handler H op)) (batcher h b i ids)) = HashAll H h (take i (hop_x b) @ ids) \<and>
    (\<forall>op\<in>set (batcher h b i ids). length (pump (handler H op)) \<le> batchSize) \<and>
    length (batcher h b i ids) = (i + length ids + (batchSize - 1)) div batchSize"
  using assms
proof (induction ids arbitrary: b i)
  case Nil
  have "pump (handler H (b\<lparr>hop_l := i\<rparr>)) = HashAll H h (take i (hop_x b))"
    using Nil by (intro nth_equalityI) (simp_all add: pump_def handler_def HashAll_def)
  moreover have "(i + 511) div 512 = (if i = 0 then 0 else 1)" using Nil.prems(1) by (simp add: div_nat_eqI)
  ultimately show ?case using Nil by (auto simp: HashAll_def)
next
  case (Cons x ids)
  let ?b = "b\<lparr>hop_x := (hop_x b)[i := x]\<rparr>"
  have take: "take (Suc i) (hop_x ?b) = take i (hop_x b) @ [x]" using Cons.prems by (simp add: take_Suc_conv_app_nth)
  show ?case
  proof (cases "Suc i = batchSize")
    case True
    have "pump (handler H ?b) = HashAll H h (hop_x ?b)"
      using Cons.prems by (intro nth_equalityI) (simp_all add: pump_def handler_def HashAll_def)
    moreover have "hop_x ?b = take i (hop_x b) @ [x]" using take True Cons.prems by simp
    ultimately have "pump (handler H ?b) = HashAll H h (take i (hop_x b) @ [x])" by simp
    moreover have "(i + length (x # ids) + 511) div 512 = Suc ((length ids + 511) div 512)" using True by simp
    ultimately show ?thesis
      using True Cons.IH [of 0 "makeOp h batchSize"] Cons.prems by (simp add: makeOp_def HashAll_def)
  next
    case False
    then show ?thesis using Cons.IH [of "Suc i" ?b] take Cons.prems by (simp add: HashAll_def)
  qed
qed

text \<open>Schedules that let the handler of each of the batches of \<open>n\<close> identifiers send often enough.\<close>

definition sched_ok :: "nat list \<Rightarrow> nat \<Rightarrow> bool" where
  "sched_ok sched n \<longleftrightarrow> (\<forall>k<(n + (batchSize - 1)) div batchSize. batchSize \<le> count_list sched k)"

lemma mset_HashAllParallel:
  assumes "sched_ok sched (length ids)"
  shows "mset (HashAllParallel H sched h ids) = mset (HashAll H h ids)"
proof -
  let ?bs = "map (\<lambda>op. pump (handler H op)) (batcher h (makeOp h batchSize) 0 ids)"
  have b: "concat ?bs = HashAll H h ids" "\<forall>b\<in>set ?bs. length b \<le> batchSize" "length ?bs = (length ids + (batchSize - 1)) div batchSize"
    using batcher_spec [of 0 "makeOp h batchSize" h H ids] by (simp_all add: makeOp_def)
  have "\<forall>k<length ?bs. length (?bs ! k) \<le> count_list sched k"
  proof (intro allI impI)
    fix k assume k: "k < length ?bs"
    then have "length (?bs ! k) \<le> batchSize" using b(2) nth_mem by blast
    also have "\<dots> \<le> count_list sched k" using assms k unfolding b(3) sched_ok_def by blast
    finally show "length (?bs ! k) \<le> count_list sched k" .
  qed
  from mset_interleave [OF this] b(1) show ?thesis by (simp add: HashAllParallel_def)
qed

lemma interleave_empty [simp]: "interleave sched [] = []"
  by (induction sched) simp_all

lemma HashAllParallel_empty: "HashAllParallel H sched h [] = []"
  using batcher_spec [of 0 "makeOp h batchSize" h H "[]"] by (simp add: HashAllParallel_def makeOp_def)

section \<open>Sending and reading hashes\<close>

lemma ReadAll_complete:
  "concat r = concat (map be_put64 us) @ rest \<Longrightarrow> ReadAll (length us) r = us"
proof (induction us arbitrary: r)
  case (Cons u us)
  then obtain r' where "HashRead r = Inr (u, r')" "concat r' = concat (map be_put64 us) @ rest"
    using read_int64_put [of r u] by (auto simp: HashRead_def)
  with Cons.IH show ?case by simp
qed simp

lemma ReadAll_truncated:
  "concat r = concat (map be_put64 us) @ rest \<Longrightarrow> length rest < 8 \<Longrightarrow> ReadAll (length us + m) r = us"
proof (induction us arbitrary: r)
  case Nil
  then show ?case using ReadFull_short [of r 8] by (cases m) (auto simp: HashRead_def read_int64_def)
next
  case (Cons u us)
  then obtain r' where "HashRead r = Inr (u, r')" "concat r' = concat (map be_put64 us) @ rest"
    using read_int64_put [of r u] by (auto simp: HashRead_def)
  with Cons show ?case by simp
qed

lemma npsi_sender_stage2_run:
  assumes "NewMetroHasher k = Inr h" and "sched_ok (np_sched env) (length xs)" and "length xs + 1 \<le> budget w"
  shows "\<exists>w' us. Sender_stage2 env (length xs) xs k w = Inr w' \<and>
    wrote w' = wrote w @ be_put64 (of_nat (length xs)) @ concat (map be_put64 us) \<and>
    mset us = mset (map (Hash64 (np_lib env) h) xs) \<and>
    us = map snd (HashAllParallel (np_lib env) (np_sched env) h xs)"
proof -
  let ?P = "HashAllParallel (np_lib env) (np_sched env) h xs"
  have P: "mset ?P = mset (HashAll (np_lib env) h xs)" by (rule mset_HashAllParallel [OF assms(2)])
  then have len: "length ?P = length xs" by (metis HashAll_def length_map size_mset)
  have "mset (map snd ?P) = mset (map snd (HashAll (np_lib env) h xs))" using P by (metis mset_map)
  then have us: "mset (map snd ?P) = mset (map (Hash64 (np_lib env) h) xs)" by (simp only: HashAll_def map_map comp_def snd_conv)
  let ?b = "be_put64 (of_nat (length xs))"
  have first: "buf_write 4096 ?b ([], w) = Inr (?b, w)" by (simp add: buf_write_def)
  have "length ?P \<le> budget w" using len assms(3) by simp
  from buf_write_all [OF this, of "\<lambda>p. be_put64 (snd p)" 4096 ?b "''stage2''"] obtain buf' w' where
    w': "fold_res (\<lambda>p bw. wrap_err ''stage2'' (HashWrite bw (snd p))) ?P (?b, w) = Inr (buf', w')"
      "wrote w' @ buf' = wrote w @ ?b @ concat (map (\<lambda>p. be_put64 (snd p)) ?P)" "budget w \<le> budget w' + length ?P"
    by (auto simp: HashWrite_def)
  have "0 < budget w'" using w'(3) len assms(3) by simp
  then have "wrote (Flush (buf', w')) = wrote w @ ?b @ concat (map be_put64 (map snd ?P))"
    using w'(2) by (simp add: Flush_spec comp_def)
  with assms(1) first w'(1) us show ?thesis by (simp add: Sender_stage2_def)
qed

section \<open>Looking up\<close>

lemma remote_index: "fold (\<lambda>h m. m(h := True)) us (\<lambda>_. False) = (\<lambda>h. h \<in> set us)"
proof -
  have "fold (\<lambda>h m. m(h := True)) us m h \<longleftrightarrow> h \<in> set us \<or> m h" for m h
    by (induction us arbitrary: m) auto
  then show ?thesis by auto
qed

lemma local_index:
  "fold (\<lambda>(x, h) m. m(h \<mapsto> x)) ps m h = (case map_of (rev (map (\<lambda>(x, h). (h, x)) ps)) h of None \<Rightarrow> m h | Some x \<Rightarrow> Some x)"
  by (induction ps arbitrary: m) (auto simp: map_of_append map_add_def split: option.splits)

lemma collect_matches:
  "fold (\<lambda>h acc. if R h then acc @ [g h] else acc) hs acc = acc @ map g (filter R hs)"
  by (induction hs arbitrary: acc) simp_all

lemma lookup_result:
  fixes U :: "u64 set" and ks :: "u64 list" and P :: "hashPair list"
  assumes P: "mset P = mset (HashAll H h ys)" and inj: "inj_on (Hash64 H h) (set ys)" and ks: "mset ks = mset (remdups (map snd P))"
  defines "localIDs \<equiv> fold (\<lambda>(x, h) m. m(h \<mapsto> x)) P (\<lambda>_. None)"
  defines "zs \<equiv> map (\<lambda>h. the (localIDs h)) (filter (\<lambda>h. h \<in> U) ks)"
  shows "distinct zs" and "set zs = {y \<in> set ys. Hash64 H h y \<in> U}"
proof -
  let ?H = "Hash64 H h"
  have setP: "set P = (\<lambda>y. (y, ?H y)) ` set ys" using mset_eq_setD [OF P] by (simp add: HashAll_def)
  have ks': "distinct ks" "set ks = ?H ` set ys"
  proof -
    show "distinct ks" using ks by (metis distinct_remdups mset_eq_imp_distinct_iff)
    show "set ks = ?H ` set ys" using mset_eq_setD [OF ks] setP by (simp add: image_image)
  qed
  have the: "the (localIDs (?H y)) = y" if "y \<in> set ys" for y
  proof -
    let ?m = "rev (map (\<lambda>(x, h). (h, x)) P)"
    have "(?H y, y) \<in> set ?m" using that setP by force
    then obtain x where x: "map_of ?m (?H y) = Some x" by (metis map_of_eq_None_iff fst_conv imageI option.exhaust)
    then have "(x, ?H y) \<in> set P" by (force dest: map_of_SomeD)
    then have "x \<in> set ys" "?H x = ?H y" using setP by auto
    with inj that have "x = y" by (auto dest: inj_onD)
    with x show ?thesis by (simp add: localIDs_def local_index)
  qed
  have "inj_on (\<lambda>h. the (localIDs h)) (set ks)" using the ks'(2) by (intro inj_onI) auto
  then show "distinct zs" using ks'(1) unfolding zs_def by (simp add: distinct_map inj_on_subset)
  have "set zs = (\<lambda>h. the (localIDs h)) ` {v \<in> ?H ` set ys. v \<in> U}" unfolding zs_def using ks'(2) by auto
  also have "\<dots> = {y \<in> set ys. ?H y \<in> U}" using the by force
  finally show "set zs = {y \<in> set ys. Hash64 H h y \<in> U}" .
qed

definition iter_ok :: "(u64 list \<Rightarrow> u64 list) \<Rightarrow> bool" where
  "iter_ok iter \<longleftrightarrow> (\<forall>ks. mset (iter ks) = mset ks)"

lemma npsi_receiver_stage2_run:
  assumes "NewMetroHasher k = Inr h" and "sched_ok (np_sched env) (length ys)" and "iter_ok (np_iter env)"
    and "inj_on (Hash64 (np_lib env) h) (set ys)" and "read_int64 r = Inr (n, r')"
  shows "\<exists>zs. Receiver_stage2 env ys k r = Inr zs \<and> distinct zs \<and>
    set zs = {y \<in> set ys. Hash64 (np_lib env) h y \<in> set (ReadAll (nat (sint n)) r')}"
proof -
  let ?P = "HashAllParallel (np_lib env) (np_sched env) h ys" and ?us = "set (ReadAll (nat (sint n)) r')"
  let ?ks = "np_iter env (remdups (map snd ?P))"
  have "mset ?ks = mset (remdups (map snd ?P))" using assms(3) by (simp add: iter_ok_def)
  note res = lookup_result [OF mset_HashAllParallel [OF assms(2)] assms(4) this, of ?us]
  have "Receiver_stage2 env ys k r = Inr (map (\<lambda>x. the (fold (\<lambda>(x, h) m. m(h \<mapsto> x)) ?P (\<lambda>_. None) x)) (filter (\<lambda>x. x \<in> ?us) ?ks))"
    using assms(1,5) by (simp add: Receiver_stage2_def remote_index collect_matches Let_def)
  then show ?thesis using res by blast
qed

section \<open>Properties\<close>

text \<open>A run of the naive protocol.\<close>

lemma npsi_run:
  assumes lib: "np_lib es = H" "np_lib er = H" and ctx: "np_ctx es = (\<lambda>_. None)" "np_ctx er = (\<lambda>_. None)"
    and salt: "np_salt er = Inr k" "NewMetroHasher k = Inr h"
    and sched: "sched_ok (np_sched es) (length xs)" "sched_ok (np_sched er) (length ys)" "iter_ok (np_iter er)"
    and inj: "inj_on (Hash64 H h) (set xs \<union> set ys)" and n: "length xs < 2 ^ 63"
    and budgets: "length xs + 1 \<le> budget v" "1 \<le> budget w"
  shows "\<exists>a. \<forall>rest rr. concat rr = a \<longrightarrow> (\<exists>v' w' zs.
    Send es (length xs) xs (k # rest) v = Some (Inr v') \<and> wrote v' = wrote v @ a \<and>
    Intersect er ys rr w = Some (Inr (zs, w')) \<and> wrote w' = wrote w @ k \<and> distinct zs \<and> set zs = set xs \<inter> set ys)"
proof -
  have k: "length k = SaltLength" using salt(2) by (simp add: NewMetroHasher_def split: if_splits)
  let ?us = "map snd (HashAllParallel H (np_sched es) h xs)" and ?n = "be_put64 (of_nat (length xs))"
  obtain v' where v': "Sender_stage2 es (length xs) xs k v = Inr v'" "wrote v' = wrote v @ ?n @ concat (map be_put64 ?us)"
    and us: "mset ?us = mset (map (Hash64 H h) xs)"
    using npsi_sender_stage2_run [OF salt(2) sched(1) budgets(1)] lib by auto
  have len: "length ?us = length xs" and set: "set ?us = Hash64 H h ` set xs"
    using us by (metis length_map size_mset, metis set_map mset_eq_setD)
  have send: "Send es (length xs) xs (k # rest) v = Some (Inr v')" for rest
    using v'(1) k ctx(1) by (simp add: Send_def Sender_stage1_def)
  have w: "Receiver_stage1 er w = Inr (k, \<lparr>wrote = wrote w @ k, budget = budget w - 1\<rparr>)"
    using k salt(1) budgets(2) by (auto simp: Receiver_stage1_def buf_write_def Flush_def io_write_def)
  have "\<exists>zs. Intersect er ys rr w = Some (Inr (zs, \<lparr>wrote = wrote w @ k, budget = budget w - 1\<rparr>)) \<and> distinct zs \<and> set zs = set xs \<inter> set ys"
    if rr: "concat rr = ?n @ concat (map be_put64 ?us)" for rr
  proof -
    obtain r' where r': "read_int64 rr = Inr (of_nat (length xs), r')" "concat r' = concat (map be_put64 ?us) @ []"
      using read_int64_put [OF rr] by auto
    have "ReadAll (nat (sint (of_nat (length xs) :: u64))) r' = ?us"
      using ReadAll_complete [OF r'(2)] len int64_size [OF n] by simp
    moreover have "inj_on (Hash64 (np_lib er) h) (set ys)" using inj lib by (simp add: inj_on_Un)
    ultimately obtain zs where zs: "Receiver_stage2 er ys k rr = Inr zs" "distinct zs"
      "set zs = {y \<in> set ys. Hash64 H h y \<in> Hash64 H h ` set xs}"
      using npsi_receiver_stage2_run [OF salt(2) sched(2,3) _ r'(1)] lib set by auto
    have "set zs = set xs \<inter> set ys" using zs(3) inj by (auto simp: inj_on_def)
    with zs(1,2) w ctx(2) show ?thesis by (simp add: Intersect_def)
  qed
  with send v'(2) show ?thesis by (intro exI [of _ "?n @ concat (map be_put64 ?us)"]) fastforce
qed

text \<open>
  Property C3. The naive protocol computes the intersection. When no two identifiers have the same
  salted hash and the salt arrives at the sender in one piece, sender and receiver end without error;
  the receiver returns exactly the common identifiers, each once, for every order in which the hashing
  goroutines deliver, every order of map iteration and every split of the sender's bytes.
\<close>
theorem npsi_intersection:
  assumes lib: "np_lib es = H" "np_lib er = H" and ctx: "np_ctx es = (\<lambda>_. None)" "np_ctx er = (\<lambda>_. None)"
    and salt: "np_salt er = Inr k" "NewMetroHasher k = Inr h"
    and sched: "sched_ok (np_sched es) (length xs)" "sched_ok (np_sched er) (length ys)" "iter_ok (np_iter er)"
    and inj: "inj_on (Hash64 H h) (set xs \<union> set ys)" and n: "length xs < 2 ^ 63"
    and budgets: "length xs + 1 \<le> budget v" "1 \<le> budget w"
  shows "\<exists>a. \<forall>rest rr. concat rr = a \<longrightarrow> (\<exists>v' w' zs.
    Send es (length xs) xs (k # rest) v = Some (Inr v') \<and> wrote v' = wrote v @ a \<and>
    Intersect er ys rr w = Some (Inr (zs, w')) \<and> wrote w' = wrote w @ k \<and> distinct zs \<and> set zs = set xs \<inter> set ys)"
  by (rule npsi_run [OF assms])

definition toy_npsi :: "nat list \<Rightarrow> npsi_env" where
  "toy_npsi sched = \<lparr>np_ctx = (\<lambda>_. None), np_lib = \<lparr>metro_Hash64 = (\<lambda>x s. of_nat (length x) + s), murmur3_Sum64 = (\<lambda>_. 0)\<rparr>,
     np_salt = Inr (replicate SaltLength 7), np_sched = sched, np_iter = rev\<rparr>"

lemma count_list_replicate: "count_list (replicate n x) x = n"
  by (induction n) simp_all

lemma toy_npsi_ok: "sched_ok (replicate 512 0) 2" "sched_ok (replicate 600 0) 3" "iter_ok rev"
  by (simp_all add: sched_ok_def iter_ok_def count_list_replicate)

lemma toy_npsi_sched: "sched_ok (replicate 512 0) (length [a, b])" "sched_ok (replicate 600 0) (length [a, b, c])"
  using toy_npsi_ok by (simp_all add: numeral_2_eq_2 numeral_3_eq_3)

lemma toy_salt: "\<exists>h. NewMetroHasher (replicate SaltLength 7) = Inr (Metro64 h)"
  using NewMetroHasher_eq [of "replicate SaltLength 7"] by simp

theorem npsi_intersection_witness:
  "\<exists>a. \<forall>rest rr. concat rr = a \<longrightarrow> (\<exists>v' w' zs.
    Send (toy_npsi (replicate 512 0)) (length [[1], [1, 2 :: byte]]) [[1], [1, 2]] (replicate SaltLength 7 # rest) \<lparr>wrote = [], budget = 3\<rparr> = Some (Inr v') \<and>
    wrote v' = wrote \<lparr>wrote = [], budget = 3\<rparr> @ a \<and>
    Intersect (toy_npsi (replicate 600 0)) [[1, 2], [], [1, 2]] rr \<lparr>wrote = [], budget = 1\<rparr> = Some (Inr (zs, w')) \<and>
    wrote w' = wrote \<lparr>wrote = [], budget = 1\<rparr> @ replicate SaltLength 7 \<and> distinct zs \<and>
    set zs = set [[1], [1, 2]] \<inter> set [[1, 2], [], [1, 2]])"
proof -
  obtain h where h: "NewMetroHasher (replicate SaltLength 7) = Inr (Metro64 h)" using toy_salt by blast
  have "inj_on (Hash64 \<lparr>metro_Hash64 = (\<lambda>x s. of_nat (length x) + s), murmur3_Sum64 = (\<lambda>_. 0)\<rparr> (Metro64 h))
      (set [[1], [1, 2 :: byte]] \<union> set [[1, 2], [], [1, 2]])"
    by (auto simp: inj_on_def)
  then show ?thesis
    by (rule npsi_intersection [OF _ _ _ _ _ h, rotated 8]) (use toy_npsi_sched toy_npsi_ok(3) in \<open>simp_all add: toy_npsi_def\<close>)
qed

text \<open>A run in which the stream of hashes ends early.\<close>

lemma npsi_run_truncated:
  assumes "np_ctx er = (\<lambda>_. None)" and "np_salt er = Inr k" and "NewMetroHasher k = Inr h"
    and "sched_ok (np_sched er) (length ys)" and "iter_ok (np_iter er)" and "inj_on (Hash64 (np_lib er) h) (set ys)"
    and "concat rr = be_put64 (of_nat n) @ concat (map be_put64 us) @ part" and "length us < n" and "n < 2 ^ 63" and "length part < 8"
    and "1 \<le> budget w"
  shows "\<exists>zs w'. Intersect er ys rr w = Some (Inr (zs, w')) \<and> distinct zs \<and> set zs = {y \<in> set ys. Hash64 (np_lib er) h y \<in> set us}"
proof -
  have k: "length k = SaltLength" using assms(3) by (simp add: NewMetroHasher_def split: if_splits)
  obtain r' where r': "read_int64 rr = Inr (of_nat n, r')" "concat r' = concat (map be_put64 us) @ part"
    using read_int64_put [OF assms(7)] by auto
  have "ReadAll (nat (sint (of_nat n :: u64))) r' = us"
    using ReadAll_truncated [OF r'(2) assms(10), of "n - length us"] assms(8) int64_size [OF assms(9)] by simp
  with npsi_receiver_stage2_run [OF assms(3-6) r'(1)] obtain zs where
    "Receiver_stage2 er ys k rr = Inr zs" "distinct zs" "set zs = {y \<in> set ys. Hash64 (np_lib er) h y \<in> set us}" by auto
  moreover have "Receiver_stage1 er w = Inr (k, \<lparr>wrote = wrote w @ k, budget = budget w - 1\<rparr>)"
    using k assms(2,11) by (auto simp: Receiver_stage1_def buf_write_def Flush_def io_write_def)
  ultimately show ?thesis using assms(1) by (simp add: Intersect_def)
qed

text \<open>
  Property C37. When the sender's stream ends early, after the announced number and some of the hashes, the
  receiver does not report an error: it returns the identifiers found among the hashes that arrived.
\<close>
theorem npsi_truncated_stream:
  assumes "np_ctx er = (\<lambda>_. None)" and "np_salt er = Inr k" and "NewMetroHasher k = Inr h"
    and "sched_ok (np_sched er) (length ys)" and "iter_ok (np_iter er)" and "inj_on (Hash64 (np_lib er) h) (set ys)"
    and "concat rr = be_put64 (of_nat n) @ concat (map be_put64 us) @ part" and "length us < n" and "n < 2 ^ 63" and "length part < 8"
    and "1 \<le> budget w"
  shows "\<exists>zs w'. Intersect er ys rr w = Some (Inr (zs, w')) \<and> distinct zs \<and> set zs = {y \<in> set ys. Hash64 (np_lib er) h y \<in> set us}"
  by (rule npsi_run_truncated [OF assms])

theorem npsi_truncated_stream_witness:
  "\<exists>h. NewMetroHasher (replicate SaltLength 7) = Inr h \<and>
    (\<exists>zs w'. Intersect (toy_npsi (replicate 512 0)) [[1], [1, 2]] [be_put64 (of_nat 2), concat (map be_put64 [Hash64 (np_lib (toy_npsi [])) h [1]])]
      \<lparr>wrote = [], budget = 1\<rparr> = Some (Inr (zs, w')) \<and> distinct zs \<and>
      set zs = {y \<in> set [[1], [1, 2]]. Hash64 (np_lib (toy_npsi (replicate 512 0))) h y \<in> set [Hash64 (np_lib (toy_npsi [])) h [1]]})"
proof -
  obtain h where h: "NewMetroHasher (replicate SaltLength 7) = Inr (Metro64 h)" using toy_salt by blast
  have "\<exists>zs w'. Intersect (toy_npsi (replicate 512 0)) [[1], [1, 2]] [be_put64 (of_nat 2), concat (map be_put64 [Hash64 (np_lib (toy_npsi [])) (Metro64 h) [1]])]
      \<lparr>wrote = [], budget = 1\<rparr> = Some (Inr (zs, w')) \<and> distinct zs \<and>
      set zs = {y \<in> set [[1], [1, 2]]. Hash64 (np_lib (toy_npsi (replicate 512 0))) (Metro64 h) y \<in> set [Hash64 (np_lib (toy_npsi [])) (Metro64 h) [1]]}"
    by (rule npsi_truncated_stream [OF _ _ h, where n = 2 and part = "[]"])
      (use toy_npsi_sched toy_npsi_ok(3) in \<open>simp_all add: toy_npsi_def\<close>)
  with h show ?thesis by blast
qed

text \<open>A salt that arrives in two pieces makes the sender fail, although \<open>io.ReadFull\<close> would accept it.\<close>

lemma salt_in_pieces_rejected:
  assumes "np_ctx es = (\<lambda>_. None)" and "length p < SaltLength"
  shows "Send es n xs (p # rest) v = Some (Inl ErrSaltLengthMismatch)"
  using assms by (simp add: Send_def Sender_stage1_def)

end
