(* ===== verification/NPSI_Pool.thy ===== *)
theory NPSI_Pool
  imports NPSI
begin

text \<open>
  The pool of hashing goroutines of \<open>pkg/npsi/npsi_parallel.go\<close> as a state machine. The handlers are
  started once per process and serve every run of the protocol over the channel \<open>hOpBus\<close>; a handler
  that has hashed a batch sends the pairs on the unbuffered channel of the run the batch belongs to.
\<close>

section \<open>When a consumer returns early\<close>

text \<open>
  The only consumer that stops before its channel is closed is \<open>Send\<close>, when \<open>HashWrite\<close> fails. The
  header and 511 hashes fit into the buffer of 4096 bytes, so that this cannot happen before the 512th pair.
\<close>

abbreviation first_flush :: nat where
  "first_flush \<equiv> 512"

lemma HashWrite_buffered:
  "length buf + 8 * length us \<le> 4096 \<Longrightarrow> fold_res (\<lambda>u bw. HashWrite bw u) us (buf, w) = Inr (buf @ concat (map be_put64 us), w)"
proof (induction us arbitrary: buf)
  case (Cons u us)
  have "length (be_put64 u) \<le> 4096 - length buf" using Cons.prems by simp
  then have "HashWrite (buf, w) u = Inr (buf @ be_put64 u, w)" by (simp add: HashWrite_def buf_write_def Let_def)
  with Cons.IH [of "buf @ be_put64 u"] Cons.prems show ?case by simp
qed simp

lemma first_failing_write:
  shows "length us < first_flush \<Longrightarrow> \<exists>bw. fold_res (\<lambda>u bw. HashWrite bw u) us (be_put64 n, w) = Inr bw"
    and "length us = first_flush \<Longrightarrow> budget w = 0 \<Longrightarrow> fold_res (\<lambda>u bw. HashWrite bw u) us (be_put64 n, w) = Inl IOError"
proof -
  show "length us < first_flush \<Longrightarrow> \<exists>bw. fold_res (\<lambda>u bw. HashWrite bw u) us (be_put64 n, w) = Inr bw"
    using HashWrite_buffered [of "be_put64 n" us w] by simp
  assume len: "length us = first_flush" and w: "budget w = 0"
  then obtain vs v where us: "us = vs @ [v]" "length vs = 511" by (cases us rule: rev_cases) auto
  let ?buf = "be_put64 n @ concat (map be_put64 vs)"
  have fill: "fold_res (\<lambda>u bw. HashWrite bw u) vs (be_put64 n, w) = Inr (?buf, w)"
    by (rule HashWrite_buffered) (simp add: us(2))
  have "length (concat (map be_put64 vs)) = 8 * length vs" by (induction vs) simp_all
  then have full: "length ?buf = 4096" using us(2) by simp
  then have "?buf \<noteq> []" by (metis list.size(3) zero_neq_numeral)
  with full w have "HashWrite (?buf, w) v = Inl IOError"
    by (simp add: HashWrite_def buf_write_def Let_def write_conn_def io_write_def)
  with fill us(1) show "fold_res (\<lambda>u bw. HashWrite bw u) us (be_put64 n, w) = Inl IOError"
    by (simp add: fold_res_append)
qed

section \<open>Steps\<close>

text \<open>
  \<open>idle\<close> handlers wait on the bus; a busy handler has a run and the number of pairs it still has to send.
  \<open>pairs_got\<close> counts the pairs that the consumer of a run has got. A run of a \<open>sender\<close> is abandoned when its consumer
  has returned; the goroutine that makes its batches goes on and offers them on the bus.
\<close>

record pool =
  idle :: nat
  busy :: "(nat \<times> nat) list"
  pairs_got :: "nat \<Rightarrow> nat"
  abandoned :: "nat set"

definition pool_init :: "nat \<Rightarrow> pool" where
  "pool_init nhandlers = \<lparr>idle = nhandlers, busy = [], pairs_got = (\<lambda>_. 0), abandoned = {}\<rparr>"

inductive pool_step :: "(nat \<Rightarrow> bool) \<Rightarrow> pool \<Rightarrow> pool \<Rightarrow> bool"
  for sender :: "nat \<Rightarrow> bool" where
  take: "0 < idle s \<Longrightarrow> 0 < l \<Longrightarrow> l \<le> batchSize \<Longrightarrow> pool_step sender s (s\<lparr>idle := idle s - 1, busy := (run, l) # busy s\<rparr>)"
| send: "i < length (busy s) \<Longrightarrow> busy s ! i = (run, Suc l) \<Longrightarrow> run \<notin> abandoned s \<Longrightarrow>
    pool_step sender s (s\<lparr>busy := (busy s)[i := (run, l)], pairs_got := (pairs_got s)(run := pairs_got s run + 1)\<rparr>)"
| finish: "busy s = bs @ (run, 0) # cs \<Longrightarrow> pool_step sender s (s\<lparr>idle := idle s + 1, busy := bs @ cs\<rparr>)"
| abandon: "sender run \<Longrightarrow> first_flush \<le> pairs_got s run \<Longrightarrow>
    pool_step sender s (s\<lparr>abandoned := insert run (abandoned s)\<rparr>)"

inductive_cases pool_stepE: "pool_step sender s t"

definition pool_reachable :: "(nat \<Rightarrow> bool) \<Rightarrow> pool \<Rightarrow> pool \<Rightarrow> bool" where
  "pool_reachable sender s t \<longleftrightarrow> (pool_step sender)\<^sup>*\<^sup>* s t"

lemma pool_reachable_refl [simp]: "pool_reachable sender s s"
  by (simp add: pool_reachable_def)

lemma pool_reachable_step: "pool_reachable sender s t \<Longrightarrow> pool_step sender t u \<Longrightarrow> pool_reachable sender s u"
  unfolding pool_reachable_def by (rule rtranclp.rtrancl_into_rtrancl)

lemma pool_reachable_trans: "pool_reachable sender s t \<Longrightarrow> pool_reachable sender t u \<Longrightarrow> pool_reachable sender s u"
  unfolding pool_reachable_def by (rule rtranclp_trans)

lemma pool_invariant:
  assumes "pool_reachable sender s t" and "P s" and "\<And>s t. P s \<Longrightarrow> pool_step sender s t \<Longrightarrow> P t"
  shows "P t"
  using assms(1) unfolding pool_reachable_def
  by (induction rule: rtranclp_induct) (blast intro: assms(2,3))+

section \<open>Progress\<close>

text \<open>Each handler is idle or busy.\<close>

lemma handlers_conserved: "pool_reachable sender (pool_init n) s \<Longrightarrow> idle s + length (busy s) = n"
  by (erule pool_invariant) (auto simp: pool_init_def elim!: pool_stepE)

text \<open>As long as no run is abandoned, a busy handler can always go on.\<close>

lemma busy_handlers_progress:
  assumes "abandoned s = {}" and "busy s \<noteq> []"
  shows "\<exists>t. pool_step sender s t \<and> sum_list (map (\<lambda>(_, l). Suc l) (busy t)) < sum_list (map (\<lambda>(_, l). Suc l) (busy s))"
proof -
  from assms(2) obtain run l bs where b: "busy s = (run, l) # bs" by (cases "busy s") auto
  show ?thesis
  proof (cases l)
    case 0
    with b have "pool_step sender s (s\<lparr>idle := idle s + 1, busy := [] @ bs\<rparr>)" by (intro pool_step.finish [where run = run]) simp
    with b show ?thesis by fastforce
  next
    case (Suc m)
    with b assms(1) have "pool_step sender s (s\<lparr>busy := (busy s)[0 := (run, m)], pairs_got := (pairs_got s)(run := pairs_got s run + 1)\<rparr>)"
      by (intro pool_step.send) simp_all
    with b Suc show ?thesis by fastforce
  qed
qed

section \<open>Lost handlers\<close>

text \<open>The handlers that hold pairs of a run whose consumer has returned.\<close>

definition lost :: "pool \<Rightarrow> nat" where
  "lost s = length (filter (\<lambda>(run, l). 0 < l \<and> run \<in> abandoned s) (busy s))"

lemma filter_update_other: "\<not> P (xs ! i) \<Longrightarrow> \<not> P v \<Longrightarrow> filter P (xs[i := v]) = filter P xs"
proof (induction xs arbitrary: i)
  case (Cons x xs)
  then show ?case by (cases i) auto
qed simp

lemma length_filter_mono: "(\<And>x. P x \<Longrightarrow> Q x) \<Longrightarrow> length (filter P xs) \<le> length (filter Q xs)"
  by (induction xs) auto

lemma lost_step:
  assumes "pool_step sender s t"
  shows "lost s \<le> lost t"
  using assms
proof (cases rule: pool_step.cases)
  case (send i run l)
  then have "filter (\<lambda>(run, l). 0 < l \<and> run \<in> abandoned s) ((busy s)[i := (run, l)]) = filter (\<lambda>(run, l). 0 < l \<and> run \<in> abandoned s) (busy s)"
    by (intro filter_update_other) auto
  with send(1) show ?thesis by (simp add: lost_def)
next
  case (abandon run)
  then show ?thesis unfolding lost_def by (simp, intro length_filter_mono) auto
qed (simp_all add: lost_def)

lemma lost_le: "lost s \<le> length (busy s)"
  by (simp add: lost_def)

lemma lost_forever: "pool_reachable sender s t \<Longrightarrow> lost s \<le> lost t"
  by (erule pool_invariant) (auto dest: lost_step)

text \<open>A handler works through a batch.\<close>

lemma send_pairs:
  assumes "busy s = [(run, k)]" and "run \<notin> abandoned s" and "m \<le> k"
  shows "pool_reachable sender s (s\<lparr>busy := [(run, k - m)], pairs_got := (pairs_got s)(run := pairs_got s run + m)\<rparr>)"
  using assms(3)
proof (induction m)
  case 0
  then show ?case using assms(1) by (cases s) simp
next
  case (Suc m)
  let ?t = "s\<lparr>busy := [(run, k - m)], pairs_got := (pairs_got s)(run := pairs_got s run + m)\<rparr>"
  have "busy ?t ! 0 = (run, Suc (k - Suc m))" using Suc.prems by simp
  then have "pool_step sender ?t (?t\<lparr>busy := (busy ?t)[0 := (run, k - Suc m)], pairs_got := (pairs_got ?t)(run := pairs_got ?t run + 1)\<rparr>)"
    using assms(2) by (intro pool_step.send) simp_all
  also have "?t\<lparr>busy := (busy ?t)[0 := (run, k - Suc m)], pairs_got := (pairs_got ?t)(run := pairs_got ?t run + 1)\<rparr> =
      s\<lparr>busy := [(run, k - Suc m)], pairs_got := (pairs_got s)(run := pairs_got s run + Suc m)\<rparr>" by simp
  finally have step: "pool_step sender ?t (s\<lparr>busy := [(run, k - Suc m)], pairs_got := (pairs_got s)(run := pairs_got s run + Suc m)\<rparr>)" .
  have "pool_reachable sender s ?t" using Suc.prems by (intro Suc.IH) simp
  from pool_reachable_step [OF this step] show ?case .
qed

text \<open>One write error is enough: the remaining batches of the run take one handler after the other.\<close>

lemma abandoned_run:
  assumes "sender run" and "0 < n"
  shows "\<exists>s. pool_reachable sender (pool_init n) s \<and> idle s = n \<and> busy s = [] \<and> abandoned s = {run}"
proof -
  let ?s1 = "(pool_init n)\<lparr>idle := n - 1, busy := [(run, batchSize)]\<rparr>"
  have 1: "pool_step sender (pool_init n) ?s1"
    using pool_step.take [of "pool_init n" batchSize sender run] assms(2) by (simp add: pool_init_def)
  let ?s2 = "?s1\<lparr>busy := [(run, batchSize - batchSize)], pairs_got := (pairs_got ?s1)(run := pairs_got ?s1 run + batchSize)\<rparr>"
  have 2: "pool_reachable sender ?s1 ?s2" by (rule send_pairs) (simp_all add: pool_init_def)
  let ?s3 = "?s2\<lparr>abandoned := insert run (abandoned ?s2)\<rparr>"
  have 3: "pool_step sender ?s2 ?s3" using assms(1) by (intro pool_step.abandon) (simp_all add: pool_init_def)
  let ?s4 = "?s3\<lparr>idle := idle ?s3 + 1, busy := [] @ []\<rparr>"
  have 4: "pool_step sender ?s3 ?s4" by (rule pool_step.finish [where run = run]) simp
  have "pool_reachable sender (pool_init n) ?s4"
    by (rule pool_reachable_step [OF pool_reachable_step [OF pool_reachable_trans [OF pool_reachable_step [OF pool_reachable_refl 1] 2] 3] 4])
  with assms(2) show ?thesis by (intro exI [of _ ?s4]) (simp add: pool_init_def)
qed

lemma take_all:
  assumes "run \<in> abandoned s" and "k \<le> idle s"
  shows "\<exists>t. pool_reachable sender s t \<and> idle t = idle s - k \<and> lost t = lost s + k \<and> abandoned t = abandoned s"
  using assms(2)
proof (induction k)
  case 0
  show ?case by (intro exI [of _ s]) simp
next
  case (Suc k)
  then obtain t where t: "pool_reachable sender s t" "idle t = idle s - k" "lost t = lost s + k" "abandoned t = abandoned s" by auto
  let ?u = "t\<lparr>idle := idle t - 1, busy := (run, 1) # busy t\<rparr>"
  have "pool_step sender t ?u" using t(2) Suc.prems by (intro pool_step.take) simp_all
  with t have "pool_reachable sender s ?u" by (blast intro: pool_reachable_step)
  with t assms(1) show ?case by (intro exI [of _ ?u]) (simp add: lost_def)
qed

section \<open>Properties\<close>

text \<open>
  Property C38. A handler that holds pairs of a run whose consumer has returned is lost: from every reachable state on, the
  number of lost handlers never goes down and the idle handlers are among the others, so that no handler
  is ever idle again once all are lost. One sender whose write fails can cause that, in a pool of any size: when its
  consumer has returned, each further batch of its identifiers takes a handler with it.
\<close>
theorem pool_exhaustion:
  assumes "sender run"
  shows "(\<forall>s t. pool_reachable sender (pool_init nhandlers) s \<and> pool_reachable sender s t \<longrightarrow>
      lost s \<le> lost t \<and> idle t + lost s \<le> nhandlers) \<and>
    (0 < nhandlers \<longrightarrow> (\<exists>s. pool_reachable sender (pool_init nhandlers) s \<and> abandoned s = {run} \<and> lost s = nhandlers))"
proof (intro conjI allI impI)
  fix s t assume "pool_reachable sender (pool_init nhandlers) s \<and> pool_reachable sender s t"
  then have r: "pool_reachable sender (pool_init nhandlers) t" and st: "pool_reachable sender s t" by (blast intro: pool_reachable_trans)+
  show "lost s \<le> lost t" by (rule lost_forever [OF st])
  with lost_le [of t] handlers_conserved [OF r] show "idle t + lost s \<le> nhandlers" by linarith
next
  assume "0 < nhandlers"
  then obtain s where s: "pool_reachable sender (pool_init nhandlers) s" "idle s = nhandlers" "busy s = []" "abandoned s = {run}"
    using abandoned_run [of sender run nhandlers] assms by blast
  with take_all [of run s nhandlers sender] obtain t where "pool_reachable sender s t" "lost t = lost s + nhandlers" "abandoned t = {run}"
    by auto
  with s show "\<exists>s. pool_reachable sender (pool_init nhandlers) s \<and> abandoned s = {run} \<and> lost s = nhandlers"
    by (intro exI [of _ t]) (auto simp: lost_def intro: pool_reachable_trans)
qed

theorem pool_exhaustion_witness:
  "\<exists>s. pool_reachable even (pool_init 4) s \<and> abandoned s = {2} \<and> lost s = 4 \<and>
    (\<forall>t. pool_reachable even s t \<longrightarrow> idle t = 0)"
proof -
  have two: "even (2 :: nat)" by simp
  from pool_exhaustion [of even, OF two, of 4] obtain s where s: "pool_reachable even (pool_init 4) s" "abandoned s = {2}" "lost s = 4" by auto
  moreover have "idle t = 0" if "pool_reachable even s t" for t
    using conjunct1 [OF pool_exhaustion [of even, OF two, of 4], rule_format, of s t] s that by simp
  ultimately show ?thesis by blast
qed

end
