(* ===== verification/BPSI.thy ===== *)
theory BPSI
  imports Conn Select
begin

text \<open>
  The protocol of \<open>pkg/bpsi\<close>: the sender puts its identifiers into a Bloom filter and sends the filter,
  the receiver keeps those of its identifiers that pass it. The filter itself is the third-party
  package bits-and-blooms; its operations are the fields of \<open>bloom_lib\<close> and what the protocol relies on
  is the predicate \<open>bloom_ok\<close>.
\<close>

section \<open>Bloom filters\<close>

record 'bf bloom_lib =
  NewWithEstimates :: "nat \<Rightarrow> 'bf"
  bloom_Add :: "'bf \<Rightarrow> bytes \<Rightarrow> 'bf"
  bloom_Test :: "'bf \<Rightarrow> bytes \<Rightarrow> bool"
  bloom_chunks :: "'bf \<Rightarrow> bytes list"
  bloom_ReadFrom :: "io_reader \<Rightarrow> ('bf \<times> io_reader) result"

text \<open>The constant is the second of its block, so \<open>iota\<close> is 1.\<close>

abbreviation BloomfilterTypeBitsAndBloom :: int where
  "BloomfilterTypeBitsAndBloom \<equiv> 1"

definition NewBloomfilter :: "'bf bloom_lib \<Rightarrow> int \<Rightarrow> nat \<Rightarrow> 'bf result" where
  "NewBloomfilter B t n =
     (if t = BloomfilterTypeBitsAndBloom then Inr (NewWithEstimates B n) else Inl (ErrUnsupportedBloomfilter t))"

definition Add_bf :: "'bf bloom_lib \<Rightarrow> bytes \<Rightarrow> 'bf \<Rightarrow> 'bf" where
  "Add_bf B identifier bf = bloom_Add B bf identifier"

definition Check_bf :: "'bf bloom_lib \<Rightarrow> 'bf \<Rightarrow> bytes \<Rightarrow> bool" where
  "Check_bf B bf identifier = bloom_Test B bf identifier"

text \<open>The package writes the filter with one or more calls of \<open>Write\<close>.\<close>

definition WriteTo_bf :: "'bf bloom_lib \<Rightarrow> 'bf \<Rightarrow> io_writer \<Rightarrow> io_writer result" where
  "WriteTo_bf B bf w = fold_res write_conn (bloom_chunks B bf) w"

definition ReadFrom_bf :: "'bf bloom_lib \<Rightarrow> io_reader \<Rightarrow> ('bf \<times> io_reader) result" where
  "ReadFrom_bf B r = bloom_ReadFrom B r"

section \<open>Sender and receiver\<close>

text \<open>The error of \<open>NewBloomfilter\<close> is dropped; a nil filter would panic in the first stage.\<close>

definition Send :: "'bf bloom_lib \<Rightarrow> (nat \<Rightarrow> error option) \<Rightarrow> nat \<Rightarrow> bytes list \<Rightarrow> io_writer \<Rightarrow> io_writer result option" where
  "Send B ctx n identifiers w =
     (case NewBloomfilter B BloomfilterTypeBitsAndBloom n of
        Inl _ \<Rightarrow> Sel (ctx 1) (Some (Inl NilDeref))
      | Inr bf \<Rightarrow>
          bind_run (Sel (ctx 1) (Some (Inr (fold (Add_bf B) identifiers bf)))) (\<lambda>bf.
            Sel (ctx 2) (Some (WriteTo_bf B bf w))))"

definition Intersect :: "'bf bloom_lib \<Rightarrow> (nat \<Rightarrow> error option) \<Rightarrow> bytes list \<Rightarrow> io_reader \<Rightarrow> bytes list result option" where
  "Intersect B ctx identifiers r =
     bind_run (Sel (ctx 1) (Some (ReadFrom_bf B r))) (\<lambda>(bf, r).
       Sel (ctx 2) (Some (Inr (fold (\<lambda>identifier intersection.
         if Check_bf B bf identifier then intersection @ [identifier] else intersection) identifiers []))))"

section \<open>What a Bloom filter promises\<close>

text \<open>
  No false negatives: an identifier that was added passes, and adding more does not change that. A
  filter that was written is read back, in whatever pieces it arrives.
\<close>

definition bloom_ok :: "'bf bloom_lib \<Rightarrow> bool" where
  "bloom_ok B \<longleftrightarrow>
     (\<forall>bf x. bloom_Test B (bloom_Add B bf x) x) \<and>
     (\<forall>bf x y. bloom_Test B bf y \<longrightarrow> bloom_Test B (bloom_Add B bf x) y) \<and>
     (\<forall>bf r. concat r = concat (bloom_chunks B bf) \<longrightarrow> (\<exists>r'. bloom_ReadFrom B r = Inr (bf, r')))"

lemma added_passes:
  assumes "bloom_ok B" and "x \<in> set xs \<or> Check_bf B bf x"
  shows "Check_bf B (fold (Add_bf B) xs bf) x"
  using assms(2)
proof (induction xs arbitrary: bf)
  case (Cons y xs)
  have "x \<in> set xs \<or> Check_bf B (Add_bf B y bf) x"
    using Cons.prems assms(1) by (auto simp: bloom_ok_def Check_bf_def Add_bf_def)
  with Cons.IH show ?case by simp
qed simp

lemma write_chunks:
  "length cs \<le> budget w \<Longrightarrow> fold_res write_conn cs w = Inr \<lparr>wrote = wrote w @ concat cs, budget = budget w - length cs\<rparr>"
  by (induction cs arbitrary: w) (simp_all add: write_conn_ok)

lemma keep_passing:
  "fold (\<lambda>x acc. if P x then acc @ [x] else acc) xs acc = acc @ filter P xs"
  by (induction xs arbitrary: acc) simp_all

section \<open>Properties\<close>

text \<open>A run of the Bloom filter protocol.\<close>

lemma bpsi_run:
  assumes "bloom_ok B" and "ctx = (\<lambda>_. None)" and "bf = fold (Add_bf B) xs (NewWithEstimates B n)"
    and "length (bloom_chunks B bf) \<le> budget v"
  shows "\<exists>v' a. Send B ctx n xs v = Some (Inr v') \<and> wrote v' = wrote v @ a \<and>
    (\<forall>r. concat r = a \<longrightarrow> Intersect B ctx ys r = Some (Inr (filter (Check_bf B bf) ys))) \<and>
    set xs \<inter> set ys \<subseteq> set (filter (Check_bf B bf) ys) \<and>
    ((\<forall>y\<in>set ys - set xs. \<not> Check_bf B bf y) \<longrightarrow> filter (Check_bf B bf) ys = filter (\<lambda>y. y \<in> set xs) ys)"
proof -
  have pass: "Check_bf B bf x" if "x \<in> set xs" for x
    unfolding assms(3) by (rule added_passes [OF assms(1)]) (use that in simp)
  let ?v = "\<lparr>wrote = wrote v @ concat (bloom_chunks B bf), budget = budget v - length (bloom_chunks B bf)\<rparr>"
  have send: "Send B ctx n xs v = Some (Inr ?v)"
    using assms(2,3) write_chunks [OF assms(4)] by (simp add: Send_def NewBloomfilter_def WriteTo_bf_def)
  have recv: "Intersect B ctx ys r = Some (Inr (filter (Check_bf B bf) ys))" if "concat r = concat (bloom_chunks B bf)" for r
  proof -
    from assms(1) that obtain r' where "bloom_ReadFrom B r = Inr (bf, r')" unfolding bloom_ok_def by blast
    with assms(2) show ?thesis by (simp add: Intersect_def ReadFrom_bf_def keep_passing)
  qed
  have exact: "filter (Check_bf B bf) ys = filter (\<lambda>y. y \<in> set xs) ys" if "\<forall>y\<in>set ys - set xs. \<not> Check_bf B bf y"
    using that pass by (auto intro!: filter_cong)
  have wr: "wrote ?v = wrote v @ concat (bloom_chunks B bf)" by simp
  have sub: "set xs \<inter> set ys \<subseteq> set (filter (Check_bf B bf) ys)" using pass by auto
  show ?thesis
    by (rule exI [of _ ?v], rule exI [of _ "concat (bloom_chunks B bf)"])
      (intro conjI allI impI; (rule send wr sub | erule recv | erule exact))
qed

text \<open>
  Property C15. The Bloom filter protocol returns, in the order of the receiver's input, the identifiers
  that pass the sender's filter. These include every common identifier; when the filter has no false
  positive among the receiver's identifiers they are exactly the common ones.
\<close>
theorem bpsi_superset:
  assumes "bloom_ok B" and "ctx = (\<lambda>_. None)" and "bf = fold (Add_bf B) xs (NewWithEstimates B n)"
    and "length (bloom_chunks B bf) \<le> budget v"
  shows "\<exists>v' a. Send B ctx n xs v = Some (Inr v') \<and> wrote v' = wrote v @ a \<and>
    (\<forall>r. concat r = a \<longrightarrow> Intersect B ctx ys r = Some (Inr (filter (Check_bf B bf) ys))) \<and>
    set xs \<inter> set ys \<subseteq> set (filter (Check_bf B bf) ys) \<and>
    ((\<forall>y\<in>set ys - set xs. \<not> Check_bf B bf y) \<longrightarrow> filter (Check_bf B bf) ys = filter (\<lambda>y. y \<in> set xs) ys)"
  by (rule bpsi_run [OF assms])

text \<open>A filter with one bit per length modulo 8: it has false positives, as real filters have.\<close>

definition toy_bloom :: "byte bloom_lib" where
  "toy_bloom = \<lparr>NewWithEstimates = (\<lambda>_. 0), bloom_Add = (\<lambda>bf x. set_bit (length x mod 8) bf), bloom_Test = (\<lambda>bf x. bit bf (length x mod 8)),
     bloom_chunks = (\<lambda>bf. [[bf]]), bloom_ReadFrom = (\<lambda>r. case concat r of [] \<Rightarrow> Inl EOF | b # bs \<Rightarrow> Inr (b, [bs]))\<rparr>"

lemma toy_bloom_ok: "bloom_ok toy_bloom"
  by (auto simp: bloom_ok_def toy_bloom_def bit_set_bit_iff)

theorem bpsi_superset_witness:
  "\<exists>v' a. Send toy_bloom (\<lambda>_. None) 2 [[1], [1, 2]] \<lparr>wrote = [], budget = 1\<rparr> = Some (Inr v') \<and> wrote v' = wrote \<lparr>wrote = [], budget = 1\<rparr> @ a \<and>
    (\<forall>r. concat r = a \<longrightarrow> Intersect toy_bloom (\<lambda>_. None) [[1, 2], [], [7]] r =
      Some (Inr (filter (Check_bf toy_bloom (fold (Add_bf toy_bloom) [[1], [1, 2]] (NewWithEstimates toy_bloom 2))) [[1, 2], [], [7]]))) \<and>
    set [[1], [1, 2]] \<inter> set [[1, 2], [], [7]] \<subseteq>
      set (filter (Check_bf toy_bloom (fold (Add_bf toy_bloom) [[1], [1, 2]] (NewWithEstimates toy_bloom 2))) [[1, 2], [], [7]]) \<and>
    ((\<forall>y\<in>set [[1, 2], [], [7]] - set [[1], [1, 2]]. \<not> Check_bf toy_bloom (fold (Add_bf toy_bloom) [[1], [1, 2]] (NewWithEstimates toy_bloom 2)) y) \<longrightarrow>
      filter (Check_bf toy_bloom (fold (Add_bf toy_bloom) [[1], [1, 2]] (NewWithEstimates toy_bloom 2))) [[1, 2], [], [7]] =
      filter (\<lambda>y. y \<in> set [[1], [1, 2]]) [[1, 2], [], [7]])"
  by (rule bpsi_superset [OF toy_bloom_ok refl refl]) (simp add: toy_bloom_def)

end
