(* ===== verification/PSI.thy ===== *)
theory PSI
  imports DHPSI KKRT_Workers NPSI_Pool BPSI
begin

text \<open>
  The entry points of \<open>pkg/psi\<close>: the enumeration of the protocols and the choice of a sender and a
  receiver. The two interfaces are the operations \<open>Send\<close> and \<open>Intersect\<close> of the four protocol theories.
\<close>

section \<open>Protocols\<close>

type_synonym Protocol = byte

abbreviation ProtocolUnsupported :: Protocol where
  "ProtocolUnsupported \<equiv> 0"

abbreviation ProtocolDHPSI :: Protocol where
  "ProtocolDHPSI \<equiv> 1"

abbreviation ProtocolNPSI :: Protocol where
  "ProtocolNPSI \<equiv> 2"

abbreviation ProtocolBPSI :: Protocol where
  "ProtocolBPSI \<equiv> 3"

abbreviation ProtocolKKRTPSI :: Protocol where
  "ProtocolKKRTPSI \<equiv> 4"

text \<open>The implementations of the interfaces \<open>Sender\<close> and \<open>Receiver\<close>.\<close>

datatype psi_sender = dhpsi_Sender | npsi_Sender | bpsi_Sender | kkrtpsi_Sender

datatype psi_receiver = dhpsi_Receiver | npsi_Receiver | bpsi_Receiver | kkrtpsi_Receiver

definition NewSender :: "Protocol \<Rightarrow> psi_sender result" where
  "NewSender protocol =
     (if protocol = ProtocolDHPSI then Inr dhpsi_Sender
      else if protocol = ProtocolNPSI then Inr npsi_Sender
      else if protocol = ProtocolBPSI then Inr bpsi_Sender
      else if protocol = ProtocolKKRTPSI then Inr kkrtpsi_Sender
      else Inl ErrUnsupportedPSIProtocol)"

definition NewReceiver :: "Protocol \<Rightarrow> psi_receiver result" where
  "NewReceiver protocol =
     (if protocol = ProtocolDHPSI then Inr dhpsi_Receiver
      else if protocol = ProtocolNPSI then Inr npsi_Receiver
      else if protocol = ProtocolBPSI then Inr bpsi_Receiver
      else if protocol = ProtocolKKRTPSI then Inr kkrtpsi_Receiver
      else Inl ErrUnsupportedPSIProtocol)"

definition String_psi :: "Protocol \<Rightarrow> string" where
  "String_psi p =
     (if p = ProtocolDHPSI then ''dhpsi''
      else if p = ProtocolNPSI then ''npsi''
      else if p = ProtocolBPSI then ''bpsi''
      else if p = ProtocolKKRTPSI then ''kkrtpsi''
      else ''unsupported'')"

text \<open>The programs under \<open>examples\<close> choose the protocol by the name in a flag.\<close>

definition parse_protocol :: "string \<Rightarrow> Protocol" where
  "parse_protocol name =
     (if name = ''bpsi'' then ProtocolBPSI
      else if name = ''npsi'' then ProtocolNPSI
      else if name = ''dhpsi'' then ProtocolDHPSI
      else if name = ''kkrt'' then ProtocolKKRTPSI
      else ProtocolUnsupported)"

section \<open>Dispatch\<close>

fun partner :: "psi_sender \<Rightarrow> psi_receiver" where
  "partner dhpsi_Sender = dhpsi_Receiver"
| "partner npsi_Sender = npsi_Receiver"
| "partner bpsi_Sender = bpsi_Receiver"
| "partner kkrtpsi_Sender = kkrtpsi_Receiver"

text \<open>
  Two sides that name the same protocol get a sender and the receiver that belongs to it,
  and both get the error exactly when the name is unsupported.
\<close>
lemma psi_dispatch:
  assumes "String_psi p = String_psi q"
  shows "(case NewSender p of Inl e \<Rightarrow> e = ErrUnsupportedPSIProtocol \<and> NewReceiver q = Inl e \<and> String_psi p = ''unsupported''
     | Inr s \<Rightarrow> NewReceiver q = Inr (partner s) \<and> p = q \<and> p \<in> {ProtocolDHPSI, ProtocolNPSI, ProtocolBPSI, ProtocolKKRTPSI})"
proof (cases "q \<in> {ProtocolDHPSI, ProtocolNPSI, ProtocolBPSI, ProtocolKKRTPSI}")
  case True
  then show ?thesis using assms by (auto simp: NewSender_def NewReceiver_def String_psi_def split: if_splits)
next
  case False
  then show ?thesis using assms by (auto simp: NewSender_def NewReceiver_def String_psi_def split: if_splits)
qed

text \<open>
  The flag accepts the names that the library prints, except the one of the KKRT protocol, which is
  \<open>kkrtpsi\<close> in the library and \<open>kkrt\<close> in the flag.
\<close>

lemma parse_protocol_String:
  "p \<in> {ProtocolDHPSI, ProtocolNPSI, ProtocolBPSI} \<Longrightarrow> parse_protocol (String_psi p) = p"
  "parse_protocol (String_psi ProtocolKKRTPSI) = ProtocolUnsupported"
  by (auto simp: parse_protocol_def String_psi_def)

end
