(* ===== verification/Emails.thy ===== *)
theory Emails
  imports NPSI Framing
begin

text \<open>
  The generator of identifiers in \<open>test/emails/generate.go\<close> and the program \<open>examples/generate.go\<close> that
  writes two files of identifiers with a common part. What \<open>rand.Read\<close> delivers is a parameter.
\<close>

section \<open>Identifiers\<close>

abbreviation HashLen :: nat where
  "HashLen \<equiv> 32"

text \<open>The two bytes of \<open>"e:"\<close>.\<close>

abbreviation Prefix :: bytes where
  "Prefix \<equiv> [101, 58]"

text \<open>The length that \<open>dhpsi.go\<close> gives for a prefixed email.\<close>

abbreviation EmailPrefixedLen :: nat where
  "EmailPrefixedLen \<equiv> 66"

text \<open>\<open>hex.Encode\<close> writes two lower case digits for each byte.\<close>

definition hex_digit :: "nat \<Rightarrow> byte" where
  "hex_digit d = (if d < 10 then of_nat (48 + d) else of_nat (87 + d))"

definition hex_encode :: "bytes \<Rightarrow> bytes" where
  "hex_encode bs = concat (map (\<lambda>b. [hex_digit (unat b div 16), hex_digit (unat b mod 16)]) bs)"

definition prefix_id :: "bytes \<Rightarrow> bytes" where
  "prefix_id value = Prefix @ hex_encode value"

section \<open>Streams of identifiers\<close>

text \<open>\<open>rnd\<close> is what \<open>rand.Read\<close> delivers for the number of bytes asked for.\<close>

definition Common :: "(nat \<Rightarrow> bytes result) \<Rightarrow> nat \<Rightarrow> nat \<Rightarrow> bytes result" where
  "Common rnd n hashLen = (case rnd (n * hashLen) of Inl _ \<Rightarrow> Inl LogFatal | Inr common \<Rightarrow> Inr common)"

definition commons :: "bytes \<Rightarrow> nat \<Rightarrow> bytes list result" where
  "commons b hashLen =
     (if hashLen = 0 then Inl DivideByZero
      else fold_res (\<lambda>i out. bind_res (go_slice b (i * hashLen) (i * hashLen + hashLen)) (\<lambda>hash. Inr (out @ [hash])))
        [0..<length b div hashLen] [])"

text \<open>A failing read of the \<open>i\<close>-th fresh hash is skipped.\<close>

definition freshes :: "(nat \<Rightarrow> nat \<Rightarrow> bytes result) \<Rightarrow> nat \<Rightarrow> nat \<Rightarrow> bytes list" where
  "freshes rnd n hashLen = concat (map (\<lambda>i. case rnd i hashLen of Inr b \<Rightarrow> [b] | Inl _ \<Rightarrow> []) [0..<n])"

definition mixes :: "nat list \<Rightarrow> bytes list \<Rightarrow> bytes list \<Rightarrow> bytes list" where
  "mixes sched c1 c2 = interleave sched [map prefix_id c1, map prefix_id c2]"

definition Mix :: "nat list \<Rightarrow> (nat \<Rightarrow> nat \<Rightarrow> bytes result) \<Rightarrow> bytes \<Rightarrow> nat \<Rightarrow> nat \<Rightarrow> bytes list result" where
  "Mix sched rnd common n hashLen =
     bind_res (commons common hashLen) (\<lambda>c1. Inr (mixes sched c1 (freshes rnd n hashLen)))"

section \<open>The generator program\<close>

abbreviation senderCardinality :: nat where
  "senderCardinality \<equiv> 1000"

abbreviation receiverCardinality :: nat where
  "receiverCardinality \<equiv> 10000"

abbreviation commonCardinality :: nat where
  "commonCardinality \<equiv> senderCardinality div 10"

text \<open>\<open>create\<close> is the outcome of \<open>os.Create\<close>; the file is a writer that starts empty.\<close>

definition output_file :: "io_writer result \<Rightarrow> nat list \<Rightarrow> (nat \<Rightarrow> nat \<Rightarrow> bytes result) \<Rightarrow> bytes \<Rightarrow> nat \<Rightarrow> io_writer result" where
  "output_file create sched rnd common n =
     (case create of
        Inl _ \<Rightarrow> Inl LogFatal
      | Inr f \<Rightarrow>
          bind_res (Mix sched rnd common n HashLen) (\<lambda>matchables.
            fold_res (\<lambda>matchable f. case write_conn (matchable @ [newline]) f of Inl _ \<Rightarrow> Inl LogFatal | Inr f \<Rightarrow> Inr f) matchables f))"

text \<open>The two goroutines of \<open>main\<close> write different files; index 0 is the sender's.\<close>

definition generate_main :: "(nat \<Rightarrow> bytes result) \<Rightarrow> (nat \<Rightarrow> io_writer result) \<Rightarrow> (nat \<Rightarrow> nat list) \<Rightarrow> (nat \<Rightarrow> nat \<Rightarrow> nat \<Rightarrow> bytes result) \<Rightarrow>
    (io_writer \<times> io_writer) result" where
  "generate_main crnd create sched rnd =
     bind_res (Common crnd commonCardinality HashLen) (\<lambda>common.
     bind_res (output_file (create 0) (sched 0) (rnd 0) common (senderCardinality - commonCardinality)) (\<lambda>f0.
     bind_res (output_file (create 1) (sched 1) (rnd 1) common (receiverCardinality - commonCardinality)) (\<lambda>f1.
       Inr (f0, f1))))"

section \<open>Hexadecimal digits\<close>

lemma hex_digit_inj: "a < 16 \<Longrightarrow> b < 16 \<Longrightarrow> hex_digit a = hex_digit b \<longleftrightarrow> a = b"
proof -
  have "inj_on hex_digit (set [0..<16])" by code_simp
  then show "a < 16 \<Longrightarrow> b < 16 \<Longrightarrow> hex_digit a = hex_digit b \<longleftrightarrow> a = b" by (auto simp: inj_on_def)
qed

definition hex_digits :: "byte set" where
  "hex_digits = set (map hex_digit [0..<16])"

lemma hex_digit_in: "a < 16 \<Longrightarrow> hex_digit a \<in> hex_digits"
  by (simp add: hex_digits_def)

lemma newline_not_hex: "newline \<notin> hex_digits"
  by code_simp

lemma nibbles_less: "unat (b :: byte) div 16 < 16" "unat b mod 16 < 16"
  using unsigned_less [where 'a = nat and w = b] by auto

lemma length_hex_encode [simp]: "length (hex_encode bs) = 2 * length bs"
  by (induction bs) (simp_all add: hex_encode_def)

lemma set_hex_encode: "set (hex_encode bs) \<subseteq> hex_digits"
  by (auto simp: hex_encode_def intro!: hex_digit_in nibbles_less)

lemma hex_encode_inj: "hex_encode a = hex_encode b \<longleftrightarrow> a = b"
proof (induction a arbitrary: b)
  case Nil
  show ?case by (cases b) (simp_all add: hex_encode_def)
next
  case (Cons x a)
  show ?case
  proof (cases b)
    case Nil
    then show ?thesis by (simp add: hex_encode_def)
  next
    case (Cons y b')
    have "x = y" if "unat x div 16 = unat y div 16" "unat x mod 16 = unat y mod 16"
      using that by (metis div_mult_mod_eq word_unat_eq_iff)
    then have "hex_digit (unat x div 16) = hex_digit (unat y div 16) \<and> hex_digit (unat x mod 16) = hex_digit (unat y mod 16) \<longleftrightarrow> x = y"
      using hex_digit_inj nibbles_less by metis
    with Cons Cons.IH [of b'] show ?thesis by (auto simp: hex_encode_def)
  qed
qed

lemma prefix_id_inj: "inj prefix_id"
  by (simp add: inj_def prefix_id_def hex_encode_inj)

lemma prefix_id_valid:
  assumes "length value < 32767"
  shows "valid_id (prefix_id value)" and "length (prefix_id value) = 2 + 2 * length value"
  using assms set_hex_encode [of "value"] newline_not_hex by (auto simp: valid_id_def prefix_id_def)

section \<open>Mixing\<close>

definition chunks :: "nat \<Rightarrow> bytes \<Rightarrow> bytes list" where
  "chunks h b = map (\<lambda>i. sub_list b (i * h) h) [0..<length b div h]"

lemma commons_eq:
  assumes "0 < h"
  shows "commons b h = Inr (chunks h b)"
proof -
  have slice: "go_slice b (i * h) (i * h + h) = Inr (sub_list b (i * h) h)" if "i < length b div h" for i
  proof -
    have "(i + 1) * h \<le> length b div h * h" using that by (intro mult_le_mono1) simp
    also have "\<dots> \<le> length b" by (rule div_times_less_eq_dividend)
    finally show ?thesis by (simp add: go_slice_sub_list add.commute)
  qed
  have "fold_res (\<lambda>i out. bind_res (go_slice b (i * h) (i * h + h)) (\<lambda>hash. Inr (out @ [hash]))) ks out =
      Inr (out @ map (\<lambda>i. sub_list b (i * h) h) ks)" if "set ks \<subseteq> {..<length b div h}" for ks out
    using that by (induction ks arbitrary: out) (simp_all add: slice)
  from this [of "[0..<length b div h]"] assms show ?thesis by (simp add: commons_def chunks_def atLeast0LessThan)
qed

lemma length_chunk: "0 < h \<Longrightarrow> c \<in> set (chunks h b) \<Longrightarrow> length c = h"
proof -
  assume "0 < h" "c \<in> set (chunks h b)"
  then obtain i where i: "i < length b div h" "c = sub_list b (i * h) h" by (auto simp: chunks_def)
  have "(i + 1) * h \<le> length b div h * h" using i(1) by (intro mult_le_mono1) simp
  also have "\<dots> \<le> length b" by (rule div_times_less_eq_dividend)
  finally show "length c = h" using i(2) by (simp add: sub_list_def)
qed

text \<open>What \<open>rand.Read\<close> promises: a read that returns no error has filled the buffer.\<close>

definition fills :: "(nat \<Rightarrow> nat \<Rightarrow> bytes result) \<Rightarrow> bool" where
  "fills rnd \<longleftrightarrow> (\<forall>i h b. rnd i h = Inr b \<longrightarrow> length b = h)"

lemma length_fresh: "fills rnd \<Longrightarrow> b \<in> set (freshes rnd n h) \<Longrightarrow> length b = h"
  by (auto simp: freshes_def fills_def split: sum.splits)

lemma length_freshes: "length (freshes rnd n h) \<le> n"
proof -
  have "length (concat (map (\<lambda>i. case rnd i h of Inr b \<Rightarrow> [b] | Inl _ \<Rightarrow> []) ks)) \<le> length ks" for ks
    by (induction ks) (auto split: sum.splits)
  from this [of "[0..<n]"] show ?thesis by (simp add: freshes_def)
qed

text \<open>Schedules that let both goroutines of \<open>mixes\<close> send everything.\<close>

definition mix_sched_ok :: "nat list \<Rightarrow> nat \<Rightarrow> nat \<Rightarrow> bool" where
  "mix_sched_ok sched m n \<longleftrightarrow> m \<le> count_list sched 0 \<and> n \<le> count_list sched 1"

lemma Mix_spec:
  assumes "0 < h" and "mix_sched_ok sched (length common div h) n"
  shows "\<exists>ids. Mix sched rnd common n h = Inr ids \<and> mset ids = mset (map prefix_id (chunks h common @ freshes rnd n h))"
proof -
  let ?bs = "[map prefix_id (chunks h common), map prefix_id (freshes rnd n h)]"
  have "\<forall>k<length ?bs. length (?bs ! k) \<le> count_list sched k"
    using assms(2) length_freshes [of rnd n h] by (auto simp: mix_sched_ok_def chunks_def nth_Cons split: nat.splits)
  from mset_interleave [OF this] show ?thesis
    by (simp add: Mix_def commons_eq [OF assms(1)] mixes_def)
qed

text \<open>Writing one identifier after the other, each with its newline.\<close>

lemma write_ids:
  assumes "\<And>i f. 0 < budget f \<Longrightarrow> wr i f = Inr \<lparr>wrote = wrote f @ i @ [newline], budget = budget f - 1\<rparr>"
  shows "length ids \<le> budget f \<Longrightarrow> \<exists>f'. fold_res wr ids f = Inr f' \<and> wrote f' = wrote f @ frame_ids ids"
proof (induction ids arbitrary: f)
  case Nil
  show ?case by (simp add: frame_ids_def)
next
  case (Cons i ids)
  then have "wr i f = Inr \<lparr>wrote = wrote f @ i @ [newline], budget = budget f - 1\<rparr>" by (intro assms) simp
  with Cons.IH [of "\<lparr>wrote = wrote f @ i @ [newline], budget = budget f - 1\<rparr>"] Cons.prems show ?case
    by (auto simp: frame_ids_def)
qed

text \<open>The bytes of one generated file: the lines of the common and of the fresh identifiers in some order.\<close>

definition generated :: "bytes list \<Rightarrow> bytes \<Rightarrow> bytes list \<Rightarrow> bool" where
  "generated hs file ids \<longleftrightarrow> file = frame_ids ids \<and> mset ids = mset (map prefix_id hs)"

lemma output_file_spec:
  assumes "mix_sched_ok sched (length common div HashLen) n"
    and "length common div HashLen + n \<le> budget f" and "wrote f = []"
  shows "\<exists>f' ids. output_file (Inr f) sched rnd common n = Inr f' \<and>
    generated (chunks HashLen common @ freshes rnd n HashLen) (wrote f') ids"
proof -
  obtain ids where ids: "Mix sched rnd common n HashLen = Inr ids"
      "mset ids = mset (map prefix_id (chunks HashLen common @ freshes rnd n HashLen))"
    using Mix_spec [OF _ assms(1)] by auto
  have "length ids = length (map prefix_id (chunks HashLen common @ freshes rnd n HashLen))"
    using ids(2) by (rule mset_eq_length)
  then have "length ids \<le> budget f"
    using length_freshes [of rnd n HashLen] assms(2) by (simp add: chunks_def)
  from write_ids [OF _ this, of "\<lambda>i f. case write_conn (i @ [newline]) f of Inl _ \<Rightarrow> Inl LogFatal | Inr f \<Rightarrow> Inr f"]
  show ?thesis using ids assms(3) by (auto simp: output_file_def generated_def write_conn_ok)
qed

lemma generated_typed:
  assumes "generated hs file ids" and "\<forall>h\<in>set hs. length h = HashLen"
  shows "\<forall>i\<in>set ids. valid_id i \<and> length i = EmailPrefixedLen"
proof
  fix i assume "i \<in> set ids"
  with assms(1) have "i \<in> set (map prefix_id hs)" unfolding generated_def by (metis mset_eq_setD)
  with assms(2) prefix_id_valid show "valid_id i \<and> length i = EmailPrefixedLen" by auto
qed

lemma generated_set: "generated hs file ids \<Longrightarrow> set ids = prefix_id ` set hs"
  unfolding generated_def by (metis mset_eq_setD set_map)

section \<open>Properties\<close>

text \<open>
  Property C32. Whatever \<open>rand.Read\<close> delivers and whichever of its reads fail, a run of \<open>output\<close> whose writes succeed
  leaves a file of well-formed lines: each line is an identifier of 66 bytes, the length that dhpsi expects of a
  prefixed email, without a newline; the lines are the encodings of the chunks of the common bytes and of the fresh
  hashes, none lost and none twice; \<open>Count\<close> and \<open>Exhaust\<close> read them back.
\<close>
theorem generated_file_typed:
  assumes "fills rnd" and "mix_sched_ok sched (length common div HashLen) n"
    and "length common div HashLen + n \<le> budget f" and "wrote f = []"
  shows "\<exists>f' ids. output_file (Inr f) sched rnd common n = Inr f' \<and>
    mset ids = mset (map prefix_id (chunks HashLen common @ freshes rnd n HashLen)) \<and>
    (\<forall>i\<in>set ids. valid_id i \<and> length i = EmailPrefixedLen) \<and>
    Count \<lparr>pending = wrote f', ending = EOF\<rparr> = (length ids, None) \<and>
    Exhaust (length ids) \<lparr>pending = wrote f', ending = EOF\<rparr> = ids"
proof -
  obtain f' ids where out: "output_file (Inr f) sched rnd common n = Inr f'"
    and gen: "generated (chunks HashLen common @ freshes rnd n HashLen) (wrote f') ids"
    using output_file_spec [OF assms(2-4)] by blast
  have "\<forall>h\<in>set (chunks HashLen common @ freshes rnd n HashLen). length h = HashLen"
    using length_chunk [of HashLen] length_fresh [OF assms(1)] by auto
  from generated_typed [OF gen this] have typed: "\<forall>i\<in>set ids. valid_id i \<and> length i = EmailPrefixedLen" .
  then have valid: "\<forall>i\<in>set ids. valid_id i" by blast
  have "wrote f' = frame_ids ids" "mset ids = mset (map prefix_id (chunks HashLen common @ freshes rnd n HashLen))"
    using gen by (simp_all add: generated_def)
  with out typed Count_frames [OF valid] Exhaust_file [OF valid, of "length ids"] show ?thesis
    by (intro exI [of _ f'] exI [of _ ids]) simp
qed

theorem generated_file_typed_witness:
  "\<exists>f' ids. output_file (Inr \<lparr>wrote = [], budget = 3\<rparr>) [1, 0, 1] (\<lambda>i h. if i = 0 then Inr (replicate h 7) else Inl RandFailure)
      (replicate 32 5) 2 = Inr f' \<and>
    mset ids = mset (map prefix_id [replicate 32 5, replicate 32 7]) \<and>
    (\<forall>i\<in>set ids. valid_id i \<and> length i = EmailPrefixedLen) \<and>
    Count \<lparr>pending = wrote f', ending = EOF\<rparr> = (length ids, None) \<and>
    Exhaust (length ids) \<lparr>pending = wrote f', ending = EOF\<rparr> = ids"
proof -
  let ?rnd = "\<lambda>i h. if i = 0 then Inr (replicate h 7) else Inl RandFailure"
  have parts: "chunks HashLen (replicate 32 5) @ freshes ?rnd 2 HashLen = [replicate 32 5, replicate 32 7]"
    by (simp add: chunks_def sub_list_def freshes_def upt_rec [of 0 2] upt_rec [of "Suc 0" 2])
  have "fills ?rnd" by (simp add: fills_def)
  from generated_file_typed [OF this, of "[1, 0, 1]" "replicate 32 5" 2 "\<lparr>wrote = [], budget = 3\<rparr>"] show ?thesis
    unfolding parts by (simp add: mix_sched_ok_def)
qed

text \<open>
  Property C33. The generator program writes two files that have exactly its common part in common, when the fresh
  hashes of the two files do not collide with each other or with the common part: what a party that reads both files
  back can compute by intersecting them is the set of the 100 common identifiers.
\<close>
theorem generate_main_common:
  assumes "crnd (commonCardinality * HashLen) = Inr common" and "length common = commonCardinality * HashLen"
    and "fills (rnd 0)" and "fills (rnd 1)"
    and "create 0 = Inr \<lparr>wrote = [], budget = senderCardinality\<rparr>"
    and "create 1 = Inr \<lparr>wrote = [], budget = receiverCardinality\<rparr>"
    and "mix_sched_ok (sched 0) commonCardinality (senderCardinality - commonCardinality)"
    and "mix_sched_ok (sched 1) commonCardinality (receiverCardinality - commonCardinality)"
    and "set (freshes (rnd 0) (senderCardinality - commonCardinality) HashLen) \<inter>
      (set (chunks HashLen common) \<union> set (freshes (rnd 1) (receiverCardinality - commonCardinality) HashLen)) = {}"
    and "set (freshes (rnd 1) (receiverCardinality - commonCardinality) HashLen) \<inter> set (chunks HashLen common) = {}"
  shows "\<exists>f0 f1 ids0 ids1. generate_main crnd create sched rnd = Inr (f0, f1) \<and>
    wrote f0 = frame_ids ids0 \<and> wrote f1 = frame_ids ids1 \<and> (\<forall>i\<in>set (ids0 @ ids1). valid_id i \<and> length i = EmailPrefixedLen) \<and>
    set ids0 \<inter> set ids1 = prefix_id ` set (chunks HashLen common)"
proof -
  let ?h0 = "chunks HashLen common @ freshes (rnd 0) (senderCardinality - commonCardinality) HashLen"
  let ?h1 = "chunks HashLen common @ freshes (rnd 1) (receiverCardinality - commonCardinality) HashLen"
  have len: "length common div HashLen = commonCardinality" using assms(2) by simp
  obtain f0 ids0 where o0: "output_file (create 0) (sched 0) (rnd 0) common (senderCardinality - commonCardinality) = Inr f0"
    and g0: "generated ?h0 (wrote f0) ids0"
    using output_file_spec [of "sched 0" common "senderCardinality - commonCardinality"
        "\<lparr>wrote = [], budget = senderCardinality\<rparr>" "rnd 0"] assms(5,7) unfolding len by auto
  obtain f1 ids1 where o1: "output_file (create 1) (sched 1) (rnd 1) common (receiverCardinality - commonCardinality) = Inr f1"
    and g1: "generated ?h1 (wrote f1) ids1"
    using output_file_spec [of "sched 1" common "receiverCardinality - commonCardinality"
        "\<lparr>wrote = [], budget = receiverCardinality\<rparr>" "rnd 1"] assms(6,8) unfolding len by auto
  have "\<forall>h\<in>set ?h0. length h = HashLen" "\<forall>h\<in>set ?h1. length h = HashLen"
    using length_chunk [of HashLen] length_fresh [OF assms(3)] length_fresh [OF assms(4)] by auto
  with generated_typed [OF g0] generated_typed [OF g1]
  have typed: "\<forall>i\<in>set (ids0 @ ids1). valid_id i \<and> length i = EmailPrefixedLen" by auto
  have "set ids0 \<inter> set ids1 = prefix_id ` (set ?h0 \<inter> set ?h1)"
    unfolding generated_set [OF g0] generated_set [OF g1] by (rule image_Int [OF prefix_id_inj, symmetric])
  also have "set ?h0 \<inter> set ?h1 = set (chunks HashLen common)" using assms(9,10) unfolding set_append by blast
  finally have common: "set ids0 \<inter> set ids1 = prefix_id ` set (chunks HashLen common)" .
  have "generate_main crnd create sched rnd = Inr (f0, f1)"
    unfolding generate_main_def Common_def assms(1) sum.case bind_res_simps o0 o1 ..
  with typed common g0 g1 show ?thesis unfolding generated_def by blast
qed

text \<open>A run in which the common hashes are zero bytes and the fresh ones bytes 1 and 2.\<close>

lemma set_chunks_replicate: "set (chunks h (replicate n x)) \<subseteq> {replicate h x}"
proof
  fix c assume "c \<in> set (chunks h (replicate n x))"
  then obtain i where i: "i < n div h" "c = sub_list (replicate n x) (i * h) h" by (auto simp: chunks_def)
  then have "0 < h" by (cases h) simp_all
  have "length c = h" using length_chunk \<open>0 < h\<close> \<open>c \<in> set (chunks h (replicate n x))\<close> by blast
  with i(2) show "c \<in> {replicate h x}" by (simp add: sub_list_def take_replicate drop_replicate)
qed

theorem generate_main_common_witness:
  "\<exists>f0 f1 ids0 ids1. generate_main (\<lambda>n. Inr (replicate n 0))
      (\<lambda>j. Inr \<lparr>wrote = [], budget = if j = 0 then senderCardinality else receiverCardinality\<rparr>)
      (\<lambda>_. replicate 100 0 @ replicate 9900 1) (\<lambda>j i h. Inr (replicate h (if j = 0 then 1 else 2))) = Inr (f0, f1) \<and>
    wrote f0 = frame_ids ids0 \<and> wrote f1 = frame_ids ids1 \<and> (\<forall>i\<in>set (ids0 @ ids1). valid_id i \<and> length i = EmailPrefixedLen) \<and>
    set ids0 \<inter> set ids1 = prefix_id ` set (chunks HashLen (replicate 3200 0))"
proof -
  have count: "count_list (replicate n x) y = (if x = y then n else 0)" for n :: nat and x y :: nat
    by (induction n) (auto split: if_splits)
  have sched: "mix_sched_ok (replicate 100 0 @ replicate 9900 1) 100 n \<longleftrightarrow> n \<le> 9900" for n
    by (simp add: mix_sched_ok_def count)
  have fresh: "set (freshes (\<lambda>i h. Inr (replicate h x)) n HashLen) \<subseteq> {replicate 32 x}" for x n
    by (auto simp: freshes_def)
  have r: "replicate 32 (1 :: byte) \<noteq> replicate 32 2" "replicate 32 (1 :: byte) \<noteq> replicate 32 0"
      "replicate 32 (2 :: byte) \<noteq> replicate 32 0" by (simp_all add: replicate_eq_replicate)
  let ?rnd = "\<lambda>(j :: nat) i h. Inr (replicate h (if j = 0 then 1 else 2)) :: bytes result"
  have disj: "set (freshes (?rnd 0) 900 HashLen) \<inter> (set (chunks HashLen (replicate 3200 0)) \<union> set (freshes (?rnd 1) 9900 HashLen)) = {}"
      "set (freshes (?rnd 1) 9900 HashLen) \<inter> set (chunks HashLen (replicate 3200 0)) = {}"
    using fresh [of 1 900] fresh [of 2 9900] set_chunks_replicate [of HashLen 3200 0] r by auto
  show ?thesis
    by (rule generate_main_common) (use sched disj in \<open>simp_all add: fills_def\<close>)
qed

end
