(* ===== verification/Programs.thy ===== *)
theory Programs
  imports PSI Emails
begin

text \<open>
  The programs \<open>examples/sender/main.go\<close> and \<open>examples/receiver/main.go\<close>: they read a file of
  identifiers, run one of the protocols over a connection and, on the receiver's side, write the
  intersection to a file. What a run finds in the environment (files, connections, random sources, the
  scheduling of goroutines) is a parameter; logging and memory statistics are left out.
\<close>

section \<open>How a program ends\<close>

text \<open>
  \<open>Return\<close> is the end of \<open>main\<close>, \<open>Exit1\<close> is \<open>os.Exit(1)\<close> in \<open>format.ExitOnErr\<close>, \<open>Usage\<close> is the end with code 0
  after the usage message. \<open>Waiting\<close> is a listener with no more connections, \<open>Stuck\<close> a run that blocks forever.
\<close>

datatype 'a outcome = Return 'a | Waiting 'a | Usage | Exit1 error | Panic error | Stuck

definition ExitOnErr :: "'a result \<Rightarrow> ('a \<Rightarrow> 'b outcome) \<Rightarrow> 'b outcome" where
  "ExitOnErr m k = (case m of Inl e \<Rightarrow> if is_panic e then Panic e else Exit1 e | Inr x \<Rightarrow> k x)"

lemma ExitOnErr_simps [simp]:
  "ExitOnErr (Inr x) k = k x" "ExitOnErr (Inl e) k = (if is_panic e then Panic e else Exit1 e)"
  by (simp_all add: ExitOnErr_def)

section \<open>The interfaces Sender and Receiver\<close>

text \<open>The libraries and the environment of one run, for each of the four protocols.\<close>

record ('g, 'h, 's, 'e, 'bf) machine =
  m_gr :: "('g, 'h) gr_lib"
  m_grkey :: 'g
  m_r255 :: "('s, 'e) r255_lib"
  m_dh :: dh_env
  m_np :: npsi_env
  m_bloom :: "'bf bloom_lib"
  m_bctx :: "nat \<Rightarrow> error option"
  m_kkrt :: kkrt_env

fun psi_Send :: "('g, 'h, 's, 'e, 'bf) machine \<Rightarrow> psi_sender \<Rightarrow> nat \<Rightarrow> bytes list \<Rightarrow> io_reader \<Rightarrow> io_writer \<Rightarrow>
    io_writer result option" where
  "psi_Send M dhpsi_Sender n identifiers r w = DHPSI.Send (m_gr M) (m_grkey M) (m_r255 M) (m_dh M) n identifiers r w"
| "psi_Send M npsi_Sender n identifiers r w = NPSI.Send (m_np M) n identifiers r w"
| "psi_Send M bpsi_Sender n identifiers r w = BPSI.Send (m_bloom M) (m_bctx M) n identifiers w"
| "psi_Send M kkrtpsi_Sender n identifiers r w = KKRT.Send (m_kkrt M) n identifiers r w"

text \<open>
  The bytes that arrive are \<open>r1\<close> and then \<open>r2\<close>; only the Diffie-Hellman receiver, which wraps the connection
  twice, distinguishes them. The Bloom filter receiver writes nothing.
\<close>

fun psi_Intersect :: "('g, 'h, 's, 'e, 'bf) machine \<Rightarrow> psi_receiver \<Rightarrow> nat \<Rightarrow> bytes list \<Rightarrow> io_reader \<Rightarrow> io_reader \<Rightarrow> io_writer \<Rightarrow>
    (bytes list \<times> io_writer) result option" where
  "psi_Intersect M dhpsi_Receiver n identifiers r1 r2 w =
     DHPSI.Intersect (m_gr M) (m_grkey M) (m_r255 M) (m_dh M) n identifiers r1 r2 w"
| "psi_Intersect M npsi_Receiver n identifiers r1 r2 w = NPSI.Intersect (m_np M) identifiers (r1 @ r2) w"
| "psi_Intersect M bpsi_Receiver n identifiers r1 r2 w =
     bind_run (BPSI.Intersect (m_bloom M) (m_bctx M) identifiers (r1 @ r2)) (\<lambda>intersection. Some (Inr (intersection, w)))"
| "psi_Intersect M kkrtpsi_Receiver n identifiers r1 r2 w = KKRT.Intersect (m_kkrt M) n identifiers (r1 @ r2) w"

section \<open>The sender program\<close>

text \<open>
  An open file is the stream of its bytes; \<open>seekable\<close> tells whether it can be rewound. Counting drains
  the file, and the error of \<open>Seek\<close> is dropped.
\<close>

record input_file =
  contents_of :: stream
  seekable :: bool

definition rewind :: "input_file \<Rightarrow> stream" where
  "rewind f = (if seekable f then contents_of f else (contents_of f)\<lparr>pending := []\<rparr>)"

text \<open>\<open>Count\<close> as a result.\<close>

definition count_res :: "stream \<Rightarrow> nat result" where
  "count_res f = (case Count f of (n, None) \<Rightarrow> Inr n | (_, Some e) \<Rightarrow> Inl e)"

definition sender_main :: "('g, 'h, 's, 'e, 'bf) machine \<Rightarrow> bool \<Rightarrow> string \<Rightarrow> input_file result \<Rightarrow> (io_reader \<times> io_writer) result \<Rightarrow>
    io_writer outcome" where
  "sender_main M showHelp protocol file dial =
     (if showHelp then Usage
      else let psiType = parse_protocol protocol in
        ExitOnErr file (\<lambda>f.
        ExitOnErr (count_res (contents_of f)) (\<lambda>n.
        ExitOnErr dial (\<lambda>(r, w).
        ExitOnErr (NewSender psiType) (\<lambda>s.
          case psi_Send M s n (Exhaust n (rewind f)) r w of
            None \<Rightarrow> Stuck
          | Some err \<Rightarrow> ExitOnErr err Return)))))"

section \<open>The receiver program\<close>

text \<open>
  What one accepted connection brings: the environment of the run, the two parts of the bytes that arrive, the
  outgoing side, the outcome of opening the input file once more and of creating the output file.
\<close>

record ('g, 'h, 's, 'e, 'bf) connection =
  c_env :: "('g, 'h, 's, 'e, 'bf) machine"
  c_r1 :: io_reader
  c_r2 :: io_reader
  c_w :: io_writer
  c_file :: "stream result"
  c_create :: "io_writer result"

definition handle :: "psi_receiver \<Rightarrow> nat \<Rightarrow> stream \<Rightarrow> ('g, 'h, 's, 'e, 'bf) connection \<Rightarrow> (io_writer \<times> io_writer) outcome" where
  "handle r n f c =
     (case psi_Intersect (c_env c) r n (Exhaust n f) (c_r1 c) (c_r2 c) (c_w c) of
        None \<Rightarrow> Stuck
      | Some res \<Rightarrow>
          ExitOnErr res (\<lambda>(i, w).
          ExitOnErr (c_create c) (\<lambda>out.
          ExitOnErr (fold_res (\<lambda>x out. write_conn (x @ [newline]) out) i out) (\<lambda>out.
            Return (w, out)))))"

text \<open>
  The loop over the accepted connections. \<open>served\<close> collects, for every handler that finished, its side of
  the connection and what it wrote through its own descriptor of the output file. An exit in a handler ends the whole
  program; a handler that blocks holds up the program only when it waits for it.
\<close>

fun accept_loop :: "Protocol \<Rightarrow> bool \<Rightarrow> nat \<Rightarrow> ('g, 'h, 's, 'e, 'bf) connection result list \<Rightarrow> (io_writer \<times> io_writer) list \<Rightarrow>
    (io_writer \<times> io_writer) list outcome" where
  "accept_loop psiType once n [] served = Waiting served"
| "accept_loop psiType once n (acc # conns) served =
     ExitOnErr acc (\<lambda>c.
     ExitOnErr (c_file c) (\<lambda>f.
     ExitOnErr (NewReceiver psiType) (\<lambda>receiver.
       case handle receiver n f c of
         Exit1 e \<Rightarrow> Exit1 e
       | Panic e \<Rightarrow> Panic e
       | Return x \<Rightarrow> if once then Return (served @ [x]) else accept_loop psiType once n conns (served @ [x])
       | _ \<Rightarrow> if once then Stuck else accept_loop psiType once n conns served)))"

definition receiver_main :: "bool \<Rightarrow> string \<Rightarrow> bool \<Rightarrow> stream result \<Rightarrow> unit result \<Rightarrow> ('g, 'h, 's, 'e, 'bf) connection result list \<Rightarrow>
    (io_writer \<times> io_writer) list outcome" where
  "receiver_main showHelp protocol once file listen conns =
     (if showHelp then Usage
      else let psiType = parse_protocol protocol in
        ExitOnErr file (\<lambda>f.
        ExitOnErr (count_res f) (\<lambda>n.
        ExitOnErr listen (\<lambda>_.
          accept_loop psiType once n conns []))))"

section \<open>Runs of the programs\<close>

abbreviation file_of :: "bytes list \<Rightarrow> stream" where
  "file_of ids \<equiv> \<lparr>pending = frame_ids ids, ending = EOF\<rparr>"

lemma count_res_file: "\<forall>i\<in>set ids. valid_id i \<Longrightarrow> count_res (file_of ids) = Inr (length ids)"
  by (simp add: count_res_def Count_frames)

lemma sender_program:
  assumes "\<forall>i\<in>set xs. valid_id i" and "NewSender (parse_protocol p) = Inr s"
    and "psi_Send M s (length xs) xs r w = Some (Inr w')"
  shows "sender_main M False p (Inr \<lparr>contents_of = file_of xs, seekable = True\<rparr>) (Inr (r, w)) = Return w'"
  using assms by (simp add: sender_main_def count_res_file rewind_def Exhaust_file)

lemma receiver_program:
  assumes "\<forall>i\<in>set ys. valid_id i" and "NewReceiver (parse_protocol p) = Inr r"
    and "psi_Intersect (c_env c) r (length ys) ys (c_r1 c) (c_r2 c) (c_w c) = Some (Inr (zs, w'))"
    and "c_file c = Inr (file_of ys)" and "c_create c = Inr f" and "wrote f = []" and "length zs \<le> budget f"
  shows "\<exists>f'. receiver_main False p True (Inr (file_of ys)) (Inr ()) (Inr c # conns) = Return [(w', f')] \<and> wrote f' = frame_ids zs"
proof -
  obtain f' where "fold_res (\<lambda>x f. write_conn (x @ [newline]) f) zs f = Inr f'" "wrote f' = frame_ids zs"
    using write_ids [OF _ assms(7), of "\<lambda>x f. write_conn (x @ [newline]) f"] assms(6) by (auto simp: write_conn_ok)
  with assms(1-5) show ?thesis
    by (simp add: receiver_main_def count_res_file handle_def Exhaust_file)
qed

text \<open>Without the flag \<open>once\<close> the receiver serves one connection after the other and goes on listening.\<close>

lemma accept_loop_serves:
  assumes "NewReceiver psiType = Inr r" and "list_all2 (\<lambda>c x. \<exists>f. c_file c = Inr f \<and> handle r n f c = Return x) cs xs"
  shows "accept_loop psiType False n (map Inr cs) served = Waiting (served @ xs)"
  using assms(2)
proof (induction arbitrary: served rule: list_all2_induct)
  case (Cons c cs x xs)
  then show ?case using assms(1) by auto
qed simp

text \<open>
  A name that the flag does not know is noticed only when the connection is there: the sender has dialled, the
  receiver ends at the first connection.
\<close>

lemma unknown_protocol:
  assumes "\<forall>i\<in>set ids. valid_id i" and "p \<notin> {''bpsi'', ''npsi'', ''dhpsi'', ''kkrt''}" and "c_file c = Inr f"
  shows "sender_main M False p (Inr \<lparr>contents_of = file_of ids, seekable = k\<rparr>) (Inr conn) = Exit1 ErrUnsupportedPSIProtocol"
    and "receiver_main False p once (Inr (file_of ids)) (Inr ()) (Inr c # conns) = Exit1 ErrUnsupportedPSIProtocol"
    and "receiver_main False p once (Inr (file_of ids)) (Inr ()) ([] :: ('g, 'h, 's, 'e, 'bf) connection result list) = Waiting []"
  using assms
  by (simp_all add: sender_main_def receiver_main_def count_res_file parse_protocol_def NewSender_def NewReceiver_def split: prod.split)

text \<open>
  A connection whose handler reopens the same input file and may write \<open>b\<close> lines to a new output file.
\<close>

definition accepted :: "('g, 'h, 's, 'e, 'bf) machine \<Rightarrow> io_reader \<Rightarrow> io_reader \<Rightarrow> io_writer \<Rightarrow> bytes list \<Rightarrow> nat \<Rightarrow>
    ('g, 'h, 's, 'e, 'bf) connection" where
  "accepted M r1 r2 w ys b =
     \<lparr>c_env = M, c_r1 = r1, c_r2 = r2, c_w = w, c_file = Inr (file_of ys), c_create = Inr \<lparr>wrote = [], budget = b\<rparr>\<rparr>"

text \<open>A file that holds exactly the common identifiers, each on one line of its own.\<close>

definition common_file :: "bytes list \<Rightarrow> bytes list \<Rightarrow> bytes \<Rightarrow> bool" where
  "common_file xs ys file \<longleftrightarrow> (\<exists>zs. file = frame_ids zs \<and> distinct zs \<and> set zs = set xs \<inter> set ys)"

text \<open>Whatever the protocol, a run that computes the intersection carries over to the programs.\<close>

lemma programs_run:
  assumes valid: "\<forall>i\<in>set (xs @ ys). valid_id i" and new: "NewSender (parse_protocol p) = Inr s" "NewReceiver (parse_protocol p) = Inr r"
    and b: "length ys \<le> b"
    and run: "\<exists>v' w' zs. psi_Send M s (length xs) xs rs v = Some (Inr v') \<and> wrote v' = wrote v @ a \<and>
      psi_Intersect M' r (length ys) ys r1 r2 w = Some (Inr (zs, w')) \<and> wrote w' = wrote w @ t \<and>
      distinct zs \<and> set zs = set xs \<inter> set ys"
  shows "\<exists>v' w' f'.
    sender_main M False p (Inr \<lparr>contents_of = file_of xs, seekable = True\<rparr>) (Inr (rs, v)) = Return v' \<and> wrote v' = wrote v @ a \<and>
    receiver_main False p True (Inr (file_of ys)) (Inr ()) [Inr (accepted M' r1 r2 w ys b)] = Return [(w', f')] \<and>
    wrote w' = wrote w @ t \<and> common_file xs ys (wrote f')"
proof -
  from run obtain v' w' zs where send: "psi_Send M s (length xs) xs rs v = Some (Inr v')"
    and isect: "psi_Intersect M' r (length ys) ys r1 r2 w = Some (Inr (zs, w'))"
    and wr: "wrote v' = wrote v @ a" "wrote w' = wrote w @ t" and zs: "distinct zs" "set zs = set xs \<inter> set ys" by blast
  have sender: "sender_main M False p (Inr \<lparr>contents_of = file_of xs, seekable = True\<rparr>) (Inr (rs, v)) = Return v'"
    using sender_program [OF _ new(1) send] valid by simp
  have "length zs = card (set zs)" using zs(1) by (simp add: distinct_card)
  also have "\<dots> \<le> card (set ys)" using zs(2) by (intro card_mono) auto
  also have "\<dots> \<le> length ys" by (rule card_length)
  finally have len: "length zs \<le> b" using b by simp
  have "\<exists>f'. receiver_main False p True (Inr (file_of ys)) (Inr ()) [Inr (accepted M' r1 r2 w ys b)] = Return [(w', f')] \<and> wrote f' = frame_ids zs"
    by (rule receiver_program [OF _ new(2), where f = "\<lparr>wrote = [], budget = b\<rparr>"])
      (use valid isect len in \<open>simp_all add: accepted_def\<close>)
  with zs sender wr show ?thesis unfolding common_file_def by blast
qed

lemma parse_names:
  "NewSender (parse_protocol ''npsi'') = Inr npsi_Sender" "NewReceiver (parse_protocol ''npsi'') = Inr npsi_Receiver"
  "NewSender (parse_protocol ''kkrt'') = Inr kkrtpsi_Sender" "NewReceiver (parse_protocol ''kkrt'') = Inr kkrtpsi_Receiver"
  "NewSender (parse_protocol ''dhpsi'') = Inr dhpsi_Sender" "NewReceiver (parse_protocol ''dhpsi'') = Inr dhpsi_Receiver"
  by (simp_all add: parse_protocol_def NewSender_def NewReceiver_def)

section \<open>Properties\<close>

text \<open>
  Property C5. With the default protocol, two files of identifiers go in and the file of the common identifiers comes out:
  the sender program ends normally, the receiver program with the flag \<open>once\<close> serves the connection, ends normally and leaves a
  file with exactly the common identifiers, one per line. The salt has to arrive at the sender in one piece and the salted
  hashes of the identifiers must not collide; the bytes for the receiver may be split in any way.
\<close>
theorem programs_npsi:
  assumes valid: "\<forall>i\<in>set (xs @ ys). valid_id i"
    and lib: "np_lib (m_np M) = H" "np_lib (m_np M') = H" and ctx: "np_ctx (m_np M) = (\<lambda>_. None)" "np_ctx (m_np M') = (\<lambda>_. None)"
    and salt: "np_salt (m_np M') = Inr k" "NewMetroHasher k = Inr h"
    and sched: "sched_ok (np_sched (m_np M)) (length xs)" "sched_ok (np_sched (m_np M')) (length ys)" "iter_ok (np_iter (m_np M'))"
    and inj: "inj_on (Hash64 H h) (set xs \<union> set ys)" and n: "length xs < 2 ^ 63"
    and budgets: "length xs + 1 \<le> budget v" "1 \<le> budget w" "length ys \<le> b"
  shows "\<exists>a. \<forall>rest r1 r2. concat (r1 @ r2) = a \<longrightarrow> (\<exists>v' w' f'.
    sender_main M False ''npsi'' (Inr \<lparr>contents_of = file_of xs, seekable = True\<rparr>) (Inr (k # rest, v)) = Return v' \<and>
    wrote v' = wrote v @ a \<and>
    receiver_main False ''npsi'' True (Inr (file_of ys)) (Inr ()) [Inr (accepted M' r1 r2 w ys b)] = Return [(w', f')] \<and>
    wrote w' = wrote w @ k \<and> common_file xs ys (wrote f'))"
proof -
  obtain a where a: "\<And>rest rr. concat rr = a \<Longrightarrow> \<exists>v' w' zs.
    NPSI.Send (m_np M) (length xs) xs (k # rest) v = Some (Inr v') \<and> wrote v' = wrote v @ a \<and>
    NPSI.Intersect (m_np M') ys rr w = Some (Inr (zs, w')) \<and> wrote w' = wrote w @ k \<and> distinct zs \<and> set zs = set xs \<inter> set ys"
    using npsi_run [OF lib ctx salt sched inj n budgets(1,2)] by blast
  show ?thesis
    by (intro exI [of _ a] allI impI, rule programs_run [OF valid parse_names(1,2) budgets(3)]) (use a in simp)
qed

text \<open>
  Property C4. The same for the KKRT protocol, with the bytes of both directions arriving in any pieces, when the receiver
  can insert its identifiers into the cuckoo table and the hashed encodings do not collide.
\<close>
theorem programs_kkrt:
  assumes valid: "\<forall>i\<in>set (xs @ ys). valid_id i"
    and run: "kkrt_run_ok (m_kkrt M) (m_kkrt M') (length xs) sd key choices rb msg"
    and new: "NewCuckoo (Inr rb) (length ys) [sd 0, sd 1, sd 2] = Inr c0" and ins: "insert_all (m_kkrt M') ys c0 = Inr c"
    and sizes: "length xs < 2 ^ 63" "length ys < 2 ^ 63"
    and nc: "no_collision (sender_hash (k_oprf (m_kkrt M')) key c
      \<lparr>secret = choices, oprfKeys = run_keys (k_oprf (m_kkrt M')) key c msg choices\<rparr>) (set xs) (set ys)"
    and budgets: "length xs + 518 \<le> budget v" "1539 \<le> budget w" "length ys \<le> b"
  shows "\<exists>a t. \<forall>rs r1 r2. concat rs = t \<and> concat (r1 @ r2) = a \<longrightarrow> (\<exists>v' w' f'.
    sender_main M False ''kkrt'' (Inr \<lparr>contents_of = file_of xs, seekable = True\<rparr>) (Inr (rs, v)) = Return v' \<and> wrote v' = wrote v @ a \<and>
    receiver_main False ''kkrt'' True (Inr (file_of ys)) (Inr ()) [Inr (accepted M' r1 r2 w ys b)] = Return [(w', f')] \<and>
    wrote w' = wrote w @ t \<and> common_file xs ys (wrote f'))"
proof -
  have nonempty: "[] \<notin> set ys" using valid by (auto simp: valid_id_def)
  obtain a t where run: "\<And>rs rr. concat rs = t \<and> concat rr = a \<Longrightarrow> \<exists>v' w' zs.
    KKRT.Send (m_kkrt M) (length xs) xs rs v = Some (Inr v') \<and> wrote v' = wrote v @ a \<and>
    KKRT.Intersect (m_kkrt M') (length ys) ys rr w = Some (Inr (zs, w')) \<and> wrote w' = wrote w @ t \<and> distinct zs \<and> set zs = set xs \<inter> set ys"
    using kkrt_run [OF run new ins sizes nonempty nc budgets(1,2)] by blast
  show ?thesis
    by (intro exI [of _ a] exI [of _ t] allI impI, rule programs_run [OF valid parse_names(3,4) budgets(3)]) (use run in simp)
qed

text \<open>The same for the Diffie-Hellman protocol; no point may be torn apart on the connection.\<close>

theorem programs_dhpsi:
  assumes valid: "\<forall>i\<in>set (xs @ ys). valid_id i"
    and lib: "m_r255 M = lib" "m_r255 M' = lib" "m_gr M = m_gr M'" "m_grkey M = m_grkey M'" and ok: "r255_ok lib"
    and keys: "r255_key lib (ScalarFromUniformBytes lib u)" "r255_key lib (ScalarFromUniformBytes lib u')"
    and inj: "inj_on (r255_ident lib) (set xs \<union> set ys)"
    and sizes: "0 < length xs" "length xs \<le> 2147483649" "0 < length ys" "length ys \<le> 2147483649"
    and budgets: "length xs + length ys + 1 < budget v" "length ys < budget w" "length ys \<le> b"
    and env: "env_ok (m_dh M) (length xs) (length ys) u" "env_ok (m_dh M') (length ys) (length xs) u'"
  shows "\<exists>s1 t s2. \<forall>r1 rs r2. delivers r1 s1 \<and> delivers rs t \<and> delivers r2 s2 \<longrightarrow> (\<exists>v' w' f'.
    sender_main M False ''dhpsi'' (Inr \<lparr>contents_of = file_of xs, seekable = True\<rparr>) (Inr (rs, v)) = Return v' \<and> wrote v' = wrote v @ s1 @ s2 \<and>
    receiver_main False ''dhpsi'' True (Inr (file_of ys)) (Inr ()) [Inr (accepted M' r1 r2 w ys b)] = Return [(w', f')] \<and>
    wrote w' = wrote w @ t \<and> common_file xs ys (wrote f'))"
proof -
  obtain s1 t s2 zs where zs: "set zs = set xs \<inter> set ys" "distinct zs" and run: "\<And>r1 r2 r3. delivers r1 s1 \<and> delivers r2 t \<and> delivers r3 s2 \<Longrightarrow>
      \<exists>v' w'. DHPSI.Send (m_gr M') (m_grkey M') lib (m_dh M) (length xs) xs r2 v = Some (Inr v') \<and> wrote v' = wrote v @ s1 @ s2 \<and>
        DHPSI.Intersect (m_gr M') (m_grkey M') lib (m_dh M') (length ys) ys r1 r3 w = Some (Inr (zs, w')) \<and> wrote w' = wrote w @ t"
    using dhpsi_run [OF ok keys inj sizes budgets(1,2) env, of "m_gr M'" "m_grkey M'"] by blast
  have "\<exists>v' w' zs. psi_Send M dhpsi_Sender (length xs) xs rs v = Some (Inr v') \<and> wrote v' = wrote v @ s1 @ s2 \<and>
      psi_Intersect M' dhpsi_Receiver (length ys) ys r1 r2 w = Some (Inr (zs, w')) \<and> wrote w' = wrote w @ t \<and>
      distinct zs \<and> set zs = set xs \<inter> set ys" if "delivers r1 s1 \<and> delivers rs t \<and> delivers r2 s2" for r1 rs r2
    using run [OF that] zs by (auto simp: lib)
  then show ?thesis
    by (intro exI [of _ s1] exI [of _ t] exI [of _ s2] allI impI programs_run [OF valid parse_names(5,6) budgets(3)])
qed

text \<open>The witnesses run the programs on small instances of all libraries.\<close>

definition toy_machine :: "nat list \<Rightarrow> byte \<Rightarrow> oprf_env \<Rightarrow> (byte, byte, byte, byte, byte) machine" where
  "toy_machine sched u env = \<lparr>m_gr = gr_toy, m_grkey = 1, m_r255 = r255_toy, m_dh = env_toy u, m_np = toy_npsi sched, m_bloom = toy_bloom,
     m_bctx = (\<lambda>_. None), m_kkrt = toy_kkrt env\<rparr>"

abbreviation toy_sender :: "(byte, byte, byte, byte, byte) machine" where
  "toy_sender \<equiv> toy_machine (replicate 512 0) 1 (toy_oprf 9 11)"

abbreviation toy_receiver :: "(byte, byte, byte, byte, byte) machine" where
  "toy_receiver \<equiv> toy_machine (replicate 600 0) 2 (toy_oprf 5 7)"

theorem programs_npsi_witness:
  "\<exists>a. \<forall>rest r1 r2. concat (r1 @ r2) = a \<longrightarrow> (\<exists>v' w' f'.
    sender_main toy_sender False ''npsi'' (Inr \<lparr>contents_of = file_of [[1], [1, 2]], seekable = True\<rparr>)
      (Inr (replicate SaltLength 7 # rest, \<lparr>wrote = [], budget = 3\<rparr>)) = Return v' \<and>
    wrote v' = wrote \<lparr>wrote = [], budget = 3\<rparr> @ a \<and>
    receiver_main False ''npsi'' True (Inr (file_of [[1, 2], [3, 4, 5], [1, 2]])) (Inr ())
      [Inr (accepted toy_receiver r1 r2 \<lparr>wrote = [], budget = 1\<rparr> [[1, 2], [3, 4, 5], [1, 2]] 3)] = Return [(w', f')] \<and>
    wrote w' = wrote \<lparr>wrote = [], budget = 1\<rparr> @ replicate SaltLength 7 \<and>
    common_file [[1], [1, 2]] [[1, 2], [3, 4, 5], [1, 2]] (wrote f'))"
proof -
  obtain h where h: "NewMetroHasher (replicate SaltLength 7) = Inr (Metro64 h)" using toy_salt by blast
  have inj: "inj_on (Hash64 \<lparr>metro_Hash64 = (\<lambda>x s. of_nat (length x) + s), murmur3_Sum64 = (\<lambda>_. 0)\<rparr> (Metro64 h))
      (set [[1], [1, 2 :: byte]] \<union> set [[1, 2], [3, 4, 5], [1, 2]])"
    by (auto simp: inj_on_def)
  show ?thesis
    by (rule programs_npsi [OF _ _ _ _ _ _ h _ _ _ inj])
      (use toy_npsi_sched toy_npsi_ok(3) in \<open>simp_all add: toy_machine_def toy_npsi_def valid_id_def\<close>)
qed

theorem programs_kkrt_witness:
  "\<exists>a t. \<forall>rs r1 r2. concat rs = t \<and> concat (r1 @ r2) = a \<longrightarrow> (\<exists>v' w' f'.
    sender_main toy_sender False ''kkrt'' (Inr \<lparr>contents_of = file_of [[5], [5]], seekable = True\<rparr>)
      (Inr (rs, \<lparr>wrote = [], budget = 520\<rparr>)) = Return v' \<and> wrote v' = wrote \<lparr>wrote = [], budget = 520\<rparr> @ a \<and>
    receiver_main False ''kkrt'' True (Inr (file_of [[5]])) (Inr ())
      [Inr (accepted toy_receiver r1 r2 \<lparr>wrote = [], budget = 1539\<rparr> [[5]] 1)] = Return [(w', f')] \<and>
    wrote w' = wrote \<lparr>wrote = [], budget = 1539\<rparr> @ t \<and> common_file [[5], [5]] [[5]] (wrote f'))"
proof -
  let ?sd = "\<lambda>i. replicate SaltLength (of_nat i :: byte)"
  have m: "m_kkrt toy_sender = toy_kkrt (toy_oprf 9 11)" "m_kkrt toy_receiver = toy_kkrt (toy_oprf 5 7)" by (simp_all add: toy_machine_def)
  obtain c0 c where c: "NewCuckoo (Inr []) (length [[5 :: byte]]) [?sd 0, ?sd 1, ?sd 2] = Inr c0" "insert_all (m_kkrt toy_receiver) [[5]] c0 = Inr c"
    by (rule toy_insert) auto
  have run: "kkrt_run_ok (m_kkrt toy_sender) (m_kkrt toy_receiver) (length [[5 :: byte], [5]]) ?sd (replicate 16 3)
    (replicate 64 85) [] (\<lambda>i j. replicate 64 (of_nat (i + j)))" unfolding m using toy_kkrt_ok by (simp add: numeral_2_eq_2)
  show ?thesis by (rule programs_kkrt [OF _ run c]) (simp_all add: no_collision_def valid_id_def)
qed

text \<open>
  Property C34. The sender program drops the error of \<open>Seek\<close>. With the default protocol npsi and a pipe as its input, the
  identifiers are used up by counting: it announces their number, sends none of them and ends normally; the receiver
  program takes the end of the stream for the end of the hashes and leaves an empty file without reporting anything.
\<close>
theorem pipe_input_lost:
  assumes valid: "\<forall>i\<in>set (xs @ ys). valid_id i" "xs \<noteq> []"
    and ctx: "np_ctx (m_np M) = (\<lambda>_. None)" "np_ctx (m_np M') = (\<lambda>_. None)"
    and salt: "np_salt (m_np M') = Inr k" "NewMetroHasher k = Inr h"
    and sched: "sched_ok (np_sched (m_np M')) (length ys)" "iter_ok (np_iter (m_np M'))"
    and inj: "inj_on (Hash64 (np_lib (m_np M')) h) (set ys)" and n: "length xs < 2 ^ 63"
    and budgets: "1 \<le> budget v" "1 \<le> budget w"
  shows "\<exists>v' w' f'.
    sender_main M False ''npsi'' (Inr \<lparr>contents_of = file_of xs, seekable = False\<rparr>) (Inr (k # rest, v)) = Return v' \<and>
    wrote v' = wrote v @ be_put64 (of_nat (length xs)) \<and>
    receiver_main False ''npsi'' True (Inr (file_of ys)) (Inr ())
      [Inr (accepted M' [be_put64 (of_nat (length xs))] [] w ys b)] = Return [(w', f')] \<and> wrote f' = []"
proof -
  have k: "length k = SaltLength" using salt(2) by (simp add: NewMetroHasher_def split: if_splits)
  let ?b = "be_put64 (of_nat (length xs))" and ?v = "\<lparr>wrote = wrote v @ be_put64 (of_nat (length xs)), budget = budget v - 1\<rparr>"
  have drained: "Exhaust m \<lparr>pending = [], ending = EOF\<rparr> = []" for m
    using Exhaust_file [of "[]" m] by (simp add: frame_ids_def)
  have "?b \<noteq> []" using length_be_put64 [of "of_nat (length xs)"] by (cases ?b) simp_all
  then have "buf_write 4096 ?b ([], v) = Inr (?b, v)" "Flush (?b, v) = ?v"
    using budgets(1) by (auto simp: buf_write_def Flush_def io_write_def)
  then have "NPSI.Sender_stage2 (m_np M) (length xs) [] k v = Inr ?v"
    using salt(2) by (simp add: NPSI.Sender_stage2_def HashAllParallel_empty)
  then have "NPSI.Send (m_np M) (length xs) [] (k # rest) v = Some (Inr ?v)"
    using k ctx(1) by (simp add: NPSI.Send_def NPSI.Sender_stage1_def)
  then have sender: "sender_main M False ''npsi'' (Inr \<lparr>contents_of = file_of xs, seekable = False\<rparr>) (Inr (k # rest, v)) = Return ?v"
    using valid by (simp add: sender_main_def count_res_file rewind_def drained parse_names)
  have "\<exists>zs w'. NPSI.Intersect (m_np M') ys [?b] w = Some (Inr (zs, w')) \<and> distinct zs \<and>
      set zs = {y \<in> set ys. Hash64 (np_lib (m_np M')) h y \<in> set []}"
    by (rule npsi_run_truncated [OF ctx(2) salt sched inj, where n = "length xs" and part = "[]"]) (use valid(2) n budgets(2) in simp_all)
  then obtain w' where "NPSI.Intersect (m_np M') ys [?b] w = Some (Inr ([], w'))" by auto
  then have "\<exists>f'. receiver_main False ''npsi'' True (Inr (file_of ys)) (Inr ()) [Inr (accepted M' [?b] [] w ys b)] = Return [(w', f')] \<and>
      wrote f' = frame_ids []"
    using valid(1) by (intro receiver_program [OF _ parse_names(2), where f = "\<lparr>wrote = [], budget = b\<rparr>"]) (simp_all add: accepted_def)
  with sender show ?thesis by (auto simp: frame_ids_def)
qed

theorem pipe_input_lost_witness:
  "\<exists>v' w' f'.
    sender_main toy_sender False ''npsi'' (Inr \<lparr>contents_of = file_of [[1], [1, 2]], seekable = False\<rparr>)
      (Inr (replicate SaltLength 7 # [], \<lparr>wrote = [], budget = 1\<rparr>)) = Return v' \<and>
    wrote v' = wrote \<lparr>wrote = [], budget = 1\<rparr> @ be_put64 (of_nat (length [[1], [1, 2 :: byte]])) \<and>
    receiver_main False ''npsi'' True (Inr (file_of [[1, 2], [3, 4, 5], [1, 2]])) (Inr ())
      [Inr (accepted toy_receiver [be_put64 (of_nat (length [[1], [1, 2 :: byte]]))] [] \<lparr>wrote = [], budget = 1\<rparr> [[1, 2], [3, 4, 5], [1, 2]] 0)] =
      Return [(w', f')] \<and> wrote f' = []"
proof -
  obtain h where h: "NewMetroHasher (replicate SaltLength 7) = Inr (Metro64 h)" using toy_salt by blast
  have inj: "inj_on (Hash64 (np_lib (m_np toy_receiver)) (Metro64 h)) (set [[1, 2], [3, 4, 5], [1, 2]])"
    by (auto simp: inj_on_def toy_machine_def toy_npsi_def)
  show ?thesis
    by (rule pipe_input_lost [OF _ _ _ _ _ h _ _ inj])
      (use toy_npsi_sched toy_npsi_ok(3) in \<open>simp_all add: toy_machine_def toy_npsi_def valid_id_def\<close>)
qed

end
