(* ===== verification/Spec2Isabelle.thy ===== *)
theory Spec2Isabelle
  imports DH_Fill_Run PAIR Programs
begin

text \<open>
  Verification of \<open>match\<close>, a Go library of private set intersection protocols: a sender and a receiver
  each hold a list of identifiers, and the receiver learns the common ones.

  \<^bold>\<open>The program and how its parts interact.\<close> The package \<open>pkg/psi\<close> chooses one of four protocols by an
  enumeration. \<open>pkg/dhpsi\<close> sends identifiers as permuted points of a ristretto group, multiplied with one
  secret scalar per side, and compares the points that both sides have multiplied. \<open>pkg/npsi\<close> compares
  salted hashes. \<open>pkg/bpsi\<close> sends a Bloom filter. \<open>pkg/kkrtpsi\<close> puts the receiver's identifiers into a
  cuckoo hash table (\<open>internal/cuckoo\<close>), runs an oblivious pseudorandom function on its buckets
  (\<open>internal/oprf\<close>, on top of the base oblivious transfer of \<open>internal/ot\<close>, the ciphers and curve points
  of \<open>internal/crypto\<close> and the bit matrices of \<open>internal/util\<close>) and compares hashed encodings.
  \<open>pkg/pair\<close> is a separate commutative encryption. Stages run under \<open>util.Sel\<close>, identifiers are read by
  \<open>util.Count\<close> and \<open>util.Exhaust\<close>. The programs under \<open>examples\<close> run a protocol between two files of
  identifiers over a connection; \<open>test/emails\<close> makes such files.

  \<^bold>\<open>Modelling conventions\<close> (theories Match_Prelude and Conn). Bytes, uint32 and uint64 values are words;
  lengths, indices and sizes are natural numbers, int64 values integers or natural numbers, with the
  conversion to 64 bits written out where they go over the connection. A call that may fail or panic
  returns \<open>error + 'a\<close>; every error value and panic of the code is a constructor of \<open>error\<close>, and
  \<open>is_panic\<close> tells them apart. A call that may not return has type \<open>option\<close>, with None for not returning.
  Writes in place return the new contents. A connection is two streams: an \<open>io_writer\<close> collects the bytes
  and fails when its budget of calls is used up, an \<open>io_reader\<close> is the list of pieces in which the bytes
  arrive, so that short reads are part of the model; \<open>ReadFull\<close> and the buffered writer are defined over
  them. Sender and receiver run concurrently and are functions of the bytes that arrive from the other;
  the theorems about a protocol show one pair of byte streams on which both sides agree. They hold for every way
  the streams are cut into pieces, with two exceptions that the code does not handle and the theorems name: in dhpsi no piece
  may end inside a point, and in npsi the salt has to arrive at the sender in one piece. Goroutines whose results do not depend on the interleaving are run in
  an order that is a parameter and quantified over; where the interleaving is the point they are step
  relations. Random values are parameters.

  \<^bold>\<open>Theories and sources.\<close>
  \<^item> Match_Prelude: types, errors, \<open>bind_res\<close> and \<open>fold_res\<close> (sequences and loops that may fail), slices,
    byte orders, lemmas on blocks of lists and words.
  \<^item> Conn: \<open>io.Writer\<close>, \<open>io.Reader\<close>, \<open>io.ReadFull\<close>, \<open>encoding/binary\<close>, \<open>bufio.Writer\<close>.
  \<^item> Bits: \<open>internal/util/bits.go\<close>, \<open>bits_generic.go\<close>, \<open>bits_amd64.go\<close>. Both builds equal the bytewise
    operation; the worker pools equal one call. The locales \<open>bit_op\<close> and \<open>double_bit_op\<close> are the contract
    of an operation that a pool may split; they are interpreted on Xor, And, DoubleXor and AndXor.
  \<^item> BitVect and Transpose: \<open>bitvect.go\<close>, \<open>bitvect_generic.go\<close>, \<open>bitvect_amd64.go\<close>. The six word level and
    three block level stages together transpose a 512 by 512 bit matrix; the concurrent transpositions
    equal \<open>bit_transpose\<close>, a reference definition by single bits. The locale \<open>block_codec\<close> is the contract
    of the conversions; both builds are interpretations.
  \<^item> Permutations: \<open>internal/permutations\<close>. The locale \<open>permutation\<close> is the interface Permutations,
    \<open>cycle_walk\<close> the argument that walking along a bijection until the value is in range ends and is a
    bijection. Shuffle of Kensler permutes up to 2^31 + 1 elements; beyond it collides.
  \<^item> Hash and Cuckoo: \<open>internal/hash\<close>, \<open>internal/cuckoo\<close>. The invariant \<open>cuckoo_inv\<close> says that every
    inserted item is in exactly one bucket, the one its hash index selects; Insert refines insertion into
    a set and Exists decides membership. The product 1.4 * size is computed in IEEE double precision.
  \<^item> Framing: \<open>internal/util/framing.go\<close>, \<open>count.go\<close>.
  \<^item> Select: \<open>internal/util/select.go\<close> as two step relations and as the function the protocols see.
  \<^item> DH_Stream, DH_Parallel, DH_Fill, DH_Fill_Run, DHPSI: \<open>pkg/dhpsi\<close>. Sequential writers and readers, the parallel
    shuffler and reader with their batches, the goroutines of \<open>fill\<close> as a step relation for safety, its
    refinement with the bounded pool of workers and the user of the reader for liveness, and the protocol.
    The locale \<open>commuting_ristretto\<close> is the interface Ristretto with the law that multiplications commute;
    it is interpreted on both implementations of the code.
  \<^item> Crypto: \<open>internal/crypto\<close>. The locale \<open>curve_group\<close> is what the transfer needs of points; it is
    interpreted on the operations of \<open>point.go\<close>.
  \<^item> OT and OPRF: \<open>internal/ot\<close>, \<open>internal/oprf\<close>. The receiver of the transfer gets the chosen messages;
    the sender's key evaluates to the receiver's encoding of every bucket.
  \<^item> KKRT: \<open>pkg/kkrtpsi\<close>, and KKRT_Workers: the goroutines of the last stage of its sender as a step
    relation. NPSI and NPSI_Pool: \<open>pkg/npsi\<close>; BPSI: \<open>pkg/bpsi\<close>; PSI: \<open>pkg/psi\<close>, with the names that
    the programs under \<open>examples\<close> accept; PAIR: \<open>pkg/pair\<close>.
  \<^item> Emails: \<open>test/emails/generate.go\<close> and \<open>examples/generate.go\<close>. The generated lines are well-formed
    identifiers, and the two files share exactly the common part.
  \<^item> Programs: \<open>examples/sender/main.go\<close>, \<open>examples/receiver/main.go\<close> and \<open>examples/format\<close>, from the flags to
    the exit. \<open>programs_run\<close> carries a run of any protocol over to the two programs.

  \<^bold>\<open>What is shown.\<close> For each of dhpsi, npsi and kkrtpsi, that both sides end without error and the receiver
  gets exactly the common identifiers, each once; for bpsi, that it gets all common identifiers, and
  exactly these when the filter has no false positive. The programs turn two files of identifiers into the file
  of the common ones. The components below them have their functional
  specifications, equivalences of the optimised and parallel routines with reference definitions, round
  trips, invariants and bounds. A number of theorems show where the code does not do what is intended:
  a panic on a full table, identifiers beyond the announced number, short reads, lost last bytes,
  non-terminating or colliding permutations, a hash that is never reset, a pool that can be exhausted, a
  writer that waits for ever after a cancellation, an input that is lost when it cannot be rewound.

  \<^bold>\<open>Hypotheses on code outside the repository\<close> are predicates with a witness each: \<open>blake3_ok\<close> (output
  lengths), \<open>curve_ok\<close> (P-256 is a group and points survive encoding), \<open>r255_ok\<close> and \<open>gr_ok\<close> (scalar
  multiplication commutes, encodings are injective), \<open>bloom_ok\<close> (no false negatives, a filter survives
  writing), \<open>pair_ok\<close> (as r255), the block length of AES, and for the reinterpreting casts of the amd64
  build \<open>casts_le\<close> (little endian). The comparison of hashes is exact only without collisions: \<open>no_collision\<close>
  in KKRT and injectivity of the salted hash in NPSI are hypotheses of the intersection theorems, as is
  that the cuckoo table takes all identifiers.

  \<^bold>\<open>Bounds and fuel.\<close> Loops with a known number of iterations recurse on it. The eviction loop of the
  cuckoo table has its limit of 200. Shuffle of Kensler is a partial function into \<open>option\<close>, and its
  theorem shows that it returns. The line scanner of \<open>Count\<close> has fuel, which \<open>Count\<close> chooses from the number
  of bytes of the stream; the theorem about it is about \<open>Count\<close>. Sizes that go over
  the connection are below 2^63; the bounds on the budgets in the protocol theorems are the numbers of
  calls of Write that the code makes at most.

  \<^bold>\<open>Not modelled.\<close> Logging, timing and memory statistics; the parsing of flags by the package \<open>flag\<close>, whose
  values are arguments of the programs; that the handlers of concurrent connections of the receiver program
  truncate and write the same output file, of which each handler's own writes are modelled; the floating point
  quotient of LoadFactor, of which the count is modelled; secrecy: the theorems are about what the protocols
  compute, not about what they reveal.
\<close>

end
